(* ===== verification/Prelude.thy ===== *)
theory Prelude
  imports Main "HOL-Library.Word" "HOL-Library.Monad_Syntax"
begin

text \<open>
  Shared vocabulary of the development: the fixed-width integers of
  \<^verbatim>\<open>common/misc/fixed_types.h\<close>, the modelling of aborts, and the facts on lists, options and
  words that several components use.

  A failing \<^verbatim>\<open>assert\<close>, \<^verbatim>\<open>LOG_ASSERT_ERROR\<close> or \<^verbatim>\<open>LOG_PRINT_ERROR\<close> ends the simulator, and so does
  an integer division by zero. An operation that can end this way returns an option, and
  \<open>None\<close> is the abort; the option monad's \<open>do\<close> notation is the sequencing of statements.
\<close>

unbundle bit_operations_syntax

section \<open>Types\<close>

type_synonym u8 = "8 word"
type_synonym u32 = "32 word"
type_synonym u64 = "64 word"
type_synonym IntPtr = "64 word"
type_synonym core_id = int

abbreviation (input) INVALID_CORE_ID :: core_id where
  "INVALID_CORE_ID \<equiv> - 1"

abbreviation (input) INVALID_ADDRESS :: IntPtr where
  "INVALID_ADDRESS \<equiv> - 1"

section \<open>Aborts\<close>

definition ensure :: "bool \<Rightarrow> unit option" where
  "ensure b = (if b then Some () else None)"

named_theorems abort_simps \<open>reduction of guarded computations\<close>

lemma ensure_True [simp]: "ensure True = Some ()"
  by (simp add: ensure_def)

lemma ensure_False [simp]: "ensure False = None"
  by (simp add: ensure_def)

lemma ensure_eq_Some [simp]: "ensure b = Some u \<longleftrightarrow> b"
  by (simp add: ensure_def)

lemma ensure_bind_eq_Some [simp]: "Option.bind (ensure b) f = Some r \<longleftrightarrow> b \<and> f () = Some r"
  by (simp add: ensure_def)

lemma ensure_bind_eq_None [abort_simps]: "Option.bind (ensure b) f = None \<longleftrightarrow> (b \<longrightarrow> f () = None)"
  by (simp add: ensure_def)

lemma bind_Some_iff [abort_simps]:
  "Option.bind x f = Some r \<longleftrightarrow> (\<exists>y. x = Some y \<and> f y = Some r)"
  by (cases x) auto

section \<open>Array elements\<close>

text \<open>Access to element \<open>i\<close> of an array; an index outside the array is an abort.\<close>

definition nth_opt :: "'a list \<Rightarrow> nat \<Rightarrow> 'a option" where
  "nth_opt xs i = (if i < length xs then Some (xs ! i) else None)"

lemma nth_opt_in [simp]: "i < length xs \<Longrightarrow> nth_opt xs i = Some (xs ! i)"
  by (simp add: nth_opt_def)

lemma nth_opt_eq_Some [simp]: "nth_opt xs i = Some x \<longleftrightarrow> i < length xs \<and> xs ! i = x"
  by (auto simp: nth_opt_def)

lemma nth_opt_eq_None [simp]: "nth_opt xs i = None \<longleftrightarrow> length xs \<le> i"
  by (simp add: nth_opt_def)

section \<open>Searching loops\<close>

text \<open>
  \<open>List.find P [0..<n]\<close> is the loop \<^verbatim>\<open>for (i = 0; i < n; i++) if (P(i)) return i;\<close> and
  \<open>List.find P (rev [0..<n])\<close> the same loop counting down.
\<close>

lemma find_upt_Some:
  "List.find P [0..<n] = Some i \<longleftrightarrow> i < n \<and> P i \<and> (\<forall>j < i. \<not> P j)"
  by (auto simp: find_Some_iff)

lemma find_upt_None:
  "List.find P [0..<n] = None \<longleftrightarrow> (\<forall>i < n. \<not> P i)"
  by (auto simp: find_None_iff)

lemma find_rev_upt_None:
  "List.find P (rev [0..<n]) = None \<longleftrightarrow> (\<forall>i < n. \<not> P i)"
  by (auto simp: find_None_iff)

lemma find_set_Some: "List.find P xs = Some i \<Longrightarrow> i \<in> set xs \<and> P i"
  by (auto simp: find_Some_iff)

lemma find_rev_upt_Some:
  "List.find P (rev [0..<n]) = Some i \<longleftrightarrow> i < n \<and> P i \<and> (\<forall>j. i < j \<and> j < n \<longrightarrow> \<not> P j)"
proof (induction n)
  case 0
  then show ?case by simp
next
  case (Suc n)
  then show ?case
    by (auto simp: less_Suc_eq)
qed

lemma find_rev_upt_unique:
  assumes "i < n" and "P i" and "\<And>j. j < n \<Longrightarrow> P j \<Longrightarrow> j = i"
  shows "List.find P (rev [0..<n]) = Some i"
  unfolding find_rev_upt_Some using assms by blast

section \<open>Loops that may abort\<close>

text \<open>\<open>fold_opt f xs s\<close> runs the loop body \<open>f\<close> on the elements of \<open>xs\<close> in order; an abort in the body
  ends the loop.\<close>

fun fold_opt :: "('a \<Rightarrow> 's \<Rightarrow> 's option) \<Rightarrow> 'a list \<Rightarrow> 's \<Rightarrow> 's option" where
  "fold_opt f [] s = Some s"
| "fold_opt f (x # xs) s = do { s' \<leftarrow> f x s; fold_opt f xs s' }"

lemma fold_opt_append: "fold_opt f (xs @ ys) s = Option.bind (fold_opt f xs s) (fold_opt f ys)"
  by (induction xs arbitrary: s) (auto split: bind_split)

lemma fold_opt_inv:
  assumes "fold_opt f xs s = Some s'" and "I s"
    and "\<And>x t t'. x \<in> set xs \<Longrightarrow> I t \<Longrightarrow> f x t = Some t' \<Longrightarrow> I t'"
  shows "I s'"
  using assms
proof (induction xs arbitrary: s)
  case (Cons x xs)
  from Cons.prems(1) obtain t where "f x s = Some t" and "fold_opt f xs t = Some s'"
    by (auto simp: abort_simps)
  then show ?case
    using Cons.IH [of t] Cons.prems(2,3) by (metis list.set_intros)
qed simp

lemma fold_opt_total:
  assumes "I s" and "\<And>x t. x \<in> set xs \<Longrightarrow> I t \<Longrightarrow> \<exists>t'. f x t = Some t' \<and> I t'"
  shows "\<exists>s'. fold_opt f xs s = Some s' \<and> I s'"
  using assms
proof (induction xs arbitrary: s)
  case (Cons x xs)
  obtain t where "f x s = Some t" and "I t"
    using Cons.prems(2) [of x s] Cons.prems(1) by auto
  then show ?case
    using Cons.IH [of t] Cons.prems(2) by auto
qed simp

section \<open>Words\<close>

lemma unat_ucast_32_64 [simp]: "unat (ucast (x :: u32) :: u64) = unat x"
  by transfer (simp add: take_bit_nat_eq_self_iff)

lemma unat_of_nat_small: "n < 2 ^ LENGTH('a) \<Longrightarrow> unat (of_nat n :: 'a::len word) = n"
  by (simp add: unat_of_nat take_bit_nat_eq_self)

lemma unat_lt2p: "unat (x :: 'a::len word) < 2 ^ LENGTH('a)"
  by (rule unsigned_less)

lemma unat_exp: "k < LENGTH('a) \<Longrightarrow> unat (2 ^ k :: 'a::len word) = 2 ^ k"
  using unat_of_nat_small [of "2 ^ k", where 'a = 'a] by simp

lemma unat_ucast_64_32: "unat x < 2 ^ 32 \<Longrightarrow> unat (ucast (x :: u64) :: u32) = unat x"
  by (simp add: unsigned_ucast_eq take_bit_nat_eq_self)

lemma nat_sint: "0 \<le> sint w \<Longrightarrow> nat (sint w) = unat (w :: 'a::len word)"
proof -
  assume nonneg: "0 \<le> sint w"
  have "sint w < 2 ^ (LENGTH('a) - Suc 0)"
    unfolding sint_uint by (rule signed_take_bit_int_less_exp)
  also have "\<dots> \<le> 2 ^ LENGTH('a)"
    by (rule power_increasing) simp_all
  finally have "uint w = sint w"
    using nonneg by (simp add: uint_sint take_bit_int_eq_self)
  then show ?thesis
    by (simp add: unat_eq_nat_uint)
qed

lemma unat_plus_one:
  fixes a b :: "'a::len word"
  assumes "a < b"
  shows "unat (a + 1) = Suc (unat a)"
proof -
  have "unat a + 1 < 2 ^ LENGTH('a)"
    using assms unat_lt2p [of b] unfolding word_less_nat_alt by linarith
  then show ?thesis
    by (simp add: unat_word_ariths)
qed

lemma unat_minus_one_pos:
  fixes a b :: "'a::len word"
  assumes "b < a"
  shows "unat (a - 1) = unat a - 1"
proof -
  have "a \<noteq> 0"
    using assms by auto
  then show ?thesis
    by (simp add: unat_minus_one)
qed

lemma unat_drop_bit: "unat (drop_bit n (x :: 'a::len word)) = unat x div 2 ^ n"
  by (subst unat_drop_bit_eq) (rule drop_bit_eq_div)

lemma unat_and_mask: "unat (x AND mask n :: 'a::len word) = unat x mod 2 ^ n"
  by (simp only: take_bit_eq_mask [symmetric] unsigned_take_bit_eq) (rule take_bit_eq_mod)

end
