(* ===== verification/Util.thy ===== *)
theory Util
  imports Prelude
begin

text \<open>
  The integer utilities of \<^verbatim>\<open>common/misc/utils.cc\<close> and the two random number generators of
  \<^verbatim>\<open>common/misc/rng.h\<close> and \<^verbatim>\<open>common/misc/random.h\<close>, on words of the widths the code uses.
\<close>

section \<open>Definitions\<close>

definition isPower2 :: "u32 \<Rightarrow> bool" where
  "isPower2 n \<longleftrightarrow> n AND (n - 1) = 0"

definition log2_step :: "nat \<Rightarrow> u32 \<Rightarrow> int \<times> u32 \<Rightarrow> int \<times> u32" where
  "log2_step k m = (\<lambda>(p, n). if n AND m \<noteq> 0 then (p + int k, drop_bit k n) else (p, n))"

definition floorLog2 :: "u32 \<Rightarrow> int" where
  "floorLog2 n0 =
     (if n0 = 0 then - 1
      else
        let s1 = log2_step 16 0xffff0000 (0, n0);
            s2 = log2_step 8 0x0000ff00 s1;
            s3 = log2_step 4 0x000000f0 s2;
            s4 = log2_step 2 0x0000000c s3;
            (p, n) = s4
        in if n AND 0x00000002 \<noteq> 0 then p + 1 else p)"

definition ceilLog2 :: "u32 \<Rightarrow> int" where
  "ceilLog2 n = floorLog2 (n - 1) + 1"

lemma and_pred_less: "n \<noteq> 0 \<Longrightarrow> unat (n AND (n - 1) :: 'a::len word) < unat n"
proof -
  assume "n \<noteq> 0"
  then have "unat (n - 1) < unat n"
    by (simp add: unat_minus_one unat_gt_0)
  moreover have "n AND (n - 1) \<le> n - 1"
    by (rule word_and_le1)
  ultimately show ?thesis
    by (simp add: word_le_nat_alt)
qed

function countBits_loop :: "u64 \<Rightarrow> u64 \<Rightarrow> u64" where
  "countBits_loop n result =
     (let n' = n AND (n - 1) in if n' \<noteq> 0 then countBits_loop n' (result + 1) else result)"
  by pat_completeness auto
termination
proof (relation "measure (\<lambda>(n, result). unat n)")
  show "wf (measure (\<lambda>(n :: u64, result :: u64). unat n))"
    by simp
  fix n result x :: u64
  assume "x = n AND (n - 1)" and "x \<noteq> 0"
  then show "((x, result + 1), (n, result)) \<in> measure (\<lambda>(n, result). unat n)"
    using and_pred_less [of n] by (cases "n = 0") auto
qed

declare countBits_loop.simps [simp del]

definition countBits :: "u64 \<Rightarrow> u64" where
  "countBits n = (if n = 0 then 0 else countBits_loop n 1)"

definition rng_next :: "u64 \<Rightarrow> u64 \<times> u64" where
  "rng_next state =
     (let state' = (0x5DEECE66D * state + 0xB) AND ((push_bit 48 1) - 1)
      in (drop_bit 16 state', state'))"

definition rng_seed :: "u64 \<Rightarrow> u64" where
  "rng_seed seed = push_bit 16 seed + 0x330E"

definition random_next :: "u32 \<Rightarrow> u32 \<Rightarrow> u32 \<times> u32" where
  "random_next seed limit =
     (let seed' = seed * 1103515245 + 12345 in ((seed' div 65536) mod limit, seed'))"

section \<open>Bits of a predecessor\<close>

lemma unat_and_pred:
  "n \<noteq> 0 \<Longrightarrow> unat (n AND (n - 1) :: 'a::len word) = unat n AND (unat n - 1)"
  by (simp add: unsigned_and_eq unat_minus_one)

lemma and_pred_even: "0 < (m :: nat) \<Longrightarrow> (2 * m) AND (2 * m - Suc 0) = 2 * (m AND (m - Suc 0))"
proof -
  assume "0 < m"
  then have "2 * m - Suc 0 = Suc (2 * (m - Suc 0))"
    by simp
  then show ?thesis
    by (simp only:) (simp add: and_rec [of "2 * m"])
qed

lemma and_pred_odd: "Suc (2 * m) AND (2 * m) = 2 * (m :: nat)"
  by (simp add: and_rec [of "Suc (2 * m)"])

text \<open>The reference for \<^verbatim>\<open>countBits\<close>: the sum of the binary digits.\<close>

fun popcount :: "nat \<Rightarrow> nat" where
  "popcount n = (if n = 0 then 0 else n mod 2 + popcount (n div 2))"

declare popcount.simps [simp del]

lemma popcount_0 [simp]: "popcount 0 = 0"
  by (simp add: popcount.simps)

lemma popcount_double [simp]: "popcount (2 * m) = popcount m"
  by (cases "m = 0") (simp_all add: popcount.simps [of "2 * m"])

lemma popcount_Suc_double [simp]: "popcount (Suc (2 * m)) = Suc (popcount m)"
  by (simp add: popcount.simps [of "Suc (2 * m)"])

lemma popcount_and_pred: "0 < n \<Longrightarrow> popcount n = Suc (popcount (n AND (n - Suc 0)))"
proof (induction n rule: less_induct)
  case (less n)
  show ?case
  proof (cases "even n")
    case True
    then obtain m where m: "n = 2 * m" by (elim evenE)
    with less.prems have pos: "0 < m" by simp
    with less.IH [of m] m have "popcount m = Suc (popcount (m AND (m - Suc 0)))" by simp
    with pos m show ?thesis by (simp only: and_pred_even popcount_double)
  next
    case False
    then obtain m where "n = Suc (2 * m)" by (elim oddE) simp
    then show ?thesis by (simp add: and_pred_odd)
  qed
qed

lemma popcount_le: "popcount n \<le> n"
proof (induction n rule: popcount.induct)
  case (1 n)
  then show ?case
    by (cases "n = 0") (simp_all add: popcount.simps [of n])
qed

lemma popcount_lt_exp: "n < 2 ^ k \<Longrightarrow> popcount n \<le> k"
proof (induction k arbitrary: n)
  case (Suc k)
  then have "popcount (n div 2) \<le> k" by simp
  then show ?case by (cases "n = 0") (simp_all add: popcount.simps [of n])
qed simp

section \<open>countBits\<close>

lemma countBits_loop_correct:
  "n \<noteq> 0 \<Longrightarrow> countBits_loop n result = result + of_nat (popcount (unat n)) - 1"
proof (induction n result rule: countBits_loop.induct)
  case (1 n result)
  let ?n' = "n AND (n - 1)"
  have pc: "popcount (unat n) = Suc (popcount (unat ?n'))"
    using "1.prems" popcount_and_pred [of "unat n"] by (simp add: unat_and_pred unat_gt_0)
  show ?case
  proof (cases "?n' = 0")
    case True
    with pc show ?thesis by (simp add: countBits_loop.simps [of n])
  next
    case False
    then have "countBits_loop ?n' (result + 1) = result + 1 + of_nat (popcount (unat ?n')) - 1"
      using "1.IH" by simp
    with False pc show ?thesis
      by (simp add: countBits_loop.simps [of n] Let_def)
  qed
qed

lemma countBits_popcount: "countBits n = of_nat (popcount (unat n))"
  by (simp add: countBits_def countBits_loop_correct)

text \<open>\<^verbatim>\<open>countBits\<close> returns the number of one bits of its 64-bit argument, for every argument.\<close>

lemma countBits_correct: "unat (countBits n) = popcount (unat n)"
proof -
  have "popcount (unat n) \<le> 64"
    using popcount_lt_exp [of "unat n" 64] unat_lt2p [of n] by simp
  then show ?thesis
    by (simp add: countBits_popcount unat_of_nat_small)
qed

section \<open>Powers of two and logarithms\<close>

lemma and_pred_eq_0: "0 < (n :: nat) \<Longrightarrow> n AND (n - Suc 0) = 0 \<longleftrightarrow> (\<exists>k. n = 2 ^ k)"
proof (induction n rule: less_induct)
  case (less n)
  show ?case
  proof (cases "even n")
    case True
    then obtain m where m: "n = 2 * m" by (elim evenE)
    with less.prems have pos: "0 < m" by simp
    have "n AND (n - Suc 0) = 0 \<longleftrightarrow> (\<exists>k. m = 2 ^ k)"
      using less.IH [of m] pos m by (simp add: and_pred_even)
    also have "\<dots> \<longleftrightarrow> (\<exists>k. n = 2 ^ k)"
    proof
      assume "\<exists>k. m = 2 ^ k"
      then obtain k where "m = 2 ^ k" ..
      with m have "n = 2 ^ Suc k" by simp
      then show "\<exists>k. n = 2 ^ k" ..
    next
      assume "\<exists>k. n = 2 ^ k"
      then obtain k where k: "n = 2 ^ k" ..
      with True have "k \<noteq> 0" by (cases k) auto
      with k m have "m = 2 ^ (k - 1)" by (cases k) auto
      then show "\<exists>k. m = 2 ^ k" ..
    qed
    finally show ?thesis .
  next
    case False
    then obtain m where m: "n = Suc (2 * m)" by (elim oddE) simp
    have "(\<exists>k. n = 2 ^ k) \<longleftrightarrow> m = 0"
    proof
      assume "\<exists>k. n = 2 ^ k"
      then obtain k where "n = 2 ^ k" ..
      with False show "m = 0" using m by (cases k) auto
    next
      assume "m = 0"
      then have "n = 2 ^ 0" using m by simp
      then show "\<exists>k. n = 2 ^ k" ..
    qed
    then show ?thesis by (simp add: m and_pred_odd)
  qed
qed

lemma isPower2_iff: "isPower2 n \<longleftrightarrow> n = 0 \<or> (\<exists>k. unat n = 2 ^ k)"
proof (cases "n = 0")
  case False
  then have "isPower2 n \<longleftrightarrow> unat n AND (unat n - Suc 0) = 0"
    unfolding isPower2_def by (simp add: unat_and_pred flip: unat_0_iff)
  with False show ?thesis
    by (simp add: and_pred_eq_0 unat_gt_0)
qed (simp add: isPower2_def)

lemma and_high_mask_ne_0:
  fixes n :: u32
  assumes "unat n < 2 ^ (2 * k)"
  shows "n AND push_bit k (mask k) \<noteq> 0 \<longleftrightarrow> 2 ^ k \<le> unat n"
proof -
  have "n AND push_bit k (mask k) = push_bit k (drop_bit k n)"
  proof (rule bit_word_eqI)
    fix i
    assume i: "i < LENGTH(32)"
    have "i < 2 * k" if "bit n i"
    proof (rule ccontr)
      assume "\<not> i < 2 * k"
      then have "unat n < 2 ^ i"
        using assms by (meson less_le_trans one_le_numeral power_increasing not_less)
      then have "\<not> bit (unat n) i"
        by (simp add: bit_nat_def)
      with that show False by (simp add: bit_unsigned_iff)
    qed
    then show "bit (n AND push_bit k (mask k)) i = bit (push_bit k (drop_bit k n)) i"
      using i by (auto simp: bit_simps)
  qed
  moreover have "push_bit k (drop_bit k n) = 0 \<longleftrightarrow> drop_bit k n = 0"
  proof
    assume eq: "push_bit k (drop_bit k n) = 0"
    show "drop_bit k n = 0"
    proof (rule bit_word_eqI)
      fix i
      assume "i < LENGTH(32)"
      have "\<not> bit (push_bit k (drop_bit k n)) (k + i)"
        by (simp add: eq)
      then have "\<not> (k + i < LENGTH(32) \<and> bit n (k + i))"
        by (simp add: bit_simps)
      then show "bit (drop_bit k n) i = bit 0 i"
        using bit_imp_le_length [of n "k + i"] by (auto simp: bit_simps)
    qed
  qed simp
  moreover have "drop_bit k n = 0 \<longleftrightarrow> unat n < 2 ^ k"
    by (simp add: unat_drop_bit div_eq_0_iff flip: unat_0_iff)
  ultimately show ?thesis by (simp add: not_less)
qed

definition log2_inv :: "nat \<Rightarrow> nat \<Rightarrow> int \<times> u32 \<Rightarrow> bool" where
  "log2_inv n0 b = (\<lambda>(p, n). 0 \<le> p \<and> 1 \<le> unat n \<and> unat n < 2 ^ b \<and>
     unat n * 2 ^ nat p \<le> n0 \<and> n0 < (unat n + 1) * 2 ^ nat p)"

lemma log2_step_inv:
  assumes inv: "log2_inv n0 (2 * k) s" and m: "m = push_bit k (mask k)"
  shows "log2_inv n0 k (log2_step k m s)"
proof -
  obtain p n where s: "s = (p, n)" by force
  have b: "0 \<le> p" "1 \<le> unat n" "unat n < 2 ^ (2 * k)" "unat n * 2 ^ nat p \<le> n0"
    "n0 < (unat n + 1) * 2 ^ nat p"
    using inv by (simp_all add: s log2_inv_def)
  show ?thesis
  proof (cases "2 ^ k \<le> unat n")
    case False
    with b show ?thesis
      by (simp add: s log2_step_def m and_high_mask_ne_0 log2_inv_def)
  next
    case True
    let ?q = "unat n div 2 ^ k"
    have q1: "1 \<le> ?q"
      using True by (simp add: Suc_le_eq div_greater_zero_iff)
    have q2: "?q < 2 ^ k"
      using b(3) by (simp add: less_mult_imp_div_less mult_2 power_add)
    have "?q * 2 ^ k \<le> unat n" by simp
    then have lo: "?q * (2 ^ k * 2 ^ nat p) \<le> n0"
      using le_trans [OF mult_le_mono1 b(4), of "?q * 2 ^ k"] by (simp add: mult.assoc)
    have "unat n + 1 \<le> (?q + 1) * 2 ^ k"
      using dividend_less_times_div [of "2 ^ k" "unat n"] by (simp add: algebra_simps Suc_le_eq)
    then have hi: "n0 < (?q + 1) * (2 ^ k * 2 ^ nat p)"
      using less_le_trans [OF b(5) mult_le_mono1, of "(?q + 1) * 2 ^ k"] by (simp add: algebra_simps)
    have e: "nat (p + int k) = k + nat p"
      using b(1) by simp
    show ?thesis
      using True b q1 q2 lo hi
      by (simp add: s log2_step_def m and_high_mask_ne_0 log2_inv_def unat_drop_bit e power_add)
  qed
qed

lemma floorLog2_range:
  assumes "n \<noteq> 0"
  shows "0 \<le> floorLog2 n \<and> 2 ^ nat (floorLog2 n) \<le> unat n \<and> unat n < 2 ^ Suc (nat (floorLog2 n))"
proof -
  have m0: "(0xffff0000 :: u32) = push_bit 16 (mask 16)"
    and m1: "(0x0000ff00 :: u32) = push_bit 8 (mask 8)"
    and m2: "(0x000000f0 :: u32) = push_bit 4 (mask 4)"
    and m3: "(0x0000000c :: u32) = push_bit 2 (mask 2)"
    by (simp_all add: mask_eq_exp_minus_1)
  have i0: "log2_inv (unat n) (2 * 16) (0, n)"
    using assms unat_lt2p [of n] by (simp add: log2_inv_def Suc_le_eq unat_gt_0)
  have i1: "log2_inv (unat n) (2 * 8) (log2_step 16 0xffff0000 (0, n))"
    using log2_step_inv [OF i0 m0] by simp
  have i2: "log2_inv (unat n) (2 * 4) (log2_step 8 0x0000ff00 (log2_step 16 0xffff0000 (0, n)))"
    using log2_step_inv [OF i1 m1] by simp
  have i3: "log2_inv (unat n) (2 * 2)
      (log2_step 4 0x000000f0 (log2_step 8 0x0000ff00 (log2_step 16 0xffff0000 (0, n))))"
    using log2_step_inv [OF i2 m2] by simp
  define s4 where "s4 = log2_step 2 0x0000000c
      (log2_step 4 0x000000f0 (log2_step 8 0x0000ff00 (log2_step 16 0xffff0000 (0, n))))"
  have i4: "log2_inv (unat n) (2 * 1) s4"
    using log2_step_inv [OF i3 m3] by (simp add: s4_def)
  obtain p v where pv: "s4 = (p, v)" by force
  have b: "0 \<le> p" "1 \<le> unat v" "unat v < 4" "unat v * 2 ^ nat p \<le> unat n"
    "unat n < (unat v + 1) * 2 ^ nat p"
    using i4 by (simp_all add: pv log2_inv_def)
  have "v AND 2 \<noteq> 0 \<longleftrightarrow> 2 \<le> unat v"
    using and_high_mask_ne_0 [of v 1] b(3) by (simp add: mask_eq_exp_minus_1)
  then have fl: "floorLog2 n = (if 2 \<le> unat v then p + 1 else p)"
    unfolding floorLog2_def Let_def s4_def [symmetric] pv using assms by simp
  show ?thesis
  proof (cases "2 \<le> unat v")
    case True
    then have "2 * 2 ^ nat p \<le> unat n"
      using b(4) by (meson le_trans mult_le_mono1)
    moreover have "(unat v + 1) * 2 ^ nat p \<le> 4 * 2 ^ nat p"
      using b(3) by (intro mult_le_mono1) simp
    then have "unat n < 4 * 2 ^ nat p"
      using b(5) by linarith
    moreover have "nat (p + 1) = Suc (nat p)"
      using b(1) by simp
    ultimately show ?thesis
      using True b(1) by (simp add: fl)
  next
    case False
    then have "unat v = 1" using b(2) by simp
    with False b show ?thesis by (simp add: fl)
  qed
qed

text \<open>For a non-zero argument \<^verbatim>\<open>floorLog2\<close> returns the exponent of the largest power of two that
  does not exceed it; \<^verbatim>\<open>m_log_blocksize\<close> and \<^verbatim>\<open>m_log_num_sets\<close> of every cache are computed with it.\<close>

lemma floorLog2_bounds:
  assumes "n \<noteq> 0"
  shows "0 \<le> floorLog2 n \<and> 2 ^ nat (floorLog2 n) \<le> unat n \<and> unat n < 2 ^ Suc (nat (floorLog2 n))"
  using assms by (rule floorLog2_range)

lemma floorLog2_power: "k < 32 \<Longrightarrow> floorLog2 (2 ^ k) = int k"
proof -
  assume k: "k < 32"
  have u: "unat (2 ^ k :: u32) = 2 ^ k"
    using k unat_of_nat_small [of "2 ^ k", where 'a = 32]
      power_strict_increasing [of k 32 "2 :: nat"] by simp
  then have "(2 ^ k :: u32) \<noteq> 0"
    by (metis power_not_zero unat_0 zero_neq_numeral)
  from floorLog2_range [OF this] have "0 \<le> floorLog2 (2 ^ k)"
    "(2::nat) ^ nat (floorLog2 (2 ^ k)) \<le> 2 ^ k" "(2::nat) ^ k < 2 ^ Suc (nat (floorLog2 (2 ^ k)))"
    unfolding u by simp_all
  then have "nat (floorLog2 (2 ^ k)) = k"
    using power_le_imp_le_exp [of "2 :: nat" "nat (floorLog2 (2 ^ k))" k]
      power_less_imp_less_exp [of "2 :: nat" k "Suc (nat (floorLog2 (2 ^ k)))"] by linarith
  with \<open>0 \<le> floorLog2 (2 ^ k)\<close> show ?thesis by linarith
qed

text \<open>\<^verbatim>\<open>utils.h\<close> documents \<open>-1\<close> for \<open>ceilLog2(0)\<close>, but the argument wraps around.\<close>

lemma ceilLog2_zero: "ceilLog2 0 = 32"
proof -
  have "(0 :: u32) - 1 = 0xffffffff" by simp
  then show ?thesis
    by (simp only: ceilLog2_def) (simp add: floorLog2_def log2_step_def)
qed

lemma isPower2_zero: "isPower2 0"
  by (simp add: isPower2_def)

end
