(* ===== verification/CacheBase.thy ===== *)
theory CacheBase
  imports Util
begin

text \<open>
  Addresses and cache geometry: the home-node lookup of
  \<^verbatim>\<open>common/core/memory_subsystem/address_home_lookup.cc\<close>, the coherence states of
  \<^verbatim>\<open>cache/cache_state.h\<close> and the address splitting and hashing of \<^verbatim>\<open>cache/cache_base.cc\<close>.
\<close>

section \<open>Coherence states\<close>

datatype cstate = INVALID | SHARED | SHARED_UPGRADING | EXCLUSIVE | OWNED | MODIFIED
  | INVALID_COLD | INVALID_EVICT | INVALID_COHERENCY

fun readable :: "cstate \<Rightarrow> bool" where
  "readable s \<longleftrightarrow> s = MODIFIED \<or> s = OWNED \<or> s = SHARED \<or> s = EXCLUSIVE"

fun writable :: "cstate \<Rightarrow> bool" where
  "writable s \<longleftrightarrow> s = MODIFIED"

section \<open>AddressHomeLookup\<close>

record AddressHomeLookup =
  ahl_param :: nat
  ahl_mask :: u64
  ahl_core_list :: "core_id list"
  ahl_cache_block_size :: u32
  ahl_total_modules :: u32

definition AddressHomeLookup_new :: "nat \<Rightarrow> core_id list \<Rightarrow> u32 \<Rightarrow> AddressHomeLookup option" where
  "AddressHomeLookup_new param core_list block_size = do {
     ensure (param < 31);
     ensure (2 ^ param \<ge> sint block_size);
     Some \<lparr>ahl_param = param, ahl_mask = push_bit param 1 - 1, ahl_core_list = core_list,
       ahl_cache_block_size = block_size, ahl_total_modules = of_nat (length core_list)\<rparr>
   }"

definition ahl_module :: "AddressHomeLookup \<Rightarrow> IntPtr \<Rightarrow> int option" where
  "ahl_module a address = do {
     ensure (ahl_total_modules a \<noteq> 0);
     let module_num =
       sint (ucast (drop_bit (ahl_param a) address mod ucast (ahl_total_modules a)) :: u32);
     ensure (0 \<le> module_num \<and> module_num < sint (ahl_total_modules a));
     Some module_num
   }"

definition getHome :: "AddressHomeLookup \<Rightarrow> IntPtr \<Rightarrow> core_id option" where
  "getHome a address = do {
     module_num \<leftarrow> ahl_module a address;
     nth_opt (ahl_core_list a) (nat module_num)
   }"

definition getLinearBlock :: "AddressHomeLookup \<Rightarrow> IntPtr \<Rightarrow> IntPtr option" where
  "getLinearBlock a address = do {
     ensure (ahl_total_modules a \<noteq> 0);
     Some (drop_bit (ahl_param a) address div ucast (ahl_total_modules a))
   }"

definition getLinearAddress :: "AddressHomeLookup \<Rightarrow> IntPtr \<Rightarrow> IntPtr option" where
  "getLinearAddress a address = do {
     b \<leftarrow> getLinearBlock a address;
     Some (push_bit (ahl_param a) b OR (address AND ahl_mask a))
   }"

section \<open>CacheBase\<close>

datatype access_t = LOAD | STORE

datatype cache_t = PR_L1_CACHE | PR_L2_CACHE | SHARED_CACHE

datatype hash_t = INVALID_HASH_TYPE | HASH_MASK | HASH_MOD | HASH_RNG1_MOD | HASH_RNG2_MOD
  | HASH_PRIME_DIS | HASH_XOR_MOD | HASH_MER_MOD

record CacheBase =
  cb_cache_size :: u64
  cb_associativity :: u32
  cb_blocksize :: u32
  cb_hash :: hash_t
  cb_num_sets :: u32
  cb_ahl :: "AddressHomeLookup option"
  cb_log_blocksize :: nat
  cb_log_num_sets :: nat

text \<open>
  The constructor. \<^verbatim>\<open>floorLog2(0)\<close> is \<open>-1\<close>, and a shift by it is undefined: zero block sizes and
  zero set counts are aborts here.
\<close>

definition CacheBase_new ::
  "u32 \<Rightarrow> u32 \<Rightarrow> u32 \<Rightarrow> hash_t \<Rightarrow> AddressHomeLookup option \<Rightarrow> CacheBase option" where
  "CacheBase_new num_sets associativity cache_block_size hash ahl = do {
     ensure (cache_block_size \<noteq> 0 \<and> num_sets \<noteq> 0);
     ensure ((ucast num_sets :: u64) = push_bit (nat (floorLog2 num_sets)) 1 \<or> hash \<noteq> HASH_MASK);
     Some \<lparr>cb_cache_size = ucast num_sets * ucast associativity * ucast cache_block_size,
       cb_associativity = associativity, cb_blocksize = cache_block_size, cb_hash = hash,
       cb_num_sets = num_sets, cb_ahl = ahl,
       cb_log_blocksize = nat (floorLog2 cache_block_size),
       cb_log_num_sets = nat (floorLog2 num_sets)\<rparr>
   }"

definition parseAddressHash :: "string \<Rightarrow> hash_t option" where
  "parseAddressHash s =
     (if s = ''mask'' then Some HASH_MASK
      else if s = ''mod'' then Some HASH_MOD
      else if s = ''rng1_mod'' then Some HASH_RNG1_MOD
      else if s = ''rng2_mod'' then Some HASH_RNG2_MOD
      else if s = ''prime_dis'' then Some HASH_PRIME_DIS
      else if s = ''xor_mod'' then Some HASH_XOR_MOD
      else if s = ''mersenne_mod'' then Some HASH_MER_MOD
      else None)"

definition set_index_of :: "CacheBase \<Rightarrow> u64 \<Rightarrow> u32 option" where
  "set_index_of cb block_num =
     (let n = cb_num_sets cb; n64 = (ucast n :: u64) in
      case cb_hash cb of
        HASH_MASK \<Rightarrow> Some (ucast (block_num AND ucast (n - 1)))
      | HASH_MOD \<Rightarrow> do { ensure (n \<noteq> 0); Some (ucast (block_num mod n64)) }
      | HASH_RNG1_MOD \<Rightarrow> do {
          ensure (n \<noteq> 0);
          let (r, state) = rng_next (rng_seed block_num);
          Some (ucast (r mod n64)) }
      | HASH_RNG2_MOD \<Rightarrow> do {
          ensure (n \<noteq> 0);
          let (r1, state1) = rng_next (rng_seed block_num);
          let (r, state) = rng_next state1;
          Some (ucast (r mod n64)) }
      | HASH_PRIME_DIS \<Rightarrow> do {
          ensure (n \<noteq> 0);
          let si = block_num mod n64;
          let Ti = drop_bit (cb_log_num_sets cb) block_num;
          Some (ucast ((3 * Ti + si) mod n64)) }
      | HASH_XOR_MOD \<Rightarrow> do {
          ensure (n \<noteq> 0);
          let si = block_num mod n64;
          let ti = drop_bit (cb_log_num_sets cb) block_num mod n64;
          Some (ucast (si XOR ti)) }
      | HASH_MER_MOD \<Rightarrow> do {
          ensure (n - 1 \<noteq> 0);
          Some (ucast (block_num mod (ucast (n - 1)))) }
      | INVALID_HASH_TYPE \<Rightarrow> None)"

definition splitAddress :: "CacheBase \<Rightarrow> IntPtr \<Rightarrow> (IntPtr \<times> u32) option" where
  "splitAddress cb addr = do {
     let tag = drop_bit (cb_log_blocksize cb) addr;
     linearAddress \<leftarrow> (case cb_ahl cb of None \<Rightarrow> Some addr | Some a \<Rightarrow> getLinearAddress a addr);
     set_index \<leftarrow> set_index_of cb (drop_bit (cb_log_blocksize cb) linearAddress);
     Some (tag, set_index)
   }"

definition splitAddress_offset :: "CacheBase \<Rightarrow> IntPtr \<Rightarrow> (IntPtr \<times> u32 \<times> u32) option" where
  "splitAddress_offset cb addr = do {
     let block_offset = ucast (addr AND ucast (cb_blocksize cb - 1));
     (tag, set_index) \<leftarrow> splitAddress cb addr;
     Some (tag, set_index, block_offset)
   }"

definition tagToAddress :: "CacheBase \<Rightarrow> IntPtr \<Rightarrow> IntPtr" where
  "tagToAddress cb tag = push_bit (cb_log_blocksize cb) tag"

section \<open>Home nodes and linear addresses\<close>

lemma unat_low_bits: "p < 64 \<Longrightarrow> unat (x AND (push_bit p 1 - 1) :: u64) = unat x mod 2 ^ p"
  using unat_and_mask [of x p] by (simp add: mask_eq_exp_minus_1 push_bit_eq_mult)

lemma unat_push_or:
  fixes b x :: u64
  assumes "p < 64" and "unat b * 2 ^ p < 2 ^ 64"
  shows "unat (push_bit p b OR (x AND (push_bit p 1 - 1))) = unat b * 2 ^ p + unat x mod 2 ^ p"
proof -
  let ?m = "x AND (push_bit p 1 - 1)"
  have m: "?m = take_bit p x"
    by (simp add: take_bit_eq_mask mask_eq_exp_minus_1 push_bit_eq_mult)
  have "push_bit p b AND ?m = 0"
    unfolding m by (rule bit_word_eqI) (auto simp: bit_simps)
  then have "push_bit p b OR ?m = push_bit p b + ?m"
    by (simp add: disjunctive_add bit_eq_iff bit_simps)
  moreover have "unat (push_bit p b) = unat b * 2 ^ p"
    using assms by (simp add: push_bit_eq_mult unat_word_ariths unat_exp mult.commute)
  moreover have "unat ?m = unat x mod 2 ^ p"
    by (rule unat_low_bits) (rule assms(1))
  moreover have "unat b * 2 ^ p + unat x mod 2 ^ p < 2 ^ 64"
  proof -
    have "(unat b + 1) * 2 ^ p \<le> 2 ^ 64"
    proof -
      have "unat b * 2 ^ p < 2 ^ (64 - p) * 2 ^ p"
        using assms by (simp flip: power_add)
      then have "unat b + 1 \<le> 2 ^ (64 - p)" by simp
      then have "(unat b + 1) * 2 ^ p \<le> 2 ^ (64 - p) * 2 ^ p" by (rule mult_le_mono1)
      then show ?thesis using assms(1) by (simp flip: power_add)
    qed
    moreover have "unat x mod 2 ^ p < 2 ^ p" by simp
    ultimately show ?thesis unfolding distrib_right by linarith
  qed
  ultimately show ?thesis by (simp add: unat_word_ariths)
qed

lemma getLinearAddress_unat:
  assumes "AddressHomeLookup_new p cl bs = Some a" and "getLinearAddress a x = Some l"
  shows "unat l = (unat x div 2 ^ p div unat (ahl_total_modules a)) * 2 ^ p + unat x mod 2 ^ p"
proof -
  let ?t = "ahl_total_modules a"
  let ?b = "drop_bit p x div ucast ?t :: u64"
  have a: "p < 64" "ahl_param a = p" "ahl_mask a = push_bit p 1 - 1"
    using assms(1) by (auto simp: AddressHomeLookup_new_def)
  have l: "l = push_bit p ?b OR (x AND (push_bit p 1 - 1))"
    using assms(2) a by (auto simp: getLinearAddress_def getLinearBlock_def abort_simps)
  have b: "unat ?b = unat x div 2 ^ p div unat ?t"
    by (simp add: unat_div unat_drop_bit)
  have "unat ?b * 2 ^ p \<le> unat x"
    unfolding b by (meson div_le_dividend le_trans div_times_less_eq_dividend mult_le_mono1)
  also have "unat x < 2 ^ 64"
    using unat_lt2p [of x] by simp
  finally show ?thesis
    using unat_push_or [OF a(1), of ?b x] b l by simp
qed

lemma ahl_module_unat:
  assumes "ahl_module a x = Some m"
  shows "nat m = unat x div 2 ^ ahl_param a mod unat (ahl_total_modules a)"
proof -
  let ?t = "ahl_total_modules a"
  let ?r = "drop_bit (ahl_param a) x mod ucast ?t :: u64"
  have t0: "?t \<noteq> 0" and m: "m = sint (ucast ?r :: u32)" and m0: "0 \<le> m"
    using assms by (auto simp: ahl_module_def Let_def)
  have r: "unat ?r = unat x div 2 ^ ahl_param a mod unat ?t"
    by (simp add: unat_mod unat_drop_bit)
  also have "\<dots> < unat ?t"
    using t0 by (simp add: unat_gt_0)
  also have "\<dots> < 2 ^ 32"
    using unat_lt2p [of ?t] by simp
  finally have "unat (ucast ?r :: u32) = unat ?r"
    by (rule unat_ucast_64_32)
  moreover have "unat (ucast ?r :: u32) = nat m"
    using m m0 by (simp add: nat_sint)
  ultimately show ?thesis using r by simp
qed



section \<open>Set indices\<close>

lemma ucast_mod_range:
  fixes b :: u64 and n :: u32
  assumes "n \<noteq> 0"
  shows "(ucast (b mod ucast n) :: u32) < n"
proof -
  have "unat (b mod ucast n) < unat n"
    using assms by (simp add: unat_mod unat_gt_0)
  then show ?thesis
    using unat_ucast_64_32 [of "b mod ucast n"] unat_lt2p [of n] by (simp add: word_less_nat_alt)
qed

lemma xor_less_exp:
  fixes a b :: nat
  assumes "a < 2 ^ k" and "b < 2 ^ k"
  shows "a XOR b < 2 ^ k"
proof -
  have "take_bit k (a XOR b) = a XOR b"
    using assms by (simp add: take_bit_xor take_bit_nat_eq_self)
  then show ?thesis
    by (simp only: take_bit_nat_eq_self_iff)
qed

lemma xor_mod_range:
  fixes a b :: u64 and n :: u32
  assumes "isPower2 n" and "n \<noteq> 0"
  shows "(ucast ((a mod ucast n) XOR (b mod ucast n)) :: u32) < n"
proof -
  let ?x = "(a mod ucast n) XOR (b mod ucast n)"
  obtain k where k: "unat n = 2 ^ k"
    using assms by (auto simp: isPower2_iff)
  have "unat ?x < 2 ^ k"
    unfolding unsigned_xor_eq by (rule xor_less_exp) (simp_all add: unat_mod k)
  then have "unat ?x < unat n"
    by (simp add: k)
  then show ?thesis
    using unat_ucast_64_32 [of ?x] unat_lt2p [of n] by (simp add: word_less_nat_alt)
qed

lemma mask_range:
  fixes b :: u64 and n :: u32
  assumes "n \<noteq> 0"
  shows "(ucast (b AND ucast (n - 1)) :: u32) < n"
proof -
  have "b AND ucast (n - 1) \<le> ucast (n - 1)"
    by (rule word_and_le1)
  then have "unat (b AND ucast (n - 1)) \<le> unat (n - 1)"
    by (simp add: word_le_nat_alt)
  also have "unat (n - 1) < unat n"
    using assms by (simp add: unat_minus_one unat_gt_0)
  finally show ?thesis
    using unat_ucast_64_32 [of "b AND ucast (n - 1)"] unat_lt2p [of n]
    by (simp add: word_less_nat_alt)
qed

lemma set_index_range:
  assumes "cb_num_sets cb \<noteq> 0"
    and "cb_hash cb = HASH_XOR_MOD \<Longrightarrow> isPower2 (cb_num_sets cb)"
    and "set_index_of cb b = Some i"
  shows "i < cb_num_sets cb"
proof (cases "cb_hash cb")
  case HASH_MER_MOD
  let ?n = "cb_num_sets cb"
  have ne: "?n - 1 \<noteq> 0" and i: "i = ucast (b mod (ucast (?n - 1)))"
    using assms(3) HASH_MER_MOD by (auto simp: set_index_of_def Let_def)
  have "i < ?n - 1"
    unfolding i by (rule ucast_mod_range [OF ne])
  also have "?n - 1 \<le> ?n"
    using assms(1) by (simp add: word_le_nat_alt unat_minus_one)
  finally show ?thesis .
qed (use assms in \<open>auto simp: set_index_of_def Let_def ucast_mod_range xor_mod_range mask_range
      split: prod.splits\<close>)



text \<open>The restriction on \<^verbatim>\<open>xor_mod\<close> is necessary: the constructor accepts a cache with three sets and
  that hash function, and block number 4 is then mapped to set 3, which does not exist.\<close>

theorem xor_mod_out_of_range:
  "\<exists>cb. CacheBase_new 3 4 64 HASH_XOR_MOD None = Some cb \<and> splitAddress cb 0x100 = Some (4, 3)
     \<and> \<not> (3 :: u32) < cb_num_sets cb"
proof -
  have logs: "floorLog2 64 = 6" "floorLog2 3 = 1"
    using floorLog2_power [of 6] by (simp, simp add: floorLog2_def log2_step_def)
  show ?thesis
    by (simp add: CacheBase_new_def logs splitAddress_def set_index_of_def)
qed

section \<open>Tags\<close>

lemma tag_cleared_offset:
  "push_bit n (drop_bit n (a :: u64)) = a AND NOT (mask n)"
  by (auto intro!: bit_word_eqI simp: bit_simps)

lemma tag_same_block:
  "drop_bit n (a :: u64) = drop_bit n b \<longleftrightarrow> unat a div 2 ^ n = unat b div 2 ^ n"
  by (simp only: word_unat_eq_iff unat_drop_bit)



end
