(* ===== verification/CacheBlock.thy ===== *)
theory CacheBlock
  imports CacheBase
begin

text \<open>
  Cache lines: \<^verbatim>\<open>cache/cache_block_info.cc\<close> and its subclasses \<^verbatim>\<open>pr_l1_cache_block_info.h\<close>,
  \<^verbatim>\<open>pr_l2_cache_block_info.cc\<close> and \<^verbatim>\<open>shared_cache_block_info.cc\<close>. The subclass of a line is the
  constructor of its extension field; a virtual method is a case analysis on it. The sharing-tracking
  code under \<^verbatim>\<open>ENABLE_TRACK_SHARING_PREVCACHES\<close> is compiled out and is not part of the model.
\<close>

section \<open>Memory components\<close>

type_synonym component_t = nat

abbreviation (input) INVALID_MEM_COMPONENT :: component_t where "INVALID_MEM_COMPONENT \<equiv> 0"
abbreviation (input) CORE :: component_t where "CORE \<equiv> 1"
abbreviation (input) FIRST_LEVEL_CACHE :: component_t where "FIRST_LEVEL_CACHE \<equiv> 2"
abbreviation (input) L1_ICACHE :: component_t where "L1_ICACHE \<equiv> 2"
abbreviation (input) L1_DCACHE :: component_t where "L1_DCACHE \<equiv> 3"
abbreviation (input) L2_CACHE :: component_t where "L2_CACHE \<equiv> 4"
abbreviation (input) L3_CACHE :: component_t where "L3_CACHE \<equiv> 5"
abbreviation (input) L4_CACHE :: component_t where "L4_CACHE \<equiv> 6"
abbreviation (input) LAST_LEVEL_CACHE :: component_t where "LAST_LEVEL_CACHE \<equiv> 20"
abbreviation (input) TAG_DIR :: component_t where "TAG_DIR \<equiv> 21"
abbreviation (input) NUCA_CACHE :: component_t where "NUCA_CACHE \<equiv> 22"
abbreviation (input) DRAM_CACHE :: component_t where "DRAM_CACHE \<equiv> 23"
abbreviation (input) DRAM :: component_t where "DRAM \<equiv> 24"

definition MemComponentString :: "component_t \<Rightarrow> string" where
  "MemComponentString c =
     (if c = CORE then ''core''
      else if c = L1_ICACHE then ''l1i''
      else if c = L1_DCACHE then ''l1d''
      else if c = L2_CACHE then ''l2''
      else if c = L3_CACHE then ''l3''
      else if c = L4_CACHE then ''l4''
      else if c = TAG_DIR then ''directory''
      else if c = NUCA_CACHE then ''nuca-cache''
      else if c = DRAM_CACHE then ''dram-cache''
      else if c = DRAM then ''dram''
      else ''????'')"

section \<open>Lines\<close>

datatype option_t = PREFETCH | WARMUP

fun option_bit :: "option_t \<Rightarrow> nat" where
  "option_bit PREFETCH = 0"
| "option_bit WARMUP = 1"

text \<open>
  The fields of the subclasses. \<open>BaseBlock\<close> is an object of the base class itself. The
  constructor of \<^verbatim>\<open>SharedCacheBlockInfo\<close> leaves its field \<^verbatim>\<open>c\<close> uninitialised, which is \<open>None\<close>.
\<close>

datatype block_ext =
    BaseBlock
  | PrL1Block bool
  | PrL2Block u32 bool
  | SharedBlock int int int int "int option"

record CacheBlockInfo =
  bi_tag :: IntPtr
  bi_cstate :: cstate
  bi_owner :: u64
  bi_used :: u8
  bi_options :: u8
  bi_ext :: block_ext

definition CacheBlockInfo_new :: "IntPtr \<Rightarrow> cstate \<Rightarrow> u64 \<Rightarrow> block_ext \<Rightarrow> CacheBlockInfo" where
  "CacheBlockInfo_new tag cs options ext = \<lparr>bi_tag = tag, bi_cstate = cs, bi_owner = 0, bi_used = 0,
     bi_options = ucast options, bi_ext = ext\<rparr>"

fun create_ext :: "cache_t \<Rightarrow> block_ext" where
  "create_ext PR_L1_CACHE = PrL1Block False"
| "create_ext PR_L2_CACHE = PrL2Block 0 False"
| "create_ext SHARED_CACHE = SharedBlock 0 0 0 0 None"

definition CacheBlockInfo_create :: "cache_t \<Rightarrow> CacheBlockInfo" where
  "CacheBlockInfo_create t = CacheBlockInfo_new (- 1) INVALID 0 (create_ext t)"

definition isValid :: "CacheBlockInfo \<Rightarrow> bool" where
  "isValid b \<longleftrightarrow> bi_tag b \<noteq> - 1"

definition bi_invalidate :: "CacheBlockInfo \<Rightarrow> CacheBlockInfo" where
  "bi_invalidate b =
     (let b' = (case bi_ext b of PrL2Block loc d \<Rightarrow> b\<lparr>bi_ext := PrL2Block 0 d\<rparr> | _ \<Rightarrow> b)
      in b'\<lparr>bi_tag := - 1, bi_cstate := INVALID\<rparr>)"

text \<open>
  \<open>clone dst src\<close> is \<^verbatim>\<open>dst->clone(src)\<close>. A level-2 line also copies the location vector, which
  it reads from the source through a cast.
\<close>

definition bi_clone :: "CacheBlockInfo \<Rightarrow> CacheBlockInfo \<Rightarrow> CacheBlockInfo" where
  "bi_clone dst src =
     dst\<lparr>bi_tag := bi_tag src, bi_cstate := bi_cstate src, bi_owner := bi_owner src,
       bi_used := bi_used src, bi_options := bi_options src,
       bi_ext := (case (bi_ext dst, bi_ext src) of
           (PrL2Block _ d, PrL2Block loc _) \<Rightarrow> PrL2Block loc d
         | (e, _) \<Rightarrow> e)\<rparr>"

definition hasOption :: "option_t \<Rightarrow> CacheBlockInfo \<Rightarrow> bool" where
  "hasOption opt b \<longleftrightarrow> bi_options b AND push_bit (option_bit opt) 1 \<noteq> 0"

definition setOption :: "option_t \<Rightarrow> CacheBlockInfo \<Rightarrow> CacheBlockInfo" where
  "setOption opt b = b\<lparr>bi_options := bi_options b OR push_bit (option_bit opt) 1\<rparr>"

definition clearOption :: "option_t \<Rightarrow> CacheBlockInfo \<Rightarrow> CacheBlockInfo" where
  "clearOption opt b = b\<lparr>bi_options := bi_options b AND NOT (push_bit (option_bit opt) 1)\<rparr>"

definition updateUsage_mask :: "u8 \<Rightarrow> CacheBlockInfo \<Rightarrow> bool \<times> CacheBlockInfo" where
  "updateUsage_mask used b =
     (used AND NOT (bi_used b) \<noteq> 0, b\<lparr>bi_used := bi_used b OR used\<rparr>)"

text \<open>The shift distances are offsets in units of 8 bytes; shifting a 64-bit value by 64 or more is
  undefined and an abort here.\<close>

definition usage_mask :: "u32 \<Rightarrow> u32 \<Rightarrow> u64 option" where
  "usage_mask offset sz = do {
     let first = drop_bit 3 offset;
     let last = drop_bit 3 (offset + sz - 1);
     ensure (unat first < 64 \<and> unat last + 1 < 64);
     let first_mask = push_bit (unat first) 1 - 1;
     let last_mask = push_bit (unat last + 1) 1 - 1;
     Some (last_mask AND NOT first_mask)
   }"

definition updateUsage :: "u32 \<Rightarrow> u32 \<Rightarrow> CacheBlockInfo \<Rightarrow> (bool \<times> CacheBlockInfo) option" where
  "updateUsage offset sz b = do {
     m \<leftarrow> usage_mask offset sz;
     Some (updateUsage_mask (ucast m) b)
   }"

section \<open>Subclass operations\<close>

definition getCachedLoc :: "CacheBlockInfo \<Rightarrow> component_t option" where
  "getCachedLoc b = (case bi_ext b of
       PrL2Block loc d \<Rightarrow>
         (if loc = push_bit L1_ICACHE 1 OR push_bit L1_DCACHE 1 then None
          else if loc = push_bit L1_ICACHE 1 then Some L1_ICACHE
          else if loc = push_bit L1_DCACHE 1 then Some L1_DCACHE
          else if loc = 0 then Some INVALID_MEM_COMPONENT
          else None)
     | _ \<Rightarrow> None)"

definition setCachedLoc :: "component_t \<Rightarrow> CacheBlockInfo \<Rightarrow> CacheBlockInfo option" where
  "setCachedLoc cached_loc b = (case bi_ext b of
       PrL2Block loc d \<Rightarrow> do {
         ensure (cached_loc \<noteq> INVALID_MEM_COMPONENT);
         ensure (loc AND push_bit cached_loc 1 = 0);
         Some (b\<lparr>bi_ext := PrL2Block (loc OR push_bit cached_loc 1) d\<rparr>) }
     | _ \<Rightarrow> None)"

definition clearCachedLoc :: "component_t \<Rightarrow> CacheBlockInfo \<Rightarrow> CacheBlockInfo option" where
  "clearCachedLoc cached_loc b = (case bi_ext b of
       PrL2Block loc d \<Rightarrow> do {
         ensure (cached_loc \<noteq> INVALID_MEM_COMPONENT);
         ensure (loc AND push_bit cached_loc 1 \<noteq> 0);
         Some (b\<lparr>bi_ext := PrL2Block (loc AND NOT (push_bit cached_loc 1)) d\<rparr>) }
     | _ \<Rightarrow> None)"

definition getDead :: "CacheBlockInfo \<Rightarrow> int" where
  "getDead b = (case bi_ext b of
       PrL1Block d \<Rightarrow> of_bool d
     | PrL2Block loc d \<Rightarrow> of_bool d
     | SharedBlock d conf cMaxPresent cMaxPast c \<Rightarrow> d
     | BaseBlock \<Rightarrow> 0)"

text \<open>
  \<^verbatim>\<open>CacheSet::insert\<close> and \<^verbatim>\<open>Cache::setPrDeadBit\<close> call \<^verbatim>\<open>setDead\<close> through casts. On an object of the base
  class the write lands behind the object and changes no field of it.
\<close>

definition setDead :: "int \<Rightarrow> CacheBlockInfo \<Rightarrow> CacheBlockInfo" where
  "setDead v b = b\<lparr>bi_ext := (case bi_ext b of
       PrL1Block d \<Rightarrow> PrL1Block (v \<noteq> 0)
     | SharedBlock d conf cMaxPresent cMaxPast c \<Rightarrow> SharedBlock v conf cMaxPresent cMaxPast c
     | e \<Rightarrow> e)\<rparr>"

definition incC :: "CacheBlockInfo \<Rightarrow> CacheBlockInfo" where
  "incC b = b\<lparr>bi_ext := (case bi_ext b of
       SharedBlock d conf mx past c \<Rightarrow> SharedBlock d conf mx past (map_option (\<lambda>n. n + 1) c)
     | e \<Rightarrow> e)\<rparr>"

definition zeroC :: "CacheBlockInfo \<Rightarrow> CacheBlockInfo" where
  "zeroC b = b\<lparr>bi_ext := (case bi_ext b of
       SharedBlock d conf mx past c \<Rightarrow> SharedBlock d conf mx past (Some 0) | e \<Rightarrow> e)\<rparr>"

definition setCMaxPresent :: "CacheBlockInfo \<Rightarrow> CacheBlockInfo option" where
  "setCMaxPresent b = (case bi_ext b of
       SharedBlock d conf mx past c \<Rightarrow> do {
         n \<leftarrow> c;
         Some (b\<lparr>bi_ext := SharedBlock d conf (if mx > n then mx else n) past c\<rparr>) }
     | _ \<Rightarrow> None)"

text \<open>\<open>cloneAIP dst src\<close> copies the predictor fields of a shared line.\<close>

definition cloneAIP :: "CacheBlockInfo \<Rightarrow> CacheBlockInfo \<Rightarrow> CacheBlockInfo" where
  "cloneAIP dst src = dst\<lparr>bi_ext := (case (bi_ext dst, bi_ext src) of
       (SharedBlock _ _ _ _ _, SharedBlock d conf mx past c) \<Rightarrow> SharedBlock d conf mx past c
     | (e, _) \<Rightarrow> e)\<rparr>"

section \<open>Field lemmas\<close>

named_theorems block_simps \<open>effect of the line operations on the fields\<close>

lemma invalidate_fields [block_simps, simp]:
  "bi_tag (bi_invalidate b) = - 1" "bi_cstate (bi_invalidate b) = INVALID"
  "bi_owner (bi_invalidate b) = bi_owner b" "bi_used (bi_invalidate b) = bi_used b"
  "bi_options (bi_invalidate b) = bi_options b"
  by (simp_all add: bi_invalidate_def Let_def split: block_ext.split)

lemma clone_fields [block_simps, simp]:
  "bi_tag (bi_clone dst src) = bi_tag src" "bi_cstate (bi_clone dst src) = bi_cstate src"
  "bi_owner (bi_clone dst src) = bi_owner src" "bi_used (bi_clone dst src) = bi_used src"
  "bi_options (bi_clone dst src) = bi_options src"
  by (simp_all add: bi_clone_def)

lemma setDead_fields [block_simps, simp]:
  "bi_tag (setDead v b) = bi_tag b" "bi_cstate (setDead v b) = bi_cstate b"
  "bi_owner (setDead v b) = bi_owner b" "bi_used (setDead v b) = bi_used b"
  "bi_options (setDead v b) = bi_options b"
  by (simp_all add: setDead_def)

lemma incC_fields [block_simps, simp]:
  "bi_tag (incC b) = bi_tag b" "bi_cstate (incC b) = bi_cstate b" "getDead (incC b) = getDead b"
  by (simp_all add: incC_def getDead_def split: block_ext.split)

lemma cloneAIP_fields [block_simps, simp]:
  "bi_tag (cloneAIP dst src) = bi_tag dst" "bi_cstate (cloneAIP dst src) = bi_cstate dst"
  by (simp_all add: cloneAIP_def)

lemma create_fields [block_simps, simp]:
  "bi_tag (CacheBlockInfo_create t) = - 1" "bi_cstate (CacheBlockInfo_create t) = INVALID"
  "bi_options (CacheBlockInfo_create t) = 0" "bi_used (CacheBlockInfo_create t) = 0"
  by (simp_all add: CacheBlockInfo_create_def CacheBlockInfo_new_def)

lemma isValid_invalidate [simp]: "\<not> isValid (bi_invalidate b)"
  by (simp add: isValid_def)

lemma isValid_create [simp]: "\<not> isValid (CacheBlockInfo_create t)"
  by (simp add: isValid_def)

text \<open>Options behave as a set of flags.\<close>

lemma hasOption_bit: "hasOption opt b \<longleftrightarrow> bit (bi_options b) (option_bit opt)"
  by (simp add: hasOption_def bit_iff_and_push_bit_not_eq_0)

lemma hasOption_set: "hasOption o1 (setOption o2 b) \<longleftrightarrow> o1 = o2 \<or> hasOption o1 b"
  by (cases o1; cases o2) (auto simp: hasOption_bit setOption_def bit_simps)

lemma hasOption_clear: "hasOption o1 (clearOption o2 b) \<longleftrightarrow> o1 \<noteq> o2 \<and> hasOption o1 b"
  by (cases o1; cases o2) (auto simp: hasOption_bit clearOption_def bit_simps)

lemma setCachedLoc_clear:
  assumes "setCachedLoc l b = Some b'" and "l < 32"
  shows "clearCachedLoc l b' = Some b"
proof -
  obtain loc d where e: "bi_ext b = PrL2Block loc d"
    using assms by (auto simp: setCachedLoc_def split: block_ext.splits)
  have z: "loc AND push_bit l 1 = 0" and b': "b' = b\<lparr>bi_ext := PrL2Block (loc OR push_bit l 1) d\<rparr>"
    and l: "l \<noteq> INVALID_MEM_COMPONENT"
    using assms by (auto simp: setCachedLoc_def e)
  have off: "\<not> bit loc l"
    using z by (simp add: bit_iff_and_push_bit_not_eq_0)
  have "(loc OR push_bit l 1) AND NOT (push_bit l 1) = loc"
  proof (rule bit_word_eqI)
    fix n
    assume "n < LENGTH(32)"
    then show "bit ((loc OR push_bit l 1) AND NOT (push_bit l 1)) n = bit loc n"
      using off by (cases "n = l") (auto simp: bit_simps)
  qed
  moreover have "bit (loc OR push_bit l 1) l"
    using assms(2) by (simp add: bit_simps)
  then have "(loc OR push_bit l 1) AND push_bit l 1 \<noteq> 0"
    by (rule iffD1 [OF bit_iff_and_push_bit_not_eq_0])
  ultimately show ?thesis
    using l by (simp add: b' clearCachedLoc_def e)
qed

section \<open>Usage bits\<close>

lemma bit_low_mask: "bit (push_bit n 1 - 1 :: u64) k \<longleftrightarrow> k < n \<and> k < 64"
  using bit_mask_iff [of n k, where 'a = u64] by (auto simp: mask_eq_exp_minus_1 push_bit_eq_mult)

lemma usage_mask_bit:
  assumes "usage_mask offset sz = Some m"
  shows "bit m k \<longleftrightarrow> unat offset div 8 \<le> k \<and> k \<le> unat (offset + sz - 1) div 8"
proof -
  let ?f = "unat (drop_bit 3 offset)" and ?l = "unat (drop_bit 3 (offset + sz - 1))"
  have m: "m = (push_bit (?l + 1) 1 - 1) AND NOT (push_bit ?f 1 - 1)" and l: "?l + 1 < 64"
    using assms by (auto simp: usage_mask_def Let_def)
  have "bit m k \<longleftrightarrow> ?f \<le> k \<and> k \<le> ?l"
    unfolding m bit_and_iff bit_not_iff bit_low_mask using l by auto
  then show ?thesis
    by (simp only: unat_drop_bit) simp
qed

text \<open>\<^verbatim>\<open>updateUsage\<close> records exactly the 8-byte words an access touches: after an access of \<open>sz > 0\<close> bytes
  inside a 64-byte line, the usage bit of a word is set when it was set before or some accessed byte
  lies in that word, and the result tells whether a bit was newly set.\<close>

theorem updateUsage_marks_touched_words:
  assumes "0 < unat sz" and "unat offset + unat sz \<le> 64"
  shows "\<exists>fresh b'. updateUsage offset sz b = Some (fresh, b') \<and>
    (\<forall>k. bit (bi_used b') k \<longleftrightarrow> bit (bi_used b) k \<or>
      (\<exists>j. unat offset \<le> j \<and> j < unat offset + unat sz \<and> j div 8 = k)) \<and>
    (fresh \<longleftrightarrow> bi_used b' \<noteq> bi_used b)"
proof -
  have o: "unat (offset + sz) = unat offset + unat sz"
    using assms(2) by (simp add: unat_word_ariths)
  have "offset + sz \<noteq> 0"
    using o assms(1) by (metis add_is_0 less_numeral_extra(3) unat_0)
  then have last: "unat (offset + sz - 1) = unat offset + unat sz - 1"
    by (simp add: unat_minus_one o)
  have "unat (drop_bit 3 offset) < 64" "unat (drop_bit 3 (offset + sz - 1)) + 1 < 64"
    using assms by (simp_all only: unat_drop_bit last) simp_all
  then obtain m where m: "usage_mask offset sz = Some m"
    by (simp add: usage_mask_def Let_def)
  have touched: "bit m k \<longleftrightarrow> (\<exists>j. unat offset \<le> j \<and> j < unat offset + unat sz \<and> j div 8 = k)" for k
  proof
    assume "bit m k"
    then have k: "unat offset div 8 \<le> k" "k \<le> (unat offset + unat sz - 1) div 8"
      unfolding usage_mask_bit [OF m] last by simp_all
    let ?j = "max (unat offset) (8 * k)"
    have "?j < unat offset + unat sz" "?j div 8 = k"
      using k assms(1) by (auto simp: max_def)
    then show "\<exists>j. unat offset \<le> j \<and> j < unat offset + unat sz \<and> j div 8 = k"
      by (intro exI [of _ ?j]) simp
  next
    assume "\<exists>j. unat offset \<le> j \<and> j < unat offset + unat sz \<and> j div 8 = k"
    then obtain j where "unat offset \<le> j" "j \<le> unat offset + unat sz - 1" "j div 8 = k"
      by auto
    then show "bit m k"
      unfolding usage_mask_bit [OF m] last using div_le_mono by blast
  qed
  have small: "k < 8" if "bit m k" for k
    using that assms unfolding usage_mask_bit [OF m] last by auto
  let ?u = "ucast m :: u8"
  have u: "bit ?u k \<longleftrightarrow> bit m k" for k
    using small [of k] by (auto simp: bit_simps)
  have "?u AND NOT (bi_used b) \<noteq> 0 \<longleftrightarrow> bi_used b OR ?u \<noteq> bi_used b"
    by (auto simp: bit_eq_iff bit_simps)
  then show ?thesis
    using m u touched
    by (auto simp: updateUsage_def updateUsage_mask_def bit_or_iff)
qed

theorem updateUsage_marks_touched_words_witness:
  "\<exists>fresh b'. updateUsage 12 8 (CacheBlockInfo_create PR_L1_CACHE) = Some (fresh, b') \<and>
    (\<forall>k. bit (bi_used b') k \<longleftrightarrow> bit (bi_used (CacheBlockInfo_create PR_L1_CACHE)) k \<or>
      (\<exists>j. unat (12 :: u32) \<le> j \<and> j < unat (12 :: u32) + unat (8 :: u32) \<and> j div 8 = k)) \<and>
    (fresh \<longleftrightarrow> bi_used b' \<noteq> bi_used (CacheBlockInfo_create PR_L1_CACHE))"
  by (rule updateUsage_marks_touched_words) simp_all

end
