(* ===== verification/LruBits.thy ===== *)
theory LruBits
  imports CacheBlock
begin

text \<open>
  The age counters of \<^verbatim>\<open>cache/cache_set_lru.cc\<close>, which \<^verbatim>\<open>cache_set_mru.cc\<close> and \<^verbatim>\<open>cache_set_nmru.cc\<close>
  share, and their refinement to a recency order: the counters of a set are a permutation of
  \<open>0, \<dots>, n - 1\<close>, and touching a way moves it to the front of the order.
\<close>

section \<open>Definitions\<close>

definition lru_init :: "nat \<Rightarrow> u8 list" where
  "lru_init n = map of_nat [0..<n]"

definition moveToMRU :: "nat \<Rightarrow> u8 list \<Rightarrow> u8 list" where
  "moveToMRU accessed_index bits =
     (fold (\<lambda>i b. if b ! i < b ! accessed_index then b[i := b ! i + 1] else b)
        [0..<length bits] bits)[accessed_index := 0]"

definition moveToLRU :: "nat \<Rightarrow> u8 list \<Rightarrow> u8 list" where
  "moveToLRU accessed_index bits =
     (fold (\<lambda>i b. if b ! i > b ! accessed_index then b[i := b ! i - 1] else b)
        [0..<length bits] bits)[accessed_index := of_nat (length bits - 1)]"

text \<open>The abstract view: the ways of a set from the most to the least recently used.\<close>

definition recency :: "u8 list \<Rightarrow> nat list" where
  "recency bits = sort_key (\<lambda>i. bits ! i) [0..<length bits]"

definition lru_wf :: "u8 list \<Rightarrow> bool" where
  "lru_wf bits \<longleftrightarrow> length bits \<le> 256 \<and> distinct bits \<and> list_all (\<lambda>b. unat b < length bits) bits"

section \<open>The update loops\<close>

lemma fold_update_all:
  assumes keep: "\<not> P (b0 ! a) (b0 ! a)" and a: "a < length b0"
  shows "k \<le> length b0 \<Longrightarrow>
    fold (\<lambda>i b. if P (b ! i) (b ! a) then b[i := g (b ! i)] else b) [0..<k] b0
      = map (\<lambda>i. if i < k \<and> P (b0 ! i) (b0 ! a) then g (b0 ! i) else b0 ! i) [0..<length b0]"
proof (induction k)
  case 0
  show ?case by (simp add: map_nth)
next
  case (Suc k)
  let ?b = "map (\<lambda>i. if i < k \<and> P (b0 ! i) (b0 ! a) then g (b0 ! i) else b0 ! i) [0..<length b0]"
  have k: "k < length b0" using Suc.prems by simp
  have "?b ! k = b0 ! k" "?b ! a = b0 ! a"
    using k a keep by simp_all
  then show ?case
    using Suc.IH k by (auto intro!: nth_equalityI simp: nth_list_update less_Suc_eq)
qed

lemma moveToMRU_map:
  assumes "a < length bits"
  shows "moveToMRU a bits = (map (\<lambda>b. if b < bits ! a then b + 1 else b) bits)[a := 0]"
proof -
  have "moveToMRU a bits =
      (map (\<lambda>i. if i < length bits \<and> bits ! i < bits ! a then bits ! i + 1 else bits ! i)
        [0..<length bits])[a := 0]"
    unfolding moveToMRU_def
    using fold_update_all [of "(<)" bits a "length bits" "\<lambda>b. b + 1"] assms by simp
  also have "\<dots> = (map (\<lambda>b. if b < bits ! a then b + 1 else b) bits)[a := 0]"
    using assms by (auto intro!: nth_equalityI simp: nth_list_update)
  finally show ?thesis .
qed

lemma moveToLRU_map:
  assumes "a < length bits"
  shows "moveToLRU a bits =
    (map (\<lambda>b. if b > bits ! a then b - 1 else b) bits)[a := of_nat (length bits - 1)]"
proof -
  have "moveToLRU a bits =
      (map (\<lambda>i. if i < length bits \<and> bits ! i > bits ! a then bits ! i - 1 else bits ! i)
        [0..<length bits])[a := of_nat (length bits - 1)]"
    unfolding moveToLRU_def
    using fold_update_all [of "\<lambda>x y. x > y" bits a "length bits" "\<lambda>b. b - 1"] assms by simp
  also have "\<dots> = (map (\<lambda>b. if b > bits ! a then b - 1 else b) bits)[a := of_nat (length bits - 1)]"
    using assms by (auto intro!: nth_equalityI simp: nth_list_update)
  finally show ?thesis .
qed

lemma length_moveToMRU [simp]: "length (moveToMRU a bits) = length bits"
proof -
  have "length (fold (\<lambda>i b. if b ! i < b ! a then b[i := b ! i + 1] else b) is b0) = length b0"
    for "is" and b0 :: "u8 list"
    by (induction "is" arbitrary: b0) auto
  then show ?thesis by (simp add: moveToMRU_def)
qed

lemma length_moveToLRU [simp]: "length (moveToLRU a bits) = length bits"
proof -
  have "length (fold (\<lambda>i b. if b ! i > b ! a then b[i := b ! i - 1] else b) is b0) = length b0"
    for "is" and b0 :: "u8 list"
    by (induction "is" arbitrary: b0) auto
  then show ?thesis by (simp add: moveToLRU_def)
qed

section \<open>Ages\<close>

lemma lru_wf_age: "lru_wf bits \<Longrightarrow> i < length bits \<Longrightarrow> unat (bits ! i) < length bits"
  by (simp add: lru_wf_def list_all_length)

lemma lru_wf_inj:
  "lru_wf bits \<Longrightarrow> i < length bits \<Longrightarrow> j < length bits \<Longrightarrow> unat (bits ! i) = unat (bits ! j) \<longleftrightarrow> i = j"
  by (simp add: lru_wf_def nth_eq_iff_index_eq flip: word_unat_eq_iff)

lemma lru_wfI:
  assumes "length bits \<le> 256" and "\<And>i. i < length bits \<Longrightarrow> unat (bits ! i) < length bits"
    and "\<And>i j. i < length bits \<Longrightarrow> j < length bits \<Longrightarrow> unat (bits ! i) = unat (bits ! j) \<Longrightarrow> i = j"
  shows "lru_wf bits"
proof -
  have "distinct bits"
    unfolding distinct_conv_nth using assms(3) by metis
  then show ?thesis
    using assms(1,2) by (simp add: lru_wf_def list_all_length)
qed

lemma lru_wf_init: "n \<le> 256 \<Longrightarrow> lru_wf (lru_init n)"
  by (rule lru_wfI) (auto simp: lru_init_def unat_of_nat_small)

text \<open>The ages of a well-formed set are all the numbers below its associativity.\<close>

lemma lru_wf_image: "lru_wf bits \<Longrightarrow> (\<lambda>i. unat (bits ! i)) ` {..<length bits} = {..<length bits}"
proof -
  assume wf: "lru_wf bits"
  have "inj_on (\<lambda>i. unat (bits ! i)) {..<length bits}"
    using lru_wf_inj [OF wf] by (auto simp: inj_on_def)
  then have "card ((\<lambda>i. unat (bits ! i)) ` {..<length bits}) = length bits"
    by (simp add: card_image)
  moreover have "(\<lambda>i. unat (bits ! i)) ` {..<length bits} \<subseteq> {..<length bits}"
    using lru_wf_age [OF wf] by auto
  ultimately show ?thesis
    by (metis card_lessThan card_subset_eq finite_lessThan)
qed

lemma lru_wf_obtain:
  assumes "lru_wf bits" and "k < length bits"
  obtains i where "i < length bits" and "unat (bits ! i) = k"
  using lru_wf_image [OF assms(1)] assms(2) by (metis (no_types, lifting) imageE lessThan_iff)

lemma lru_age_card:
  assumes wf: "lru_wf bits" and i: "i < length bits"
  shows "card {j. j < length bits \<and> bits ! j < bits ! i} = unat (bits ! i)"
proof -
  let ?A = "{j. j < length bits \<and> bits ! j < bits ! i}"
  have "bij_betw (\<lambda>j. unat (bits ! j)) ?A {..<unat (bits ! i)}"
  proof (rule bij_betw_imageI)
    show "inj_on (\<lambda>j. unat (bits ! j)) ?A"
      using lru_wf_inj [OF wf] by (auto simp: inj_on_def)
    show "(\<lambda>j. unat (bits ! j)) ` ?A = {..<unat (bits ! i)}"
    proof
      show "(\<lambda>j. unat (bits ! j)) ` ?A \<subseteq> {..<unat (bits ! i)}"
        by (auto simp: word_less_nat_alt)
      show "{..<unat (bits ! i)} \<subseteq> (\<lambda>j. unat (bits ! j)) ` ?A"
      proof
        fix k
        assume "k \<in> {..<unat (bits ! i)}"
        then have k: "k < unat (bits ! i)" by simp
        then have "k < length bits"
          using lru_wf_age [OF wf i] by simp
        from lru_wf_obtain [OF wf this] obtain j where "j < length bits" "unat (bits ! j) = k" .
        with k show "k \<in> (\<lambda>j. unat (bits ! j)) ` ?A"
          by (auto simp: word_less_nat_alt)
      qed
    qed
  qed
  then show ?thesis
    by (simp add: bij_betw_same_card)
qed

lemma unat_moveToMRU:
  assumes "a < length bits" and "i < length bits"
  shows "unat (moveToMRU a bits ! i) =
    (if i = a then 0 else if bits ! i < bits ! a then Suc (unat (bits ! i)) else unat (bits ! i))"
  using assms by (simp add: moveToMRU_map nth_list_update unat_plus_one [of "bits ! i" "bits ! a"])

lemma unat_moveToLRU:
  assumes "lru_wf bits" and "a < length bits" and "i < length bits"
  shows "unat (moveToLRU a bits ! i) =
    (if i = a then length bits - 1
     else if bits ! a < bits ! i then unat (bits ! i) - 1 else unat (bits ! i))"
proof -
  have "length bits - 1 < 2 ^ LENGTH(8)"
    using assms by (auto simp: lru_wf_def)
  then have "unat (of_nat (length bits - 1) :: u8) = length bits - 1"
    by (rule unat_of_nat_small)
  then show ?thesis
    using assms(2,3)
    by (simp add: moveToLRU_map nth_list_update unat_minus_one_pos [of "bits ! a" "bits ! i"])
qed

lemma lru_wf_moveToMRU: "lru_wf bits \<Longrightarrow> a < length bits \<Longrightarrow> lru_wf (moveToMRU a bits)"
proof (rule lru_wfI, goal_cases)
  case 1
  then show ?case by (simp add: lru_wf_def)
next
  case (2 i)
  then show ?case
    using lru_wf_age [of bits i] lru_wf_age [of bits a]
    by (auto simp: unat_moveToMRU word_less_nat_alt)
next
  case (3 i j)
  then have "i < length bits" "j < length bits" by simp_all
  with 3 show ?case
    using lru_wf_inj [of bits i j] lru_wf_inj [of bits i a] lru_wf_inj [of bits j a]
    by (auto simp: unat_moveToMRU word_less_nat_alt split: if_splits)
qed

lemma lru_wf_moveToLRU: "lru_wf bits \<Longrightarrow> a < length bits \<Longrightarrow> lru_wf (moveToLRU a bits)"
proof (rule lru_wfI, goal_cases)
  case 1
  then show ?case by (simp add: lru_wf_def)
next
  case (2 i)
  then show ?case
    using lru_wf_age [of bits i] by (auto simp: unat_moveToLRU)
next
  case (3 i j)
  then have "i < length bits" "j < length bits" by simp_all
  with 3 show ?case
    using lru_wf_inj [of bits i j] lru_wf_inj [of bits i a] lru_wf_inj [of bits j a]
      lru_wf_age [of bits i] lru_wf_age [of bits j]
    by (auto simp: unat_moveToLRU word_less_nat_alt split: if_splits)
qed

text \<open>A touch changes the order of the ages in one way only: the touched way becomes the youngest.\<close>

lemma moveToMRU_order:
  assumes "lru_wf bits" and "a < length bits" and "i < length bits" and "j < length bits"
  shows "moveToMRU a bits ! i < moveToMRU a bits ! j \<longleftrightarrow>
    j \<noteq> a \<and> (i = a \<or> bits ! i < bits ! j)"
  using assms lru_wf_inj [of bits i j] lru_wf_inj [of bits i a] lru_wf_inj [of bits j a]
  by (auto simp: word_less_nat_alt unat_moveToMRU)

lemma moveToLRU_order:
  assumes "lru_wf bits" and "a < length bits" and "i < length bits" and "j < length bits"
  shows "moveToLRU a bits ! i < moveToLRU a bits ! j \<longleftrightarrow>
    i \<noteq> a \<and> (j = a \<or> bits ! i < bits ! j)"
  using assms lru_wf_inj [of bits i j] lru_wf_inj [of bits i a] lru_wf_inj [of bits j a]
    lru_wf_age [of bits i] lru_wf_age [of bits j]
  by (auto simp: word_less_nat_alt unat_moveToLRU)

section \<open>Refinement to the recency order\<close>

lemma set_recency [simp]: "set (recency bits) = {..<length bits}"
  by (auto simp: recency_def)

lemma distinct_recency [simp]: "distinct (recency bits)"
  by (simp add: recency_def)

lemma length_recency [simp]: "length (recency bits) = length bits"
  by (simp add: recency_def)

lemma recency_unique:
  assumes wf: "lru_wf bits" and set_ys: "set ys = {..<length bits}" and "distinct ys"
    and sorted: "sorted (map (\<lambda>i. bits ! i) ys)"
  shows "recency bits = ys"
proof (rule map_inj_on)
  have inj: "inj_on (\<lambda>i. bits ! i) {..<length bits}"
    using wf by (auto simp: inj_on_def lru_wf_def nth_eq_iff_index_eq)
  show "map (\<lambda>i. bits ! i) (recency bits) = map (\<lambda>i. bits ! i) ys"
  proof (rule sorted_distinct_set_unique)
    show "sorted (map (\<lambda>i. bits ! i) (recency bits))"
      by (simp add: recency_def)
    show "distinct (map (\<lambda>i. bits ! i) (recency bits))" "distinct (map (\<lambda>i. bits ! i) ys)"
      using inj assms by (simp_all add: distinct_map)
  qed (use assms in simp_all)
  show "inj_on (\<lambda>i. bits ! i) (set (recency bits) \<union> set ys)"
    using inj set_ys by simp
qed

lemma sorted_map_recency: "sorted (map (\<lambda>i. bits ! i) (recency bits))"
  by (simp add: recency_def)

lemma sorted_recency: "sorted_wrt (\<lambda>i j. bits ! i \<le> bits ! j) (recency bits)"
  using sorted_map_recency [of bits] by (simp only: sorted_map)

lemma sorted_recency_remove:
  "sorted_wrt (\<lambda>i j. bits ! i \<le> bits ! j) (remove1 a (recency bits))"
  using sorted_map_remove1 [OF sorted_map_recency [of bits], of a] by (simp only: sorted_map)

lemma recency_moveToMRU:
  assumes wf: "lru_wf bits" and a: "a < length bits"
  shows "recency (moveToMRU a bits) = a # remove1 a (recency bits)"
proof (rule recency_unique)
  show "lru_wf (moveToMRU a bits)"
    using assms by (rule lru_wf_moveToMRU)
  show "set (a # remove1 a (recency bits)) = {..<length (moveToMRU a bits)}"
    using a by (auto simp: set_remove1_eq)
  show "distinct (a # remove1 a (recency bits))"
    by (simp add: set_remove1_eq)
  have "sorted_wrt (\<lambda>i j. moveToMRU a bits ! i \<le> moveToMRU a bits ! j) (remove1 a (recency bits))"
  proof (rule sorted_wrt_mono_rel [OF _ sorted_recency_remove])
    fix i j
    assume "i \<in> set (remove1 a (recency bits))" "j \<in> set (remove1 a (recency bits))"
      and "bits ! i \<le> bits ! j"
    then show "moveToMRU a bits ! i \<le> moveToMRU a bits ! j"
      using moveToMRU_order [OF wf a, of j i] by (auto simp: set_remove1_eq not_less [symmetric])
  qed
  moreover have "moveToMRU a bits ! a = 0"
    using a by (simp add: moveToMRU_map)
  ultimately show "sorted (map (\<lambda>i. moveToMRU a bits ! i) (a # remove1 a (recency bits)))"
    by (simp add: sorted_map)
qed

lemma recency_moveToLRU:
  assumes wf: "lru_wf bits" and a: "a < length bits"
  shows "recency (moveToLRU a bits) = remove1 a (recency bits) @ [a]"
proof (rule recency_unique)
  show "lru_wf (moveToLRU a bits)"
    using assms by (rule lru_wf_moveToLRU)
  show "set (remove1 a (recency bits) @ [a]) = {..<length (moveToLRU a bits)}"
    using a by auto
  show "distinct (remove1 a (recency bits) @ [a])"
    by simp
  have le: "moveToLRU a bits ! i \<le> moveToLRU a bits ! j"
    if "i \<noteq> a" "i < length bits" "j < length bits" "j = a \<or> bits ! i \<le> bits ! j" for i j
    using moveToLRU_order [OF wf a, of j i] that by (auto simp: not_less [symmetric])
  have "sorted_wrt (\<lambda>i j. moveToLRU a bits ! i \<le> moveToLRU a bits ! j) (remove1 a (recency bits))"
    by (rule sorted_wrt_mono_rel [OF _ sorted_recency_remove]) (simp add: le)
  then show "sorted (map (\<lambda>i. moveToLRU a bits ! i) (remove1 a (recency bits) @ [a]))"
    unfolding sorted_map by (auto simp: sorted_wrt_append le a)
qed

text \<open>The number of distinct ways touched since a way was last touched is its age.\<close>

lemma younger_after_touches:
  assumes "lru_wf bits" and "a < length bits" and "\<forall>v \<in> set vs. v < length bits" and "a \<notin> set vs"
  shows "{i. i < length bits \<and>
      foldl (\<lambda>b v. moveToMRU v b) (moveToMRU a bits) vs ! i
        < foldl (\<lambda>b v. moveToMRU v b) (moveToMRU a bits) vs ! a} = set vs
    \<and> lru_wf (foldl (\<lambda>b v. moveToMRU v b) (moveToMRU a bits) vs)
    \<and> length (foldl (\<lambda>b v. moveToMRU v b) (moveToMRU a bits) vs) = length bits"
  using assms(3,4)
proof (induction vs rule: rev_induct)
  case Nil
  then show ?case
    using assms(1,2) by (auto simp: lru_wf_moveToMRU moveToMRU_order)
next
  case (snoc v vs)
  let ?b = "foldl (\<lambda>b v. moveToMRU v b) (moveToMRU a bits) vs"
  have IH: "{i. i < length bits \<and> ?b ! i < ?b ! a} = set vs" "lru_wf ?b" "length ?b = length bits"
    using snoc by auto
  have v: "v < length bits" "v \<noteq> a"
    using snoc.prems by auto
  have "moveToMRU v ?b ! i < moveToMRU v ?b ! a \<longleftrightarrow> i = v \<or> ?b ! i < ?b ! a" if "i < length bits" for i
    using moveToMRU_order [OF IH(2), of v i a] IH(3) v assms(2) that by auto
  then have "{i. i < length bits \<and> moveToMRU v ?b ! i < moveToMRU v ?b ! a} = insert v (set vs)"
    using IH(1) v(1) by blast
  then show ?case
    using IH v by (simp add: lru_wf_moveToMRU)
qed

text \<open>C29. The age counters implement least-recently-used order: whatever touches came before, after
  touching way \<open>a\<close> and then the ways \<open>vs\<close> (none of them \<open>a\<close>), the counter of \<open>a\<close> is the number of
  distinct ways in \<open>vs\<close>.\<close>

theorem lru_age_is_reuse_distance:
  assumes "lru_wf bits" and "\<forall>v \<in> set (us @ a # vs). v < length bits" and "a \<notin> set vs"
  shows "unat (foldl (\<lambda>b v. moveToMRU v b) bits (us @ a # vs) ! a) = card (set vs)"
proof -
  let ?b = "foldl (\<lambda>b v. moveToMRU v b) bits us"
  have b: "lru_wf ?b \<and> length ?b = length bits"
    using assms(1,2) by (induction us rule: rev_induct) (auto simp: lru_wf_moveToMRU)
  let ?c = "foldl (\<lambda>b v. moveToMRU v b) (moveToMRU a ?b) vs"
  have c: "{i. i < length bits \<and> ?c ! i < ?c ! a} = set vs" "lru_wf ?c" "length ?c = length bits"
    using younger_after_touches [of ?b a vs] b assms by auto
  have "unat (?c ! a) = card (set vs)"
    using lru_age_card [OF c(2), of a] assms(2) c by simp
  then show ?thesis by simp
qed

theorem lru_age_is_reuse_distance_witness:
  "unat (foldl (\<lambda>b v. moveToMRU v b) (lru_init 8) ([5, 1] @ 2 # [3, 1, 3, 7]) ! 2) = card {3, 1, 3, 7 :: nat}"
  using lru_age_is_reuse_distance [of "lru_init 8" "[5, 1]" 2 "[3, 1, 3, 7]"] lru_wf_init [of 8]
  by (simp add: lru_init_def)

end
