(* ===== verification/Replacement.thy ===== *)
theory Replacement
  imports LruBits
begin

text \<open>
  The replacement policies of \<^verbatim>\<open>cache/cache_set_*.cc\<close>. The virtual methods
  \<^verbatim>\<open>CacheSet::getReplacementIndex\<close> and \<^verbatim>\<open>CacheSet::updateReplacementIndex\<close> of a set are functions of the
  state of its policy, of its lines, and of the per-cache statistics object \<^verbatim>\<open>CacheSetInfoLRU\<close>.
  The controller callbacks of query-based selection (QBS) are an optional predicate on lines
  (\<^verbatim>\<open>isInLowerLevelCache\<close>) and a count of the \<^verbatim>\<open>incrementQBSLookupCost\<close> calls. Locale
  \<open>replacement_policy\<close> is the contract that \<^verbatim>\<open>CacheSet\<close> relies on.
\<close>

section \<open>Lines\<close>

definition isValidReplacement :: "CacheBlockInfo list \<Rightarrow> nat \<Rightarrow> bool" where
  "isValidReplacement lines index \<longleftrightarrow> bi_cstate (lines ! index) \<noteq> SHARED_UPGRADING"

definition first_invalid :: "CacheBlockInfo list \<Rightarrow> nat option" where
  "first_invalid lines = List.find (\<lambda>i. \<not> isValid (lines ! i)) [0..<length lines]"

type_synonym qbs = "(CacheBlockInfo \<Rightarrow> bool) option"

section \<open>CacheSetInfoLRU\<close>

record CacheSetInfoLRU =
  si_associativity :: nat
  si_access :: "u64 list"
  si_attempts :: "u64 list option"

definition CacheSetInfoLRU_new :: "nat \<Rightarrow> u8 \<Rightarrow> CacheSetInfoLRU" where
  "CacheSetInfoLRU_new associativity num_attempts =
     \<lparr>si_associativity = associativity, si_access = replicate associativity 0,
      si_attempts = (if num_attempts > 1 then Some (replicate (unat num_attempts) 0) else None)\<rparr>"

definition si_increment :: "nat \<Rightarrow> CacheSetInfoLRU \<Rightarrow> CacheSetInfoLRU option" where
  "si_increment index info = do {
     ensure (index < si_associativity info);
     v \<leftarrow> nth_opt (si_access info) index;
     Some (info\<lparr>si_access := (si_access info)[index := v + 1]\<rparr>)
   }"

definition si_incrementAttempt :: "nat \<Rightarrow> CacheSetInfoLRU \<Rightarrow> CacheSetInfoLRU option" where
  "si_incrementAttempt attempt info = (case si_attempts info of
       Some as \<Rightarrow> do {
         v \<leftarrow> nth_opt as attempt;
         Some (info\<lparr>si_attempts := Some (as[attempt := v + 1])\<rparr>) }
     | None \<Rightarrow> do { ensure (attempt = 0); Some info })"

text \<open>The query of the QBS extension: only while further attempts remain, and an abort without a
  controller. \<^verbatim>\<open>m_num_attempts - 1\<close> is computed at the width of \<^verbatim>\<open>int\<close>.\<close>

definition qbs_query :: "qbs \<Rightarrow> u8 \<Rightarrow> nat \<Rightarrow> CacheBlockInfo \<Rightarrow> bool option" where
  "qbs_query cntlr num_attempts attempt line =
     (if int attempt < uint num_attempts - 1
      then (case cntlr of None \<Rightarrow> None | Some isInLowerLevelCache \<Rightarrow> Some (isInLowerLevelCache line))
      else Some False)"

section \<open>LRU\<close>

record CacheSetLRU =
  lru_bits :: "u8 list"
  lru_num_attempts :: u8

definition CacheSetLRU_new :: "nat \<Rightarrow> u8 \<Rightarrow> CacheSetLRU" where
  "CacheSetLRU_new associativity num_attempts =
     \<lparr>lru_bits = lru_init associativity, lru_num_attempts = num_attempts\<rparr>"

text \<open>The scan for the oldest replaceable way. \<open>index0\<close> is the result when no counter is positive.\<close>

definition lru_scan :: "CacheBlockInfo list \<Rightarrow> u8 list \<Rightarrow> nat \<Rightarrow> nat" where
  "lru_scan lines bits index0 =
     fst (fold (\<lambda>i (index, max_bits).
         if bits ! i > max_bits \<and> isValidReplacement lines i then (i, bits ! i) else (index, max_bits))
       [0..<length lines] (index0, 0))"

definition lru_attempt :: "qbs \<Rightarrow> CacheBlockInfo list \<Rightarrow> u8 \<Rightarrow> nat \<Rightarrow>
    nat \<times> u8 list \<times> CacheSetInfoLRU \<times> nat \<Rightarrow> (nat \<times> u8 list \<times> CacheSetInfoLRU \<times> nat) option" where
  "lru_attempt cntlr lines num_attempts attempt = (\<lambda>(index0, bits, info, cost). do {
     let index = lru_scan lines bits index0;
     ensure (index < length lines);
     qbs_reject \<leftarrow> qbs_query cntlr num_attempts attempt (lines ! index);
     if qbs_reject then Some (index, moveToMRU index bits, info, cost + 1)
     else do {
       info' \<leftarrow> si_incrementAttempt attempt info;
       Some (index, moveToMRU index bits, info', cost)
     }
   })"

definition lru_getReplacementIndex :: "qbs \<Rightarrow> CacheBlockInfo list \<Rightarrow> CacheSetLRU \<Rightarrow> CacheSetInfoLRU \<Rightarrow>
    (nat \<times> CacheSetLRU \<times> CacheSetInfoLRU \<times> nat) option" where
  "lru_getReplacementIndex cntlr lines p info = (case first_invalid lines of
       Some i \<Rightarrow> Some (i, p\<lparr>lru_bits := moveToMRU i (lru_bits p)\<rparr>, info, 0)
     | None \<Rightarrow> do {
         (index, bits, info', cost) \<leftarrow>
           fold_opt (lru_attempt cntlr lines (lru_num_attempts p)) [0..<unat (lru_num_attempts p)]
             (0, lru_bits p, info, 0);
         Some (index, p\<lparr>lru_bits := bits\<rparr>, info', cost) })"

text \<open>The variant that inserts the new line at the LRU position; it leaves the loop at the first
  accepted victim.\<close>

fun lru_my_attempts :: "qbs \<Rightarrow> CacheBlockInfo list \<Rightarrow> u8 \<Rightarrow> nat list \<Rightarrow>
    u8 list \<times> CacheSetInfoLRU \<times> nat \<Rightarrow> (nat \<times> u8 list \<times> CacheSetInfoLRU \<times> nat) option" where
  "lru_my_attempts cntlr lines num_attempts [] s = None"
| "lru_my_attempts cntlr lines num_attempts (attempt # rest) (bits, info, cost) = do {
     let index = lru_scan lines bits 0;
     ensure (index < length lines);
     qbs_reject \<leftarrow> qbs_query cntlr num_attempts attempt (lines ! index);
     if qbs_reject then lru_my_attempts cntlr lines num_attempts rest (moveToMRU index bits, info, cost + 1)
     else do {
       info' \<leftarrow> si_incrementAttempt attempt info;
       Some (index, moveToLRU index bits, info', cost)
     }
   }"

definition lru_getMyReplacementIndex :: "qbs \<Rightarrow> CacheBlockInfo list \<Rightarrow> CacheSetLRU \<Rightarrow> CacheSetInfoLRU \<Rightarrow>
    (nat \<times> CacheSetLRU \<times> CacheSetInfoLRU \<times> nat) option" where
  "lru_getMyReplacementIndex cntlr lines p info = (case first_invalid lines of
       Some i \<Rightarrow> Some (i, p\<lparr>lru_bits := moveToMRU i (lru_bits p)\<rparr>, info, 0)
     | None \<Rightarrow> do {
         (index, bits, info', cost) \<leftarrow>
           lru_my_attempts cntlr lines (lru_num_attempts p) [0..<unat (lru_num_attempts p)]
             (lru_bits p, info, 0);
         Some (index, p\<lparr>lru_bits := bits\<rparr>, info', cost) })"

definition lru_updateReplacementIndex :: "nat \<Rightarrow> CacheSetLRU \<Rightarrow> CacheSetInfoLRU \<Rightarrow>
    (CacheSetLRU \<times> CacheSetInfoLRU) option" where
  "lru_updateReplacementIndex accessed_index p info = do {
     b \<leftarrow> nth_opt (lru_bits p) accessed_index;
     info' \<leftarrow> si_increment (unat b) info;
     Some (p\<lparr>lru_bits := moveToMRU accessed_index (lru_bits p)\<rparr>, info')
   }"

section \<open>MRU\<close>

definition mru_getReplacementIndex :: "CacheBlockInfo list \<Rightarrow> u8 list \<Rightarrow> (nat \<times> u8 list) option" where
  "mru_getReplacementIndex lines bits = (case first_invalid lines of
       Some i \<Rightarrow> Some (i, moveToMRU i bits)
     | None \<Rightarrow> do {
         (target, i) \<leftarrow> List.find (\<lambda>(target, i). unat (bits ! i) = target \<and> isValidReplacement lines i)
           (List.product [0..<length lines] [0..<length lines]);
         Some (i, moveToMRU i bits) })"

section \<open>NMRU and NRU\<close>

text \<open>The search from the replacement pointer: at most \<open>k\<close> ways, in cyclic order. The result is the
  way found and the new pointer, an 8-bit variable.\<close>

fun pointer_scan :: "(nat \<Rightarrow> bool) \<Rightarrow> nat \<Rightarrow> nat \<Rightarrow> u8 \<Rightarrow> (u8 \<times> u8) option" where
  "pointer_scan P n 0 p = None"
| "pointer_scan P n (Suc k) p =
     (let p' = of_nat ((unat p + 1) mod n)
      in if P (unat p) then Some (p, p') else pointer_scan P n k p')"

record CacheSetNMRU =
  nmru_bits :: "u8 list"
  nmru_replacement_pointer :: u8

definition nmru_getReplacementIndex :: "CacheBlockInfo list \<Rightarrow> CacheSetNMRU \<Rightarrow>
    (nat \<times> CacheSetNMRU) option" where
  "nmru_getReplacementIndex lines p = (case first_invalid lines of
       Some i \<Rightarrow> Some (i, p\<lparr>nmru_bits := moveToMRU i (nmru_bits p)\<rparr>)
     | None \<Rightarrow> do {
         (index, ptr) \<leftarrow> pointer_scan (\<lambda>i. nmru_bits p ! i \<noteq> 0 \<and> isValidReplacement lines i)
           (length lines) (length lines) (nmru_replacement_pointer p);
         Some (unat index, p\<lparr>nmru_bits := moveToMRU (unat index) (nmru_bits p),
           nmru_replacement_pointer := ptr\<rparr>) })"

record CacheSetNRU =
  nru_bits :: "u8 list"
  nru_num_bits_set :: u8
  nru_replacement_pointer :: u8

definition nru_updateReplacementIndex :: "nat \<Rightarrow> CacheSetNRU \<Rightarrow> CacheSetNRU" where
  "nru_updateReplacementIndex accessed_index p =
     (let bits = (nru_bits p)[accessed_index := 1]; num = nru_num_bits_set p + 1
      in if unat num = length (nru_bits p)
         then p\<lparr>nru_num_bits_set := 0, nru_bits := map (\<lambda>b. 0) bits\<rparr>
         else p\<lparr>nru_num_bits_set := num, nru_bits := bits\<rparr>)"

definition nru_getReplacementIndex :: "CacheBlockInfo list \<Rightarrow> CacheSetNRU \<Rightarrow>
    (nat \<times> CacheSetNRU) option" where
  "nru_getReplacementIndex lines p = (case first_invalid lines of
       Some i \<Rightarrow> Some (i, nru_updateReplacementIndex i p)
     | None \<Rightarrow> do {
         let have_zero_bit =
           list_ex (\<lambda>i. nru_bits p ! i = 0 \<and> isValidReplacement lines i) [0..<length lines];
         (index, ptr) \<leftarrow>
           pointer_scan (\<lambda>i. (nru_bits p ! i = 0 \<or> \<not> have_zero_bit) \<and> isValidReplacement lines i)
             (length lines) (length lines) (nru_replacement_pointer p);
         Some (unat index,
           nru_updateReplacementIndex (unat index) (p\<lparr>nru_replacement_pointer := ptr\<rparr>)) })"

section \<open>PLRU\<close>

definition plru_victim :: "nat \<Rightarrow> u8 list \<Rightarrow> nat option" where
  "plru_victim associativity b =
     (if associativity = 4 then
        Some (if b ! 0 = 0 then (if b ! 1 = 0 then 0 else 1) else (if b ! 2 = 0 then 2 else 3))
      else if associativity = 8 then
        Some (if b ! 0 = 0
              then (if b ! 1 = 0 then (if b ! 2 = 0 then 0 else 1) else (if b ! 3 = 0 then 2 else 3))
              else (if b ! 4 = 0 then (if b ! 5 = 0 then 4 else 5) else (if b ! 6 = 0 then 6 else 7)))
      else None)"

definition plru_updateReplacementIndex :: "nat \<Rightarrow> nat \<Rightarrow> u8 list \<Rightarrow> u8 list option" where
  "plru_updateReplacementIndex associativity a b =
     (if associativity = 4 then
        Some (if a = 0 then b[0 := 1, 1 := 1]
              else if a = 1 then b[0 := 1, 1 := 0]
              else if a = 2 then b[0 := 0, 2 := 1]
              else if a = 3 then b[0 := 0, 2 := 0]
              else b)
      else if associativity = 8 then
        Some (if a = 0 then b[0 := 1, 1 := 1, 2 := 1]
              else if a = 1 then b[0 := 1, 1 := 1, 2 := 0]
              else if a = 2 then b[0 := 1, 1 := 0, 3 := 1]
              else if a = 3 then b[0 := 1, 1 := 0, 3 := 0]
              else if a = 4 then b[0 := 0, 4 := 1, 5 := 1]
              else if a = 5 then b[0 := 0, 4 := 1, 5 := 0]
              else if a = 6 then b[0 := 0, 4 := 0, 6 := 1]
              else if a = 7 then b[0 := 0, 4 := 0, 6 := 0]
              else b)
      else None)"

definition plru_getReplacementIndex :: "CacheBlockInfo list \<Rightarrow> u8 list \<Rightarrow> (nat \<times> u8 list) option" where
  "plru_getReplacementIndex lines b = (case first_invalid lines of
       Some i \<Rightarrow> do { b' \<leftarrow> plru_updateReplacementIndex (length lines) i b; Some (i, b') }
     | None \<Rightarrow> do {
         retValue \<leftarrow> plru_victim (length lines) b;
         ensure (isValidReplacement lines retValue);
         b' \<leftarrow> plru_updateReplacementIndex (length lines) retValue b;
         Some (retValue, b') })"

section \<open>Round robin and random\<close>

text \<open>Both policies retry by calling themselves, possibly forever; not returning is \<open>None\<close>.\<close>

definition rr_next :: "nat \<Rightarrow> nat \<Rightarrow> nat" where
  "rr_next n i = (if i = 0 then n - 1 else i - 1)"

partial_function (option) rr_getReplacementIndex :: "CacheBlockInfo list \<Rightarrow> nat \<Rightarrow> (nat \<times> nat) option" where
  "rr_getReplacementIndex lines idx =
     (let idx' = rr_next (length lines) idx
      in if \<not> isValidReplacement lines idx' then rr_getReplacementIndex lines idx'
         else Some (idx, idx'))"

partial_function (option) random_pick :: "CacheBlockInfo list \<Rightarrow> u32 \<Rightarrow> (nat \<times> u32) option" where
  "random_pick lines seed =
     (let (v, seed') = random_next seed 32768; index = unat v mod length lines
      in if isValidReplacement lines index then Some (index, seed') else random_pick lines seed')"

text \<open>The retry of \<^verbatim>\<open>CacheSetRandom::getReplacementIndex\<close> searches for an invalid line again, and again
  finds none.\<close>

definition random_getReplacementIndex :: "CacheBlockInfo list \<Rightarrow> u32 \<Rightarrow> (nat \<times> u32) option" where
  "random_getReplacementIndex lines seed = (case first_invalid lines of
       Some i \<Rightarrow> Some (i, seed)
     | None \<Rightarrow> random_pick lines seed)"

section \<open>SRRIP\<close>

record CacheSetSRRIP =
  rrip_max :: u8
  rrip_insert :: u8
  rrip_num_attempts :: u8
  rrip_bits :: "u8 list"
  rrip_replacement_pointer :: u8

definition CacheSetSRRIP_new :: "nat \<Rightarrow> nat \<Rightarrow> u8 \<Rightarrow> CacheSetSRRIP" where
  "CacheSetSRRIP_new numbits associativity num_attempts =
     (let mx = push_bit numbits 1 - 1
      in \<lparr>rrip_max = mx, rrip_insert = mx - 1, rrip_num_attempts = num_attempts,
          rrip_bits = replicate associativity (mx - 1), rrip_replacement_pointer = 0\<rparr>)"

text \<open>The inner loop over the ways, \<open>k\<close> iterations of it. The state is the counters, the pointer,
  the attempt and the number of QBS rejections; \<open>Inl\<close> leaves the function with a victim and the
  attempt it was found in.\<close>

fun srrip_ways :: "qbs \<Rightarrow> CacheBlockInfo list \<Rightarrow> CacheSetSRRIP \<Rightarrow> nat \<Rightarrow> u8 list \<times> u8 \<times> u8 \<times> nat \<Rightarrow>
    ((nat \<times> u8 list \<times> u8 \<times> u8 \<times> nat) + (u8 list \<times> u8 \<times> u8 \<times> nat)) option" where
  "srrip_ways cntlr lines p 0 s = Some (Inr s)"
| "srrip_ways cntlr lines p (Suc k) (bits, ptr, attempt, cost) =
     (let next = of_nat ((unat ptr + 1) mod length lines) in
      if bits ! unat ptr \<ge> rrip_max p then do {
        qbs_reject \<leftarrow> qbs_query cntlr (rrip_num_attempts p) (unat attempt) (lines ! unat ptr);
        if qbs_reject
        then srrip_ways cntlr lines p k (bits[unat ptr := 0], ptr, attempt + 1, cost + 1)
        else Some (Inl (unat ptr, bits[unat ptr := rrip_insert p], next, attempt, cost))
      }
      else srrip_ways cntlr lines p k (bits, next, attempt, cost))"

definition srrip_age :: "u8 \<Rightarrow> u8 list \<Rightarrow> u8 list" where
  "srrip_age mx bits = map (\<lambda>b. if b < mx then b + 1 else b) bits"

fun srrip_rounds :: "qbs \<Rightarrow> CacheBlockInfo list \<Rightarrow> CacheSetSRRIP \<Rightarrow> nat \<Rightarrow> u8 list \<times> u8 \<times> u8 \<times> nat \<Rightarrow>
    (nat \<times> u8 list \<times> u8 \<times> u8 \<times> nat) option" where
  "srrip_rounds cntlr lines p 0 s = None"
| "srrip_rounds cntlr lines p (Suc j) s = do {
     r \<leftarrow> srrip_ways cntlr lines p (length lines) s;
     case r of
       Inl v \<Rightarrow> Some v
     | Inr (bits, ptr, attempt, cost) \<Rightarrow>
         srrip_rounds cntlr lines p j (srrip_age (rrip_max p) bits, ptr, attempt, cost)
   }"

definition srrip_getReplacementIndex :: "qbs \<Rightarrow> CacheBlockInfo list \<Rightarrow> CacheSetSRRIP \<Rightarrow> CacheSetInfoLRU \<Rightarrow>
    (nat \<times> CacheSetSRRIP \<times> CacheSetInfoLRU \<times> nat) option" where
  "srrip_getReplacementIndex cntlr lines p info = (case first_invalid lines of
       Some i \<Rightarrow> Some (i, p\<lparr>rrip_bits := (rrip_bits p)[i := rrip_insert p]\<rparr>, info, 0)
     | None \<Rightarrow> do {
         (index, bits, ptr, attempt, cost) \<leftarrow>
           srrip_rounds cntlr lines p (unat (rrip_max p) + 1)
             (rrip_bits p, rrip_replacement_pointer p, 0, 0);
         info' \<leftarrow> si_incrementAttempt (unat attempt) info;
         ensure (isValidReplacement lines index);
         Some (index, p\<lparr>rrip_bits := bits, rrip_replacement_pointer := ptr\<rparr>, info', cost) })"

definition srrip_updateReplacementIndex :: "nat \<Rightarrow> CacheSetSRRIP \<Rightarrow> CacheSetInfoLRU \<Rightarrow>
    (CacheSetSRRIP \<times> CacheSetInfoLRU) option" where
  "srrip_updateReplacementIndex accessed_index p info = do {
     b \<leftarrow> nth_opt (rrip_bits p) accessed_index;
     info' \<leftarrow> si_increment (unat b) info;
     Some (if b > 0 then p\<lparr>rrip_bits := (rrip_bits p)[accessed_index := b - 1]\<rparr> else p, info')
   }"

section \<open>The policy of a set\<close>

datatype ReplacementPolicy = ROUND_ROBIN | LRU | LRU_QBS | NRU | MRU | NMRU | PLRU | SRRIP | SRRIP_QBS
  | RANDOM

definition parsePolicyType :: "string \<Rightarrow> ReplacementPolicy option" where
  "parsePolicyType policy =
     (if policy = ''round_robin'' then Some ROUND_ROBIN
      else if policy = ''lru'' then Some LRU
      else if policy = ''lru_qbs'' then Some LRU_QBS
      else if policy = ''nru'' then Some NRU
      else if policy = ''mru'' then Some MRU
      else if policy = ''nmru'' then Some NMRU
      else if policy = ''plru'' then Some PLRU
      else if policy = ''srrip'' then Some SRRIP
      else if policy = ''srrip_qbs'' then Some SRRIP_QBS
      else if policy = ''random'' then Some RANDOM
      else None)"

text \<open>\<open>cfg_attempts\<close> is the configuration value \<^verbatim>\<open>qbs/attempts\<close>.\<close>

definition getNumQBSAttempts :: "ReplacementPolicy \<Rightarrow> u8 \<Rightarrow> u8" where
  "getNumQBSAttempts policy cfg_attempts =
     (if policy = LRU_QBS \<or> policy = SRRIP_QBS then cfg_attempts else 1)"

datatype policy =
    PolicyLRU CacheSetLRU
  | PolicyMRU "u8 list"
  | PolicyNMRU CacheSetNMRU
  | PolicyNRU CacheSetNRU
  | PolicyPLRU "u8 list"
  | PolicyRoundRobin nat
  | PolicyRandom u32
  | PolicySRRIP CacheSetSRRIP

text \<open>The policy state that the constructors build. \<open>cfg_bits\<close> is the configuration value
  \<^verbatim>\<open>srrip/bits\<close>, and \<open>seed\<close> the value of \<^verbatim>\<open>time(NULL)\<close>.\<close>

fun create_policy :: "ReplacementPolicy \<Rightarrow> nat \<Rightarrow> u8 \<Rightarrow> nat \<Rightarrow> u32 \<Rightarrow> policy option" where
  "create_policy ROUND_ROBIN n cfg_attempts cfg_bits seed = Some (PolicyRoundRobin (n - 1))"
| "create_policy LRU n cfg_attempts cfg_bits seed =
     Some (PolicyLRU (CacheSetLRU_new n (getNumQBSAttempts LRU cfg_attempts)))"
| "create_policy LRU_QBS n cfg_attempts cfg_bits seed =
     Some (PolicyLRU (CacheSetLRU_new n (getNumQBSAttempts LRU_QBS cfg_attempts)))"
| "create_policy NRU n cfg_attempts cfg_bits seed =
     Some (PolicyNRU \<lparr>nru_bits = replicate n 0, nru_num_bits_set = 0, nru_replacement_pointer = 0\<rparr>)"
| "create_policy MRU n cfg_attempts cfg_bits seed = Some (PolicyMRU (lru_init n))"
| "create_policy NMRU n cfg_attempts cfg_bits seed =
     Some (PolicyNMRU \<lparr>nmru_bits = lru_init n, nmru_replacement_pointer = 0\<rparr>)"
| "create_policy PLRU n cfg_attempts cfg_bits seed =
     (if n = 4 \<or> n = 8 then Some (PolicyPLRU (replicate 8 0)) else None)"
| "create_policy SRRIP n cfg_attempts cfg_bits seed =
     Some (PolicySRRIP (CacheSetSRRIP_new cfg_bits n (getNumQBSAttempts SRRIP cfg_attempts)))"
| "create_policy SRRIP_QBS n cfg_attempts cfg_bits seed =
     Some (PolicySRRIP (CacheSetSRRIP_new cfg_bits n (getNumQBSAttempts SRRIP_QBS cfg_attempts)))"
| "create_policy RANDOM n cfg_attempts cfg_bits seed = Some (PolicyRandom seed)"

fun getReplacementIndex :: "qbs \<Rightarrow> CacheBlockInfo list \<Rightarrow> policy \<Rightarrow> CacheSetInfoLRU \<Rightarrow>
    (nat \<times> policy \<times> CacheSetInfoLRU \<times> nat) option" where
  "getReplacementIndex cntlr lines (PolicyLRU p) info = do {
     (i, p', info', cost) \<leftarrow> lru_getReplacementIndex cntlr lines p info;
     Some (i, PolicyLRU p', info', cost) }"
| "getReplacementIndex cntlr lines (PolicyMRU b) info = do {
     (i, b') \<leftarrow> mru_getReplacementIndex lines b; Some (i, PolicyMRU b', info, 0) }"
| "getReplacementIndex cntlr lines (PolicyNMRU p) info = do {
     (i, p') \<leftarrow> nmru_getReplacementIndex lines p; Some (i, PolicyNMRU p', info, 0) }"
| "getReplacementIndex cntlr lines (PolicyNRU p) info = do {
     (i, p') \<leftarrow> nru_getReplacementIndex lines p; Some (i, PolicyNRU p', info, 0) }"
| "getReplacementIndex cntlr lines (PolicyPLRU b) info = do {
     (i, b') \<leftarrow> plru_getReplacementIndex lines b; Some (i, PolicyPLRU b', info, 0) }"
| "getReplacementIndex cntlr lines (PolicyRoundRobin idx) info = do {
     (i, idx') \<leftarrow> rr_getReplacementIndex lines idx; Some (i, PolicyRoundRobin idx', info, 0) }"
| "getReplacementIndex cntlr lines (PolicyRandom seed) info = do {
     (i, seed') \<leftarrow> random_getReplacementIndex lines seed; Some (i, PolicyRandom seed', info, 0) }"
| "getReplacementIndex cntlr lines (PolicySRRIP p) info = do {
     (i, p', info', cost) \<leftarrow> srrip_getReplacementIndex cntlr lines p info;
     Some (i, PolicySRRIP p', info', cost) }"

fun updateReplacementIndex :: "nat \<Rightarrow> nat \<Rightarrow> policy \<Rightarrow> CacheSetInfoLRU \<Rightarrow>
    (policy \<times> CacheSetInfoLRU) option" where
  "updateReplacementIndex n a (PolicyLRU p) info = do {
     (p', info') \<leftarrow> lru_updateReplacementIndex a p info; Some (PolicyLRU p', info') }"
| "updateReplacementIndex n a (PolicyMRU b) info = Some (PolicyMRU (moveToMRU a b), info)"
| "updateReplacementIndex n a (PolicyNMRU p) info =
     Some (PolicyNMRU (p\<lparr>nmru_bits := moveToMRU a (nmru_bits p)\<rparr>), info)"
| "updateReplacementIndex n a (PolicyNRU p) info = Some (PolicyNRU (nru_updateReplacementIndex a p), info)"
| "updateReplacementIndex n a (PolicyPLRU b) info = do {
     b' \<leftarrow> plru_updateReplacementIndex n a b; Some (PolicyPLRU b', info) }"
| "updateReplacementIndex n a (PolicyRoundRobin idx) info = Some (PolicyRoundRobin idx, info)"
| "updateReplacementIndex n a (PolicyRandom seed) info = Some (PolicyRandom seed, info)"
| "updateReplacementIndex n a (PolicySRRIP p) info = do {
     (p', info') \<leftarrow> srrip_updateReplacementIndex a p info; Some (PolicySRRIP p', info') }"

text \<open>Well-formed policy state for a set of \<open>n\<close> ways.\<close>

fun policy_wf :: "nat \<Rightarrow> policy \<Rightarrow> bool" where
  "policy_wf n (PolicyLRU p) \<longleftrightarrow> lru_wf (lru_bits p) \<and> length (lru_bits p) = n"
| "policy_wf n (PolicyMRU b) \<longleftrightarrow> lru_wf b \<and> length b = n"
| "policy_wf n (PolicyNMRU p) \<longleftrightarrow> lru_wf (nmru_bits p) \<and> length (nmru_bits p) = n \<and>
     unat (nmru_replacement_pointer p) < n"
| "policy_wf n (PolicyNRU p) \<longleftrightarrow> length (nru_bits p) = n \<and> n \<le> 256 \<and>
     unat (nru_replacement_pointer p) < n"
| "policy_wf n (PolicyPLRU b) \<longleftrightarrow> length b = 8 \<and> (n = 4 \<or> n = 8)"
| "policy_wf n (PolicyRoundRobin idx) \<longleftrightarrow> idx < n"
| "policy_wf n (PolicyRandom seed) \<longleftrightarrow> True"
| "policy_wf n (PolicySRRIP p) \<longleftrightarrow> length (rrip_bits p) = n \<and> n \<le> 256 \<and>
     unat (rrip_replacement_pointer p) < n \<and> rrip_insert p \<le> rrip_max p \<and>
     list_all (\<lambda>b. b \<le> rrip_max p) (rrip_bits p)"

section \<open>Searching for an invalid line\<close>

lemma first_invalid_Some:
  "first_invalid lines = Some i \<longleftrightarrow> i < length lines \<and> \<not> isValid (lines ! i) \<and> (\<forall>j < i. isValid (lines ! j))"
  unfolding first_invalid_def find_upt_Some by blast

lemma first_invalid_None: "first_invalid lines = None \<longleftrightarrow> (\<forall>i < length lines. isValid (lines ! i))"
  unfolding first_invalid_def find_upt_None by blast

section \<open>Pointer scans\<close>

lemma unat_next_pointer:
  "n \<le> 256 \<Longrightarrow> k < n \<Longrightarrow> unat (of_nat ((k + j) mod n) :: u8) = (k + j) mod n"
proof -
  assume "n \<le> 256" and "k < n"
  then have "(k + j) mod n < n" and "n \<le> 2 ^ LENGTH(8)"
    by simp_all
  then have "(k + j) mod n < 2 ^ LENGTH(8)"
    by (rule less_le_trans)
  then show ?thesis by (rule unat_of_nat_small)
qed

lemma pointer_scan_Some:
  assumes "pointer_scan P n k p = Some (q, q')" and "unat p < n" and "n \<le> 256"
  shows "unat q < n \<and> P (unat q) \<and> unat q' < n"
  using assms
proof (induction k arbitrary: p)
  case (Suc k)
  let ?p' = "of_nat ((unat p + 1) mod n) :: u8"
  have p': "unat ?p' < n"
    using Suc.prems by (subst unat_next_pointer) auto
  show ?case
  proof (cases "P (unat p)")
    case True
    then show ?thesis using Suc.prems p' by (auto simp: Let_def)
  next
    case False
    then have "pointer_scan P n k ?p' = Some (q, q')"
      using Suc.prems by (simp add: Let_def)
    then show ?thesis using Suc.IH p' Suc.prems(3) by blast
  qed
qed simp

lemma pointer_scan_complete:
  assumes "j < k" and "P ((unat p + j) mod n)" and "unat p < n" and "n \<le> 256"
  shows "pointer_scan P n k p \<noteq> None"
  using assms
proof (induction k arbitrary: p j)
  case (Suc k)
  let ?p' = "of_nat ((unat p + 1) mod n) :: u8"
  have p': "unat ?p' = (unat p + 1) mod n"
    using Suc.prems by (intro unat_next_pointer) auto
  show ?case
  proof (cases "P (unat p)")
    case False
    then obtain i where j: "j = Suc i"
      using Suc.prems by (cases j) auto
    have "(unat ?p' + i) mod n = (unat p + j) mod n"
      unfolding p' j by (simp add: mod_simps)
    then have "pointer_scan P n k ?p' \<noteq> None"
      using Suc.IH [of i ?p'] Suc.prems p' j by simp
    with False show ?thesis by (simp add: Let_def)
  qed (simp add: Let_def)
qed simp

lemma pointer_scan_total:
  assumes "i < n" and "P i" and "unat p < n" and "n \<le> 256"
  shows "\<exists>q q'. pointer_scan P n n p = Some (q, q')"
proof -
  let ?j = "(i + n - unat p) mod n"
  have "(unat p + ?j) mod n = (unat p + (i + n - unat p)) mod n"
    by (simp add: mod_simps)
  also have "\<dots> = i"
    using assms by simp
  finally have "pointer_scan P n n p \<noteq> None"
    using assms by (intro pointer_scan_complete [of ?j]) auto
  then show ?thesis by auto
qed

section \<open>The contract of a policy\<close>

locale replacement_policy =
  fixes wf :: "nat \<Rightarrow> 'p \<Rightarrow> bool"
    and victim :: "CacheBlockInfo list \<Rightarrow> 'p \<Rightarrow> 'i \<Rightarrow> (nat \<times> 'p \<times> 'i \<times> nat) option"
    and touch :: "nat \<Rightarrow> nat \<Rightarrow> 'p \<Rightarrow> 'i \<Rightarrow> ('p \<times> 'i) option"
  assumes victim_law: "wf (length lines) p \<Longrightarrow> lines \<noteq> [] \<Longrightarrow>
      victim lines p info = Some (i, p', info', cost) \<Longrightarrow> i < length lines \<and> wf (length lines) p'"
    and touch_law: "wf n p \<Longrightarrow> a < n \<Longrightarrow> touch n a p info = Some (p', info') \<Longrightarrow> wf n p'"
begin

text \<open>The ways touched between two replacements keep the policy well-formed.\<close>

lemma touches_wf:
  assumes "fold_opt (\<lambda>a (p, info). touch n a p info) as (p, info) = Some (p', info')"
    and "wf n p" and "\<forall>a \<in> set as. a < n"
  shows "wf n p'"
proof -
  have "wf n (fst (p', info'))"
    by (rule fold_opt_inv [OF assms(1), of "\<lambda>s. wf n (fst s)"])
      (use assms(2,3) touch_law in auto)
  then show ?thesis by simp
qed

text \<open>So a victim chosen after any number of touches is one of the ways of the set.\<close>

lemma victim_after_touches:
  assumes "fold_opt (\<lambda>a (p, info). touch (length lines) a p info) as (p, info) = Some (p1, info1)"
    and "wf (length lines) p" and "\<forall>a \<in> set as. a < length lines" and "lines \<noteq> []"
    and "victim lines p1 info1 = Some (i, p2, info2, cost)"
  shows "i < length lines \<and> wf (length lines) p2"
  using touches_wf [OF assms(1-3)] assms(4,5) by (rule victim_law)

end

text \<open>Every policy but round robin fills the invalid lines of a set first.\<close>

locale invalid_first_policy = replacement_policy wf victim touch
  for wf :: "nat \<Rightarrow> 'p \<Rightarrow> bool"
    and victim :: "CacheBlockInfo list \<Rightarrow> 'p \<Rightarrow> 'i \<Rightarrow> (nat \<times> 'p \<times> 'i \<times> nat) option"
    and touch +
  assumes invalid_first_law: "wf (length lines) p \<Longrightarrow> first_invalid lines = Some i \<Longrightarrow>
      \<exists>p' info' cost. victim lines p info = Some (i, p', info', cost)"
begin

lemma victim_invalid:
  assumes "wf (length lines) p" and "victim lines p info = Some (i, p', info', cost)"
    and "j < length lines" and "\<not> isValid (lines ! j)"
  shows "\<not> isValid (lines ! i)"
proof -
  have "first_invalid lines \<noteq> None"
    using assms(3,4) by (auto simp: first_invalid_None)
  then obtain k where k: "first_invalid lines = Some k" by auto
  then have "i = k"
    using invalid_first_law [OF assms(1) k, of info] assms(2) by auto
  with k show ?thesis by (simp add: first_invalid_Some)
qed

end

subsection \<open>LRU\<close>

lemma lru_attempt_inv:
  assumes "lru_attempt cntlr lines num attempt (index0, bits, info, cost) = Some (index, bits', info', cost')"
    and "lru_wf bits" and "length bits = length lines"
  shows "index < length lines \<and> lru_wf bits' \<and> length bits' = length lines"
  using assms
  by (auto simp: lru_attempt_def Let_def abort_simps lru_wf_moveToMRU split: if_splits)

lemma lru_victim_law:
  assumes "lru_wf (lru_bits p)" and "length (lru_bits p) = length lines" and "lines \<noteq> []"
    and v: "lru_getReplacementIndex cntlr lines p info = Some (i, p', info', cost)"
  shows "i < length lines \<and> lru_wf (lru_bits p') \<and> length (lru_bits p') = length lines"
proof (cases "first_invalid lines")
  case (Some k)
  then have "k < length lines" by (simp add: first_invalid_Some)
  with Some show ?thesis
    using assms by (auto simp: lru_getReplacementIndex_def lru_wf_moveToMRU)
next
  case None
  define I where "I = (\<lambda>(index :: nat, bits, info :: CacheSetInfoLRU, cost :: nat).
    index < length lines \<and> lru_wf bits \<and> length bits = length lines)"
  obtain bits where
    f: "fold_opt (lru_attempt cntlr lines (lru_num_attempts p)) [0..<unat (lru_num_attempts p)]
        (0, lru_bits p, info, 0) = Some (i, bits, info', cost)"
    and p': "p' = p\<lparr>lru_bits := bits\<rparr>"
    using v None by (auto simp: lru_getReplacementIndex_def abort_simps)
  have "I (i, bits, info', cost)"
    by (rule fold_opt_inv [OF f, of I])
      (use assms(1-3) in \<open>auto simp: I_def dest!: lru_attempt_inv\<close>)
  then show ?thesis
    by (simp add: I_def p')
qed

lemma lru_touch_law:
  "lru_updateReplacementIndex a p info = Some (p', info') \<Longrightarrow> lru_wf (lru_bits p) \<Longrightarrow>
    lru_wf (lru_bits p') \<and> length (lru_bits p') = length (lru_bits p)"
  by (auto simp: lru_updateReplacementIndex_def abort_simps lru_wf_moveToMRU)

subsection \<open>MRU, NMRU and NRU\<close>

lemma lru_wf_length: "lru_wf bits \<Longrightarrow> length bits \<le> 256"
  by (simp add: lru_wf_def)

lemma mru_victim_law:
  assumes "lru_wf b" and "length b = length lines" and "mru_getReplacementIndex lines b = Some (i, b')"
  shows "i < length lines \<and> lru_wf b' \<and> length b' = length lines"
  using assms
  by (auto simp: mru_getReplacementIndex_def first_invalid_Some abort_simps lru_wf_moveToMRU
      split: option.splits dest!: find_set_Some)

lemma nmru_victim_law:
  assumes "policy_wf (length lines) (PolicyNMRU p)" and "nmru_getReplacementIndex lines p = Some (i, p')"
  shows "i < length lines \<and> policy_wf (length lines) (PolicyNMRU p')"
  using assms
  by (auto simp: nmru_getReplacementIndex_def first_invalid_Some abort_simps lru_wf_moveToMRU
      split: option.splits dest!: pointer_scan_Some dest: lru_wf_length)

lemma nru_touch_law:
  "policy_wf n (PolicyNRU p) \<Longrightarrow> policy_wf n (PolicyNRU (nru_updateReplacementIndex a p))"
  by (simp add: nru_updateReplacementIndex_def Let_def)

lemma nru_victim_law:
  assumes "policy_wf (length lines) (PolicyNRU p)" and "nru_getReplacementIndex lines p = Some (i, p')"
  shows "i < length lines \<and> policy_wf (length lines) (PolicyNRU p')"
proof (cases "first_invalid lines")
  case (Some k)
  with assms have "i = k" and p': "p' = nru_updateReplacementIndex k p"
    by (auto simp: nru_getReplacementIndex_def)
  then show ?thesis
    unfolding p' using nru_touch_law [OF assms(1)] Some by (simp only: first_invalid_Some simp_thms)
next
  case None
  then obtain P q q' where s: "pointer_scan P (length lines) (length lines) (nru_replacement_pointer p) = Some (q, q')"
    and i: "i = unat q"
    and p': "p' = nru_updateReplacementIndex (unat q) (p\<lparr>nru_replacement_pointer := q'\<rparr>)"
    using assms(2) by (auto simp: nru_getReplacementIndex_def Let_def abort_simps)
  have "unat q < length lines" "unat q' < length lines"
    using pointer_scan_Some [OF s] assms(1) by simp_all
  then show ?thesis
    unfolding p' i using assms(1) by (intro conjI nru_touch_law) simp_all
qed

subsection \<open>PLRU, round robin and random\<close>

lemma plru_touch_law:
  "plru_updateReplacementIndex n a b = Some b' \<Longrightarrow> length b' = length b"
  by (auto simp: plru_updateReplacementIndex_def split: if_splits)

lemma plru_victim_law:
  assumes "plru_getReplacementIndex lines b = Some (i, b')"
  shows "i < length lines \<and> length b' = length b"
  using assms
  by (auto simp: plru_getReplacementIndex_def first_invalid_Some abort_simps plru_victim_def
      split: option.splits if_splits dest: plru_touch_law)

lemma rr_next_less: "i < n \<Longrightarrow> rr_next n i < n"
  by (auto simp: rr_next_def)

lemma rr_victim_law:
  assumes "rr_getReplacementIndex lines idx = Some r"
  shows "idx < length lines \<longrightarrow>
    fst r < length lines \<and> snd r < length lines \<and> isValidReplacement lines (snd r)"
proof (rule rr_getReplacementIndex.raw_induct [OF _ assms])
  fix f :: "CacheBlockInfo list \<Rightarrow> nat \<Rightarrow> (nat \<times> nat) option" and ls i r
  assume IH: "\<And>l k s. f l k = Some s \<Longrightarrow> k < length l \<longrightarrow>
      fst s < length l \<and> snd s < length l \<and> isValidReplacement l (snd s)"
    and body: "(let idx' = rr_next (length ls) i
      in if \<not> isValidReplacement ls idx' then f ls idx' else Some (i, idx')) = Some r"
  show "i < length ls \<longrightarrow> fst r < length ls \<and> snd r < length ls \<and> isValidReplacement ls (snd r)"
    using body IH [of ls "rr_next (length ls) i" r] rr_next_less [of i "length ls"]
    by (auto simp: Let_def split: if_splits)
qed

lemma random_pick_law:
  assumes "random_pick lines seed = Some r"
  shows "lines \<noteq> [] \<longrightarrow> fst r < length lines \<and> isValidReplacement lines (fst r)"
proof (rule random_pick.raw_induct [OF _ assms])
  fix f :: "CacheBlockInfo list \<Rightarrow> u32 \<Rightarrow> (nat \<times> u32) option" and ls sd r
  assume IH: "\<And>l k s. f l k = Some s \<Longrightarrow> l \<noteq> [] \<longrightarrow> fst s < length l \<and> isValidReplacement l (fst s)"
    and body: "(let (v, seed') = random_next sd 32768; index = unat v mod length ls
      in if isValidReplacement ls index then Some (index, seed') else f ls seed') = Some r"
  show "ls \<noteq> [] \<longrightarrow> fst r < length ls \<and> isValidReplacement ls (fst r)"
    using body IH [of ls "snd (random_next sd 32768)" r]
    by (auto simp: Let_def split: if_splits prod.splits)
qed

lemma random_victim_law:
  assumes "random_getReplacementIndex lines seed = Some (i, seed')" and "lines \<noteq> []"
  shows "i < length lines"
  using assms random_pick_law [of lines seed "(i, seed')"]
  by (auto simp: random_getReplacementIndex_def first_invalid_Some split: option.splits)

subsection \<open>SRRIP\<close>

definition srrip_wf :: "nat \<Rightarrow> u8 \<Rightarrow> u8 list \<Rightarrow> u8 \<Rightarrow> bool" where
  "srrip_wf n mx bits ptr \<longleftrightarrow> length bits = n \<and> n \<le> 256 \<and> unat ptr < n \<and> list_all (\<lambda>b. b \<le> mx) bits"

lemma list_all_update: "list_all P xs \<Longrightarrow> P v \<Longrightarrow> list_all P (xs[i := v])"
  by (cases "i < length xs") (auto simp: list_all_length nth_list_update)

lemma srrip_ways_wf:
  assumes "srrip_ways cntlr lines p k (bits, ptr, attempt, cost) = Some r"
    and "srrip_wf (length lines) (rrip_max p) bits ptr" and "rrip_insert p \<le> rrip_max p"
  shows "case r of
      Inl (i, bits', ptr', _) \<Rightarrow> i < length lines \<and> srrip_wf (length lines) (rrip_max p) bits' ptr'
    | Inr (bits', ptr', _) \<Rightarrow> srrip_wf (length lines) (rrip_max p) bits' ptr'"
  using assms
proof (induction k arbitrary: bits ptr attempt cost)
  case (Suc k)
  let ?next = "of_nat ((unat ptr + 1) mod length lines) :: u8"
  have wf: "srrip_wf (length lines) (rrip_max p) (bits[unat ptr := 0]) ptr"
    "srrip_wf (length lines) (rrip_max p) (bits[unat ptr := rrip_insert p]) ?next"
    "srrip_wf (length lines) (rrip_max p) bits ?next" and i: "unat ptr < length lines"
    using Suc.prems(2,3) unat_next_pointer [of "length lines" "unat ptr" 1]
    by (auto simp: srrip_wf_def list_all_update intro!: mod_less_divisor)
  show ?case
    using Suc.prems(1) Suc.IH [OF _ wf(1) Suc.prems(3)] Suc.IH [OF _ wf(3) Suc.prems(3)] wf(2) i
    by (auto simp: Let_def abort_simps split: if_splits)
qed auto

lemma srrip_age_wf: "srrip_wf n mx bits ptr \<Longrightarrow> srrip_wf n mx (srrip_age mx bits) ptr"
  by (auto simp: srrip_wf_def srrip_age_def list_all_iff intro: inc_le)

lemma srrip_rounds_wf:
  assumes "srrip_rounds cntlr lines p j (bits, ptr, attempt, cost) = Some (i, bits', ptr', attempt', cost')"
    and "srrip_wf (length lines) (rrip_max p) bits ptr" and "rrip_insert p \<le> rrip_max p"
  shows "i < length lines \<and> srrip_wf (length lines) (rrip_max p) bits' ptr'"
  using assms
proof (induction j arbitrary: bits ptr attempt cost)
  case (Suc j)
  from Suc.prems(1) obtain r
    where w: "srrip_ways cntlr lines p (length lines) (bits, ptr, attempt, cost) = Some r"
      and r: "(case r of Inl v \<Rightarrow> Some v | Inr (bits, ptr, attempt, cost) \<Rightarrow>
        srrip_rounds cntlr lines p j (srrip_age (rrip_max p) bits, ptr, attempt, cost))
          = Some (i, bits', ptr', attempt', cost')"
    by (auto simp: abort_simps)
  show ?case
  proof (cases r)
    case (Inl v)
    then show ?thesis
      using r srrip_ways_wf [OF w Suc.prems(2,3)] by simp
  next
    case (Inr s)
    then show ?thesis
      using r srrip_ways_wf [OF w Suc.prems(2,3)] Suc.IH Suc.prems(3)
      by (cases s) (auto dest: srrip_age_wf)
  qed
qed simp

lemma policy_wf_SRRIP:
  "policy_wf n (PolicySRRIP p) \<longleftrightarrow>
    srrip_wf n (rrip_max p) (rrip_bits p) (rrip_replacement_pointer p) \<and> rrip_insert p \<le> rrip_max p"
  by (auto simp: srrip_wf_def)

lemma srrip_victim_law:
  assumes "policy_wf (length lines) (PolicySRRIP p)"
    and "srrip_getReplacementIndex cntlr lines p info = Some (i, p', info', cost)"
  shows "i < length lines \<and> policy_wf (length lines) (PolicySRRIP p')"
proof (cases "first_invalid lines")
  case (Some k)
  then have "k < length lines" by (simp add: first_invalid_Some)
  with Some assms show ?thesis
    by (auto simp: srrip_getReplacementIndex_def list_all_update)
next
  case None
  then obtain bits ptr attempt where
    r: "srrip_rounds cntlr lines p (unat (rrip_max p) + 1) (rrip_bits p, rrip_replacement_pointer p, 0, 0)
      = Some (i, bits, ptr, attempt, cost)"
    and p': "p' = p\<lparr>rrip_bits := bits, rrip_replacement_pointer := ptr\<rparr>"
    using assms(2) by (auto simp: srrip_getReplacementIndex_def abort_simps)
  show ?thesis
    using srrip_rounds_wf [OF r] assms(1) unfolding policy_wf_SRRIP p' by simp
qed

lemma srrip_touch_law:
  assumes "policy_wf n (PolicySRRIP p)" and "srrip_updateReplacementIndex a p info = Some (p', info')"
  shows "policy_wf n (PolicySRRIP p')"
proof -
  have "rrip_bits p ! a - 1 \<le> rrip_max p" if "rrip_bits p ! a > 0" "a < n"
  proof -
    have "rrip_bits p ! a - 1 \<le> rrip_bits p ! a"
      using that(1) unat_minus_one_pos [of 0 "rrip_bits p ! a"] by (simp add: word_le_nat_alt)
    also have "\<dots> \<le> rrip_max p"
      using assms(1) that(2) by (simp add: list_all_length)
    finally show ?thesis .
  qed
  then show ?thesis
    using assms by (auto simp: srrip_updateReplacementIndex_def abort_simps list_all_update split: if_splits)
qed

subsection \<open>The dispatching methods satisfy the contract\<close>

interpretation policy: replacement_policy policy_wf "getReplacementIndex cntlr" updateReplacementIndex
  for cntlr :: qbs
proof
  fix lines p info i p' info' cost
  assume "policy_wf (length lines) p" and "lines \<noteq> []"
    and "getReplacementIndex cntlr lines p info = Some (i, p', info', cost)"
  then show "i < length lines \<and> policy_wf (length lines) p'"
    by (cases p)
      (auto simp: abort_simps simp del: policy_wf.simps(3,4,8)
        dest!: rr_victim_law random_victim_law plru_victim_law
        dest: lru_victim_law mru_victim_law nmru_victim_law nru_victim_law srrip_victim_law)
next
  fix n a p info p' info'
  assume "policy_wf n p" and "a < n" and "updateReplacementIndex n a p info = Some (p', info')"
  then show "policy_wf n p'"
    by (cases p)
      (auto simp: abort_simps lru_wf_moveToMRU simp del: policy_wf.simps(4,8)
        dest!: plru_touch_law lru_touch_law intro: nru_touch_law srrip_touch_law)
qed

definition not_round_robin :: "nat \<Rightarrow> policy \<Rightarrow> bool" where
  "not_round_robin n p \<longleftrightarrow> policy_wf n p \<and> (case p of PolicyRoundRobin idx \<Rightarrow> False | _ \<Rightarrow> True)"

lemma victim_keeps_kind:
  assumes "getReplacementIndex cntlr lines p info = Some (i, p', info', cost)"
  shows "(case p' of PolicyRoundRobin idx \<Rightarrow> False | _ \<Rightarrow> True) = (case p of PolicyRoundRobin idx \<Rightarrow> False | _ \<Rightarrow> True)"
  using assms by (cases p) (auto simp: abort_simps)

lemma touch_keeps_kind:
  assumes "updateReplacementIndex n a p info = Some (p', info')"
  shows "(case p' of PolicyRoundRobin idx \<Rightarrow> False | _ \<Rightarrow> True) = (case p of PolicyRoundRobin idx \<Rightarrow> False | _ \<Rightarrow> True)"
  using assms by (cases p) (auto simp: abort_simps)

lemma policy_invalid_first:
  assumes "not_round_robin (length lines) p" and "first_invalid lines = Some i"
  shows "\<exists>p' info' cost. getReplacementIndex cntlr lines p info = Some (i, p', info', cost)"
  using assms
  by (cases p) (auto simp: not_round_robin_def lru_getReplacementIndex_def mru_getReplacementIndex_def
      nmru_getReplacementIndex_def nru_getReplacementIndex_def plru_getReplacementIndex_def
      random_getReplacementIndex_def srrip_getReplacementIndex_def plru_updateReplacementIndex_def)

interpretation filling: invalid_first_policy not_round_robin "getReplacementIndex cntlr" updateReplacementIndex
  for cntlr :: qbs
proof
  fix lines p info i p' info' cost
  assume "not_round_robin (length lines) p" and "lines \<noteq> []"
    and "getReplacementIndex cntlr lines p info = Some (i, p', info', cost)"
  then show "i < length lines \<and> not_round_robin (length lines) p'"
    unfolding not_round_robin_def using policy.victim_law victim_keeps_kind by blast
next
  fix n a p info p' info'
  assume "not_round_robin n p" and "a < n" and "updateReplacementIndex n a p info = Some (p', info')"
  then show "not_round_robin n p'"
    unfolding not_round_robin_def using policy.touch_law touch_keeps_kind by blast
qed (rule policy_invalid_first)

section \<open>Runs of a policy\<close>

text \<open>The life of the policy of one set: touches and replacements in any order, with any lines and
  any controller.\<close>

inductive policy_run :: "nat \<Rightarrow> policy \<Rightarrow> policy \<Rightarrow> bool" for n where
  start: "policy_run n p p"
| touch: "policy_run n p p1 \<Longrightarrow> a < n \<Longrightarrow>
    updateReplacementIndex n a p1 info = Some (p2, info2) \<Longrightarrow> policy_run n p p2"
| replace: "policy_run n p p1 \<Longrightarrow> length lines = n \<Longrightarrow>
    getReplacementIndex cntlr lines p1 info = Some (v, p2, info2, cost) \<Longrightarrow> policy_run n p p2"

lemma policy_run_wf:
  "policy_run n p p' \<Longrightarrow> policy_wf n p \<Longrightarrow> 0 < n \<Longrightarrow> policy_wf n p'"
proof (induction rule: policy_run.induct)
  case (replace p p1 lines cntlr info v p2 info2 cost)
  then show ?case
    using policy.victim_law [of lines p1 cntlr info v p2 info2 cost] by auto
qed (auto dest: policy.touch_law)

lemma policy_run_kind:
  "policy_run n p p' \<Longrightarrow>
    (case p' of PolicyRoundRobin idx \<Rightarrow> False | _ \<Rightarrow> True) = (case p of PolicyRoundRobin idx \<Rightarrow> False | _ \<Rightarrow> True)"
  by (induction rule: policy_run.induct) (simp_all add: victim_keeps_kind touch_keeps_kind)

lemma create_policy_wf:
  assumes "create_policy pol n cfg_attempts cfg_bits seed = Some p" and "0 < n" and "n \<le> 256"
    and "0 < cfg_bits"
  shows "policy_wf n p"
proof -
  have "push_bit cfg_bits 1 - 1 \<noteq> (0 :: u8)"
  proof -
    have "bit (push_bit cfg_bits 1 - 1 :: u8) 0"
      using assms(4) bit_mask_iff [of cfg_bits 0, where 'a = u8]
      by (simp add: mask_eq_exp_minus_1 push_bit_eq_mult)
    then show ?thesis by auto
  qed
  then have "push_bit cfg_bits 1 - 1 - 1 \<le> (push_bit cfg_bits 1 - 1 :: u8)"
    using unat_minus_one [of "push_bit cfg_bits 1 - 1 :: u8"] by (simp add: word_le_nat_alt)
  moreover have "length (lru_init n) = n"
    by (simp add: lru_init_def)
  ultimately show ?thesis
    using assms lru_wf_init [of n]
    by (cases pol) (auto simp: CacheSetLRU_new_def CacheSetSRRIP_new_def Let_def list_all_length split: if_splits)
qed

end
