(* ===== verification/ReplacementProps.thy ===== *)
theory ReplacementProps
  imports Replacement
begin

text \<open>
  What the replacement policies choose: the contract over whole runs, the LRU victim and the effect of
  query-based selection on it, the SRRIP victim, protection of the last touched way, and the round
  robin pointer.
\<close>



section \<open>LRU victims\<close>

lemma lru_scan_fold:
  fixes bits :: "u8 list"
  assumes "k \<le> length lines" and "\<forall>i < length lines. isValidReplacement lines i"
  shows "\<exists>index mb. fold (\<lambda>i (index, max_bits).
         if bits ! i > max_bits \<and> isValidReplacement lines i then (i, bits ! i) else (index, max_bits))
       [0..<k] (index0, 0) = (index, mb) \<and> (\<forall>j < k. bits ! j \<le> mb) \<and>
       (mb = 0 \<and> index = index0 \<or> index < k \<and> bits ! index = mb)"
  using assms(1)
proof (induction k)
  case (Suc k)
  then obtain index mb where IH: "fold (\<lambda>i (index, max_bits).
         if bits ! i > max_bits \<and> isValidReplacement lines i then (i, bits ! i) else (index, max_bits))
       [0..<k] (index0, 0) = (index, mb)" "\<forall>j < k. bits ! j \<le> mb"
       "mb = 0 \<and> index = index0 \<or> index < k \<and> bits ! index = mb"
    by auto
  have "isValidReplacement lines k"
    using Suc.prems assms(2) by simp
  with IH show ?case
    by (cases "bits ! k > mb") (auto simp: less_Suc_eq word_gt_0)
qed simp

lemma lru_scan_oldest:
  assumes wf: "lru_wf bits" and len: "length bits = length lines" and "lines \<noteq> []"
    and valid: "\<forall>i < length lines. isValidReplacement lines i" and "index0 < length lines"
    and "index0 = 0 \<or> 1 < length lines"
  shows "lru_scan lines bits index0 < length lines \<and>
    unat (bits ! lru_scan lines bits index0) = length lines - 1"
proof -
  let ?n = "length lines"
  obtain index mb where "fold (\<lambda>i (index, max_bits).
         if bits ! i > max_bits \<and> isValidReplacement lines i then (i, bits ! i) else (index, max_bits))
       [0..<?n] (index0, 0) = (index, mb)" and f2: "\<forall>j < ?n. bits ! j \<le> mb"
    "mb = 0 \<and> index = index0 \<or> index < ?n \<and> bits ! index = mb"
    using lru_scan_fold [OF order.refl valid, of bits index0] by blast
  then have f: "lru_scan lines bits index0 = index" "\<forall>j < ?n. bits ! j \<le> mb"
    "mb = 0 \<and> index = index0 \<or> index < ?n \<and> bits ! index = mb"
    unfolding lru_scan_def by (simp_all only: fst_conv simp_thms)
  obtain m where m: "m < ?n" "unat (bits ! m) = ?n - 1"
    using lru_wf_obtain [OF wf, of "?n - 1"] len assms(3) by auto
  have "?n - 1 \<le> unat mb"
    using f(2) m by (metis word_le_nat_alt)
  show ?thesis
  proof (cases "mb = 0")
    case False
    then have i: "index < ?n" "bits ! index = mb" using f(3) by auto
    then have "unat (bits ! index) \<le> ?n - 1"
      using lru_wf_age [OF wf, of index] len by simp
    with i \<open>?n - 1 \<le> unat mb\<close> f(1) show ?thesis by simp
  next
    case True
    then have "?n = 1" using \<open>?n - 1 \<le> unat mb\<close> assms(3) by (cases lines) auto
    then have "bits ! 0 = 0" using f(2) True by simp
    have "index < ?n \<and> bits ! index = 0"
      using f(3) True \<open>?n = 1\<close> assms(5) \<open>bits ! 0 = 0\<close> by auto
    then show ?thesis using f(1) \<open>?n = 1\<close> by auto
  qed
qed

lemma last_recency:
  assumes wf: "lru_wf bits" and i: "i < length bits" and age: "unat (bits ! i) = length bits - 1"
  shows "last (recency bits) = i"
proof -
  have ne: "recency bits \<noteq> []"
    using i by (metis length_0_conv length_recency not_less0)
  have mem: "i \<in> set (recency bits)" using i by simp
  have "bits ! i \<le> bits ! last (recency bits)"
  proof (cases "i = last (recency bits)")
    case False
    have "sorted_wrt (\<lambda>i j. bits ! i \<le> bits ! j) (butlast (recency bits) @ [last (recency bits)])"
      using sorted_recency ne by simp
    moreover have "i \<in> set (butlast (recency bits))"
      using mem False ne by (metis append_butlast_last_id in_set_conv_decomp rotate1.simps(2) set_ConsD set_rotate1)
    ultimately show ?thesis
      by (simp add: sorted_wrt_append)
  qed simp
  moreover have l: "last (recency bits) < length bits"
    using last_in_set [OF ne] by simp
  ultimately have "unat (bits ! last (recency bits)) = unat (bits ! i)"
    using lru_wf_age [OF wf l] age by (simp add: word_le_nat_alt)
  then show ?thesis
    using lru_wf_inj [OF wf l i] by simp
qed

lemma remove1_last: "distinct xs \<Longrightarrow> xs \<noteq> [] \<Longrightarrow> remove1 (last xs) xs = butlast xs"
  by (cases xs rule: rev_cases) (auto simp: remove1_append)

text \<open>One pass of the attempt loop with the oldest way accepted.\<close>

lemma lru_attempt_oldest:
  assumes "lru_wf bits" and "length bits = length lines" and "lines \<noteq> []"
    and "\<forall>i < length lines. isValidReplacement lines i" and "index0 < length lines"
    and "index0 = 0 \<or> 1 < length lines"
    and "qbs_query cntlr num attempt (lines ! last (recency bits)) = Some False"
    and "si_incrementAttempt attempt info = Some info'"
  shows "lru_attempt cntlr lines num attempt (index0, bits, info, cost) =
    Some (last (recency bits), moveToMRU (last (recency bits)) bits, info', cost)"
proof -
  have "lru_scan lines bits index0 < length lines \<and> lru_scan lines bits index0 = last (recency bits)"
    using lru_scan_oldest [OF assms(1-6)] last_recency [OF assms(1), of "lru_scan lines bits index0"] assms(2)
    by simp
  then show ?thesis
    using assms(7,8) by (simp add: lru_attempt_def Let_def)
qed

lemma full_set_no_invalid: "\<forall>b \<in> set lines. isValid b \<Longrightarrow> first_invalid lines = None"
  by (simp add: first_invalid_None)

lemma recency_touch_oldest:
  assumes "lru_wf bits" and "bits \<noteq> []"
  shows "recency (moveToMRU (last (recency bits)) bits) = last (recency bits) # butlast (recency bits)"
proof -
  have ne: "recency bits \<noteq> []"
    using assms(2) by (metis length_0_conv length_recency)
  then have "last (recency bits) < length bits"
    using last_in_set [of "recency bits"] by simp
  then show ?thesis
    using recency_moveToMRU [OF assms(1)] remove1_last [OF distinct_recency ne] by simp
qed

text \<open>C28. LRU replacement refines the recency list: in a full set whose lines may all be replaced,
  \<^verbatim>\<open>getReplacementIndex\<close> (one attempt, the \<^verbatim>\<open>lru\<close> configuration) returns the least recently used way
  and moves it to the front of the recency list, leaving the order of the others as it was.\<close>

theorem lru_replaces_least_recent:
  assumes "lru_wf (lru_bits p)" and "length (lru_bits p) = length lines" and "lines \<noteq> []"
    and "\<forall>b \<in> set lines. isValid b \<and> bi_cstate b \<noteq> SHARED_UPGRADING"
    and "lru_num_attempts p = 1" and "si_attempts info = None"
  shows "\<exists>p'. lru_getReplacementIndex cntlr lines p info = Some (last (recency (lru_bits p)), p', info, 0) \<and>
    recency (lru_bits p') = last (recency (lru_bits p)) # butlast (recency (lru_bits p))"
proof -
  have none: "first_invalid lines = None"
    using assms(4) by (intro full_set_no_invalid) simp
  have "lru_attempt cntlr lines 1 0 (0, lru_bits p, info, 0) =
      Some (last (recency (lru_bits p)), moveToMRU (last (recency (lru_bits p))) (lru_bits p), info, 0)"
    by (rule lru_attempt_oldest)
      (use assms in \<open>auto simp: isValidReplacement_def qbs_query_def si_incrementAttempt_def\<close>)
  then show ?thesis
    using none assms(5) recency_touch_oldest [OF assms(1)] assms(2,3)
    by (fastforce simp: lru_getReplacementIndex_def)
qed

theorem lru_replaces_least_recent_witness:
  "\<exists>p'. lru_getReplacementIndex None (map (\<lambda>t. CacheBlockInfo_new t SHARED 0 BaseBlock) [7, 8, 9])
      \<lparr>lru_bits = [1, 2, 0], lru_num_attempts = 1\<rparr> (CacheSetInfoLRU_new 3 1) =
      Some (last (recency [1, 2, 0]), p', CacheSetInfoLRU_new 3 1, 0) \<and>
    recency (lru_bits p') = last (recency [1, 2, 0]) # butlast (recency [1, 2, 0])"
  using lru_replaces_least_recent [of "\<lparr>lru_bits = [1, 2, 0], lru_num_attempts = 1\<rparr>"
      "map (\<lambda>t. CacheBlockInfo_new t SHARED 0 BaseBlock) [7, 8, 9]" "CacheSetInfoLRU_new 3 1" None]
  by (simp add: lru_wf_def CacheBlockInfo_new_def isValid_def CacheSetInfoLRU_new_def)

text \<open>C35. With query-based selection the loop does not stop at an accepted victim. With two attempts
  and a controller that rejects nothing, \<^verbatim>\<open>getReplacementIndex\<close> evicts the second oldest way, and the
  oldest one stays as the second youngest.\<close>

theorem lru_qbs_evicts_second_oldest:
  assumes "lru_wf (lru_bits p)" and "length (lru_bits p) = length lines" and "2 \<le> length lines"
    and "\<forall>b \<in> set lines. isValid b \<and> bi_cstate b \<noteq> SHARED_UPGRADING"
    and "lru_num_attempts p = 2" and "si_attempts info = Some [a0, a1]"
    and "recency (lru_bits p) = rest @ [second, oldest]"
  shows "\<exists>p' info'. lru_getReplacementIndex (Some (\<lambda>_. False)) lines p info = Some (second, p', info', 0) \<and>
    recency (lru_bits p') = [second, oldest] @ rest"
proof -
  let ?n = "length lines"
  let ?b1 = "moveToMRU oldest (lru_bits p)"
  have none: "first_invalid lines = None"
    using assms(4) by (intro full_set_no_invalid) simp
  have valid: "\<forall>i < ?n. isValidReplacement lines i"
    using assms(4) by (auto simp: isValidReplacement_def)
  have ne: "lines \<noteq> []" "lru_bits p \<noteq> []"
    using assms(2,3) by auto
  have i0: "si_incrementAttempt 0 info = Some (info\<lparr>si_attempts := Some [a0 + 1, a1]\<rparr>)"
    by (simp add: si_incrementAttempt_def assms(6))
  have i1: "si_incrementAttempt 1 (info\<lparr>si_attempts := Some [a0 + 1, a1]\<rparr>) =
      Some (info\<lparr>si_attempts := Some [a0 + 1, a1 + 1]\<rparr>)"
    by (simp add: si_incrementAttempt_def)
  have oldest: "last (recency (lru_bits p)) = oldest" "oldest < ?n"
    using assms(2,7) set_recency [of "lru_bits p"] by auto
  have r1: "recency ?b1 = oldest # rest @ [second]"
    using recency_touch_oldest [OF assms(1) ne(2)] assms(7) by (simp add: oldest butlast_append)
  have wf1: "lru_wf ?b1"
    using assms(1,2) oldest(2) by (simp add: lru_wf_moveToMRU)
  have s0: "lru_attempt (Some (\<lambda>_. False)) lines 2 0 (0, lru_bits p, info, 0) =
      Some (oldest, ?b1, info\<lparr>si_attempts := Some [a0 + 1, a1]\<rparr>, 0)"
    unfolding oldest(1) [symmetric]
    by (rule lru_attempt_oldest) (use assms(1,2) ne valid i0 in \<open>auto simp: qbs_query_def\<close>)
  have s1: "lru_attempt (Some (\<lambda>_. False)) lines 2 1
      (oldest, ?b1, info\<lparr>si_attempts := Some [a0 + 1, a1]\<rparr>, 0) =
      Some (last (recency ?b1), moveToMRU (last (recency ?b1)) ?b1,
        info\<lparr>si_attempts := Some [a0 + 1, a1 + 1]\<rparr>, 0)"
    by (rule lru_attempt_oldest) (use wf1 assms(2,3) ne valid i1 oldest in \<open>auto simp: qbs_query_def\<close>)
  have r2: "recency (moveToMRU second ?b1) = second # oldest # rest"
    using recency_touch_oldest [OF wf1] ne(2) r1 by (metis butlast.simps(2) butlast_snoc last.simps
        last_snoc length_greater_0_conv length_moveToMRU snoc_eq_iff_butlast)
  show ?thesis
    using none s0 s1 r1 r2 assms(5)
    by (simp add: lru_getReplacementIndex_def upt_rec)
qed

theorem lru_qbs_evicts_second_oldest_witness:
  "\<exists>p' info'. lru_getReplacementIndex (Some (\<lambda>_. False))
      (map (\<lambda>t. CacheBlockInfo_new t SHARED 0 BaseBlock) [7, 8, 9])
      \<lparr>lru_bits = [0, 1, 2], lru_num_attempts = 2\<rparr> (CacheSetInfoLRU_new 3 2) = Some (1, p', info', 0) \<and>
    recency (lru_bits p') = [1, 2] @ [0]"
proof (rule lru_qbs_evicts_second_oldest)
  show "recency (lru_bits \<lparr>lru_bits = [0, 1, 2], lru_num_attempts = 2\<rparr>) = [0] @ [1, 2]"
    by (simp add: recency_def upt_rec)
  show "si_attempts (CacheSetInfoLRU_new 3 2) = Some [0, 0]"
    using replicate_Suc [of 1 "0 :: u64"] by (simp add: CacheSetInfoLRU_new_def numeral_2_eq_2 [symmetric])
qed (auto simp: lru_wf_def CacheBlockInfo_new_def isValid_def)

section \<open>Protection of the last touched way\<close>

lemma nmru_victim_not_mru:
  assumes "policy_wf (length lines) (PolicyNMRU p)" and "first_invalid lines = None"
    and "nmru_getReplacementIndex lines p = Some (v, p')"
  shows "nmru_bits p ! v \<noteq> 0"
proof -
  obtain q q' where s: "pointer_scan (\<lambda>i. nmru_bits p ! i \<noteq> 0 \<and> isValidReplacement lines i)
        (length lines) (length lines) (nmru_replacement_pointer p) = Some (q, q')" and "v = unat q"
    using assms(2,3) by (auto simp: nmru_getReplacementIndex_def abort_simps)
  then show ?thesis
    using pointer_scan_Some [OF s] assms(1) lru_wf_length [of "nmru_bits p"] by auto
qed

lemma plru_victim_not_touched:
  assumes upd: "plru_updateReplacementIndex n a b = Some b'" and "length b = 8" and "a < n"
  shows "plru_victim n b' \<noteq> Some a"
proof -
  consider "n = 4" | "n = 8"
    using upd by (auto simp: plru_updateReplacementIndex_def split: if_splits)
  then show ?thesis
  proof cases
    case 1
    then have "a = 0 \<or> a = 1 \<or> a = 2 \<or> a = 3"
      using assms(3) by linarith
    with 1 upd assms(2) show ?thesis
      by (elim disjE) (auto simp: plru_updateReplacementIndex_def plru_victim_def)
  next
    case 2
    then have "a = 0 \<or> a = 1 \<or> a = 2 \<or> a = 3 \<or> a = 4 \<or> a = 5 \<or> a = 6 \<or> a = 7"
      using assms(3) by linarith
    with 2 upd assms(2) show ?thesis
      by (elim disjE) (auto simp: plru_updateReplacementIndex_def plru_victim_def)
  qed
qed

lemma lru_victim_not_youngest:
  assumes wf: "lru_wf (lru_bits p)" and len: "length (lru_bits p) = length lines" "2 \<le> length lines"
    and lines: "\<forall>b \<in> set lines. isValid b \<and> bi_cstate b \<noteq> SHARED_UPGRADING"
    and "lru_num_attempts p = 1"
    and v: "lru_getReplacementIndex cntlr lines p info = Some (v, p', info', cost)"
    and a: "a < length lines" "lru_bits p ! a = 0"
  shows "v \<noteq> a"
proof -
  have "first_invalid lines = None"
    using lines by (intro full_set_no_invalid) simp
  then obtain bits where "lru_attempt cntlr lines 1 0 (0, lru_bits p, info, 0) = Some (v, bits, info', cost)"
    using v assms(5) by (auto simp: lru_getReplacementIndex_def abort_simps)
  then have "v = lru_scan lines (lru_bits p) 0"
    by (auto simp: lru_attempt_def Let_def abort_simps split: if_splits)
  moreover have "unat (lru_bits p ! lru_scan lines (lru_bits p) 0) = length lines - 1"
  proof -
    have "lines \<noteq> []" using len(2) by auto
    then show ?thesis
      using lru_scan_oldest [OF wf len(1), of 0] lines by (auto simp: isValidReplacement_def)
  qed
  ultimately show ?thesis
    using a(2) len(2) by auto
qed

text \<open>C32. LRU, not-MRU and tree-PLRU protect the way touched last: in a full set with at least two
  replaceable ways, the next victim is a different way.\<close>

theorem last_touched_way_survives:
  assumes "policy_wf n p" and "length lines = n" and "2 \<le> n" and "a < n"
    and "\<forall>b \<in> set lines. isValid b \<and> bi_cstate b \<noteq> SHARED_UPGRADING"
    and "case p of PolicyLRU q \<Rightarrow> lru_num_attempts q = 1 | PolicyNMRU q \<Rightarrow> True | PolicyPLRU b \<Rightarrow> True | _ \<Rightarrow> False"
    and "updateReplacementIndex n a p info = Some (p1, info1)"
    and "getReplacementIndex cntlr lines p1 info1 = Some (v, p2, info2, cost)"
  shows "v \<noteq> a"
proof -
  have none: "first_invalid lines = None"
    using assms(5) by (intro full_set_no_invalid) simp
  have wf1: "policy_wf n p1"
    using policy.touch_law [OF assms(1,4,7)] .
  consider (lru) q where "p = PolicyLRU q" "lru_num_attempts q = 1" | (nmru) q where "p = PolicyNMRU q"
    | (plru) b where "p = PolicyPLRU b"
    using assms(6) by (auto split: policy.splits)
  then show ?thesis
  proof cases
    case lru
    let ?q1 = "q\<lparr>lru_bits := moveToMRU a (lru_bits q)\<rparr>"
    have p1: "p1 = PolicyLRU ?q1"
      using assms(7) lru by (auto simp: abort_simps lru_updateReplacementIndex_def)
    have "lru_bits ?q1 ! a = 0"
      using assms(1,4) lru by (simp add: moveToMRU_map)
    moreover obtain q2 where "lru_getReplacementIndex cntlr lines ?q1 info1 = Some (v, q2, info2, cost)"
      using assms(8) by (auto simp: p1 abort_simps)
    ultimately show ?thesis
      using lru_victim_not_youngest [of ?q1 lines cntlr info1 v q2 info2 cost a] wf1 assms(2-5) lru(2)
      by (simp add: p1)
  next
    case nmru
    let ?q1 = "q\<lparr>nmru_bits := moveToMRU a (nmru_bits q)\<rparr>"
    have p1: "p1 = PolicyNMRU ?q1"
      using assms(7) nmru by simp
    obtain q2 where "nmru_getReplacementIndex lines ?q1 = Some (v, q2)"
      using assms(8) by (auto simp: p1 abort_simps)
    then have "nmru_bits ?q1 ! v \<noteq> 0"
      using nmru_victim_not_mru [of lines ?q1 v q2] wf1 none assms(2) by (simp add: p1)
    moreover have "nmru_bits ?q1 ! a = 0"
      using assms(1,4) nmru by (simp add: moveToMRU_map)
    ultimately show ?thesis by auto
  next
    case plru
    obtain b1 where b1: "plru_updateReplacementIndex n a b = Some b1" "p1 = PolicyPLRU b1"
      using assms(7) plru by (auto simp: abort_simps)
    then have "plru_victim n b1 = Some v"
      using assms(2,8) none by (auto simp: plru_getReplacementIndex_def abort_simps)
    then show ?thesis
      using plru_victim_not_touched [OF b1(1) _ assms(4)] assms(1) plru by auto
  qed
qed

theorem last_touched_way_survives_witness:
  "\<exists>p1 v p2. updateReplacementIndex 4 2 (PolicyPLRU [0, 0, 0, 0, 0, 0, 0, 0]) (CacheSetInfoLRU_new 4 1)
        = Some (p1, CacheSetInfoLRU_new 4 1) \<and>
     getReplacementIndex None (replicate 4 (CacheBlockInfo_new 1 SHARED 0 BaseBlock)) p1
        (CacheSetInfoLRU_new 4 1) = Some (v, p2, CacheSetInfoLRU_new 4 1, 0) \<and> v \<noteq> 2"
proof -
  let ?ls = "replicate 4 (CacheBlockInfo_new 1 SHARED 0 BaseBlock)"
  have u: "updateReplacementIndex 4 2 (PolicyPLRU [0, 0, 0, 0, 0, 0, 0, 0]) (CacheSetInfoLRU_new 4 1)
      = Some (PolicyPLRU [0, 0, 1, 0, 0, 0, 0, 0], CacheSetInfoLRU_new 4 1)"
    by (simp add: plru_updateReplacementIndex_def)
  have "first_invalid ?ls = None"
    by (rule full_set_no_invalid) (simp add: isValid_def CacheBlockInfo_new_def)
  then have g: "getReplacementIndex None ?ls (PolicyPLRU [0, 0, 1, 0, 0, 0, 0, 0]) (CacheSetInfoLRU_new 4 1)
      = Some (0, PolicyPLRU [1, 1, 1, 0, 0, 0, 0, 0], CacheSetInfoLRU_new 4 1, 0)"
    by (simp add: plru_getReplacementIndex_def plru_victim_def isValidReplacement_def CacheBlockInfo_new_def
        plru_updateReplacementIndex_def)
  have "(0 :: nat) \<noteq> 2"
    by (rule last_touched_way_survives [OF _ _ _ _ _ _ u g])
      (simp_all add: isValid_def CacheBlockInfo_new_def)
  with u g show ?thesis by blast
qed

section \<open>Round robin\<close>

text \<open>How far the pointer has to go back to reach a replaceable way.\<close>

lemma rr_next_steps: "k \<le> i \<Longrightarrow> (rr_next n ^^ k) i = i - k"
  by (induction k) (auto simp: rr_next_def)

lemma rr_reaches:
  assumes "i < n" and "j < n"
  shows "\<exists>k. (rr_next n ^^ Suc k) i = j"
proof (cases "j < i")
  case True
  then have "(rr_next n ^^ Suc (i - j - 1)) i = j"
    by (subst rr_next_steps) auto
  then show ?thesis ..
next
  case False
  have "(rr_next n ^^ Suc (n - 1 - j + i)) i = (rr_next n ^^ (n - 1 - j)) ((rr_next n ^^ Suc i) i)"
  proof -
    have "Suc (n - 1 - j + i) = (n - 1 - j) + Suc i" by simp
    then show ?thesis by (simp only: funpow_add o_apply)
  qed
  also have "(rr_next n ^^ Suc i) i = n - 1"
    by (simp add: rr_next_steps) (simp add: rr_next_def)
  also have "(rr_next n ^^ (n - 1 - j)) (n - 1) = j"
    using assms by (subst rr_next_steps) auto
  finally show ?thesis ..
qed

lemma rr_terminates_steps:
  assumes "isValidReplacement lines ((rr_next (length lines) ^^ Suc k) i)"
  shows "\<exists>r. rr_getReplacementIndex lines i = Some r"
  using assms
proof (induction k arbitrary: i)
  case 0
  then show ?case
    by (subst rr_getReplacementIndex.simps) (simp add: Let_def)
next
  case (Suc k)
  then show ?case
    using Suc.IH [of "rr_next (length lines) i"]
    by (subst rr_getReplacementIndex.simps) (simp add: Let_def funpow_swap1)
qed

text \<open>C34. The recursion of the round robin policy ends exactly when some way may be replaced, and its
  result is a way of the set.\<close>

theorem rr_returns_iff_replaceable:
  assumes "idx < length lines"
  shows "(\<exists>i idx'. rr_getReplacementIndex lines idx = Some (i, idx') \<and> i < length lines) \<longleftrightarrow>
    (\<exists>b \<in> set lines. bi_cstate b \<noteq> SHARED_UPGRADING)"
proof
  assume "\<exists>i idx'. rr_getReplacementIndex lines idx = Some (i, idx') \<and> i < length lines"
  then obtain r where r: "rr_getReplacementIndex lines idx = Some r" by auto
  show "\<exists>b \<in> set lines. bi_cstate b \<noteq> SHARED_UPGRADING"
    using rr_victim_law [OF r] assms unfolding isValidReplacement_def by (metis nth_mem)
next
  assume "\<exists>b \<in> set lines. bi_cstate b \<noteq> SHARED_UPGRADING"
  then obtain j where j: "j < length lines" "isValidReplacement lines j"
    unfolding isValidReplacement_def by (metis in_set_conv_nth)
  obtain k where "(rr_next (length lines) ^^ Suc k) idx = j"
    using rr_reaches [OF assms j(1)] ..
  then obtain r where r: "rr_getReplacementIndex lines idx = Some r"
    using rr_terminates_steps [of lines k idx] j(2) by auto
  then show "\<exists>i idx'. rr_getReplacementIndex lines idx = Some (i, idx') \<and> i < length lines"
    using rr_victim_law [OF r] assms by (metis prod.collapse)
qed

theorem rr_returns_iff_replaceable_witness:
  "(\<exists>i idx'. rr_getReplacementIndex [CacheBlockInfo_create PR_L1_CACHE] 0 = Some (i, idx') \<and>
      i < length [CacheBlockInfo_create PR_L1_CACHE]) \<longleftrightarrow>
    (\<exists>b \<in> set [CacheBlockInfo_create PR_L1_CACHE]. bi_cstate b \<noteq> SHARED_UPGRADING)"
  by (rule rr_returns_iff_replaceable) simp


section \<open>SRRIP victims\<close>

lemma srrip_ways_hit:
  assumes "rrip_num_attempts p = 1" and "srrip_wf (length lines) mx bits ptr" and "rrip_max p = mx"
    and "j < k" and "mx \<le> bits ! ((unat ptr + j) mod length lines)"
  shows "\<exists>i bits' ptr'. srrip_ways cntlr lines p k (bits, ptr, 0, 0) = Some (Inl (i, bits', ptr', 0, 0)) \<and>
    i < length lines \<and> mx \<le> bits ! i"
  using assms
proof (induction k arbitrary: ptr j)
  case (Suc k)
  let ?n = "length lines"
  let ?next = "of_nat ((unat ptr + 1) mod ?n) :: u8"
  have ptr: "unat ptr < ?n" "?n \<le> 256"
    using Suc.prems(2) by (simp_all add: srrip_wf_def)
  have next_eq: "unat ?next = (unat ptr + 1) mod ?n"
    by (rule unat_next_pointer) (use ptr in auto)
  show ?case
  proof (cases "mx \<le> bits ! unat ptr")
    case True
    then show ?thesis
      using Suc.prems(1,3) ptr by (simp add: Let_def qbs_query_def)
  next
    case False
    then obtain i where j: "j = Suc i"
      using Suc.prems(5) ptr(1) by (cases j) auto
    have "(unat ?next + i) mod ?n = (unat ptr + j) mod ?n"
      unfolding next_eq j by (simp add: mod_simps)
    moreover have "unat ?next < ?n"
      unfolding next_eq using ptr by (intro mod_less_divisor) auto
    then have "srrip_wf ?n mx bits ?next"
      using Suc.prems(2) by (simp add: srrip_wf_def)
    ultimately show ?thesis
      using Suc.IH [of ?next i] Suc.prems j False by (simp add: Let_def)
  qed
qed simp

lemma srrip_ways_miss:
  assumes "rrip_max p = mx" and "unat ptr < length lines" and "length lines \<le> 256"
    and "\<forall>i < length lines. bits ! i < mx"
  shows "srrip_ways cntlr lines p k (bits, ptr, 0, 0) =
    Some (Inr (bits, of_nat ((unat ptr + k) mod length lines), 0, 0))"
  using assms(2)
proof (induction k arbitrary: ptr)
  case 0
  then show ?case by simp
next
  case (Suc k)
  let ?n = "length lines"
  let ?next = "of_nat ((unat ptr + 1) mod ?n) :: u8"
  have next_eq: "unat ?next = (unat ptr + 1) mod ?n"
    by (rule unat_next_pointer) (use Suc.prems assms(3) in auto)
  have "unat ?next < ?n"
    unfolding next_eq using Suc.prems by (intro mod_less_divisor) auto
  moreover have "\<not> mx \<le> bits ! unat ptr"
    using Suc.prems assms(4) by (auto simp: not_le)
  moreover have "(unat ?next + k) mod ?n = (unat ptr + Suc k) mod ?n"
    unfolding next_eq by (simp add: mod_simps)
  ultimately show ?case
    using Suc.IH [of ?next] assms(1) by (simp add: Let_def)
qed

lemma srrip_rounds_victim:
  assumes "rrip_num_attempts p = 1" and "srrip_wf (length lines) mx bits ptr" and "rrip_max p = mx"
    and "m < length lines" and "unat mx < unat (bits ! m) + J"
  shows "\<exists>i bits' ptr'. srrip_rounds cntlr lines p J (bits, ptr, 0, 0) = Some (i, bits', ptr', 0, 0) \<and>
    i < length lines \<and> (\<forall>j < length lines. bits ! j \<le> bits ! i)"
  using assms(2,5)
proof (induction J arbitrary: bits)
  case 0
  then have "bits ! m \<le> mx"
    using assms(4) by (simp add: srrip_wf_def list_all_length)
  with 0 show ?case by (simp add: word_le_nat_alt)
next
  case (Suc J)
  let ?n = "length lines"
  have wf: "length bits = ?n" "?n \<le> 256" "unat ptr < ?n" "\<forall>j < ?n. bits ! j \<le> mx"
    using Suc.prems(1) by (auto simp: srrip_wf_def list_all_length)
  show ?case
  proof (cases "\<exists>h < ?n. mx \<le> bits ! h")
    case True
    then obtain h where h: "h < ?n" "mx \<le> bits ! h" by blast
    have "(unat ptr + (h + ?n - unat ptr) mod ?n) mod ?n = h"
      using h(1) wf(3) by (simp add: mod_simps)
    moreover have "(h + ?n - unat ptr) mod ?n < ?n"
      using h(1) by (intro mod_less_divisor) auto
    ultimately obtain i bits' ptr' where
      "srrip_ways cntlr lines p ?n (bits, ptr, 0, 0) = Some (Inl (i, bits', ptr', 0, 0))"
      "i < ?n" "mx \<le> bits ! i"
      using srrip_ways_hit [OF assms(1) Suc.prems(1) assms(3), of "(h + ?n - unat ptr) mod ?n" ?n cntlr] h(2) by auto
    then show ?thesis
      using wf(4) by (auto intro: order.trans)
  next
    case False
    then have less: "\<forall>i < ?n. bits ! i < mx" by (auto simp: not_le)
    let ?a = "srrip_age mx bits"
    have age: "unat (?a ! i) = Suc (unat (bits ! i))" if "i < ?n" for i
      using less that wf(1) unat_plus_one [of "bits ! i" mx] by (simp add: srrip_age_def)
    have ptr_back: "of_nat ((unat ptr + ?n) mod ?n) = ptr"
      using wf(3) by simp
    have ways: "srrip_ways cntlr lines p ?n (bits, ptr, 0, 0) = Some (Inr (bits, ptr, 0, 0))"
      using srrip_ways_miss [OF assms(3) wf(3,2) less, of cntlr ?n] unfolding ptr_back .
    have "unat mx < unat (?a ! m) + J"
      using Suc.prems(2) age [OF assms(4)] by simp
    from Suc.IH [OF srrip_age_wf [OF Suc.prems(1)] this] obtain i bits' ptr' where
      "srrip_rounds cntlr lines p J (?a, ptr, 0, 0) = Some (i, bits', ptr', 0, 0)" and i: "i < ?n"
      and max: "\<forall>j < ?n. ?a ! j \<le> ?a ! i"
      by blast
    moreover have "\<forall>j < ?n. bits ! j \<le> bits ! i"
      using max i age by (auto simp: word_le_nat_alt)
    ultimately show ?thesis
      using ways assms(3) by simp
  qed
qed

text \<open>C33. SRRIP always finds a victim in a full set of replaceable lines, within the
  \<^verbatim>\<open>m_rrip_max + 1\<close> rounds of its loop, and the victim is a way whose re-reference prediction was the
  most distant before the search.\<close>

theorem srrip_victim_most_distant:
  assumes "policy_wf (length lines) (PolicySRRIP p)" and "lines \<noteq> []"
    and "\<forall>b \<in> set lines. isValid b \<and> bi_cstate b \<noteq> SHARED_UPGRADING"
    and "rrip_num_attempts p = 1" and "si_attempts info = None"
  shows "\<exists>i p'. srrip_getReplacementIndex cntlr lines p info = Some (i, p', info, 0) \<and> i < length lines \<and>
    (\<forall>j < length lines. rrip_bits p ! j \<le> rrip_bits p ! i)"
proof -
  have none: "first_invalid lines = None"
    using assms(3) by (intro full_set_no_invalid) simp
  have "\<exists>i bits ptr. srrip_rounds cntlr lines p (unat (rrip_max p) + 1)
      (rrip_bits p, rrip_replacement_pointer p, 0, 0) = Some (i, bits, ptr, 0, 0) \<and>
    i < length lines \<and> (\<forall>j < length lines. rrip_bits p ! j \<le> rrip_bits p ! i)"
    by (rule srrip_rounds_victim [of p lines "rrip_max p" _ _ 0])
      (use assms in \<open>auto simp: srrip_wf_def\<close>)
  then show ?thesis
    using none assms(3,5)
    by (fastforce simp: srrip_getReplacementIndex_def si_incrementAttempt_def isValidReplacement_def)
qed

theorem srrip_victim_most_distant_witness:
  "\<exists>i p'. srrip_getReplacementIndex None (replicate 2 (CacheBlockInfo_new 1 SHARED 0 BaseBlock))
      (CacheSetSRRIP_new 3 2 1) (CacheSetInfoLRU_new 2 1) = Some (i, p', CacheSetInfoLRU_new 2 1, 0) \<and>
    i < length (replicate 2 (CacheBlockInfo_new 1 SHARED 0 BaseBlock)) \<and>
    (\<forall>j < length (replicate 2 (CacheBlockInfo_new 1 SHARED 0 BaseBlock)).
      rrip_bits (CacheSetSRRIP_new 3 2 1) ! j \<le> rrip_bits (CacheSetSRRIP_new 3 2 1) ! i)"
  by (rule srrip_victim_most_distant)
    (simp_all add: CacheSetSRRIP_new_def CacheSetInfoLRU_new_def CacheBlockInfo_new_def isValid_def list_all_length)

section \<open>NRU\<close>

text \<open>The NRU policy resets its reference bits by counting touches, not set bits: four touches of
  the same way of a four-way set clear every bit although only one of them was ever set.\<close>

theorem nru_resets_after_repeated_touches:
  "fold nru_updateReplacementIndex [0, 0, 0]
     \<lparr>nru_bits = [0, 0, 0, 0], nru_num_bits_set = 0, nru_replacement_pointer = 0\<rparr> =
     \<lparr>nru_bits = [1, 0, 0, 0], nru_num_bits_set = 3, nru_replacement_pointer = 0\<rparr> \<and>
   fold nru_updateReplacementIndex [0, 0, 0, 0]
     \<lparr>nru_bits = [0, 0, 0, 0], nru_num_bits_set = 0, nru_replacement_pointer = 0\<rparr> =
     \<lparr>nru_bits = [0, 0, 0, 0], nru_num_bits_set = 0, nru_replacement_pointer = 0\<rparr>"
  by (simp add: nru_updateReplacementIndex_def Let_def)

end
