(* ===== verification/CacheSets.thy ===== *)
theory CacheSets
  imports Replacement
begin

text \<open>
  A set of a cache, \<^verbatim>\<open>cache/cache_set.cc\<close>: lookup by tag, reading and writing line data, invalidation
  and insertion with eviction. The data array \<^verbatim>\<open>m_blocks\<close> exists only when a fault injection manager is
  configured, and is optional here. A set is abstracted to the map from tags to lines that it holds.
\<close>

section \<open>Definitions\<close>

record CacheSet =
  cs_lines :: "CacheBlockInfo list"
  cs_blocks :: "u8 list option"
  cs_blocksize :: nat
  cs_policy :: policy

definition CacheSet_new :: "bool \<Rightarrow> cache_t \<Rightarrow> nat \<Rightarrow> nat \<Rightarrow> policy \<Rightarrow> CacheSet" where
  "CacheSet_new fault_injection cache_type associativity blocksize p =
     \<lparr>cs_lines = replicate associativity (CacheBlockInfo_create cache_type),
      cs_blocks = (if fault_injection then Some (replicate (associativity * blocksize) 0) else None),
      cs_blocksize = blocksize, cs_policy = p\<rparr>"

text \<open>\<^verbatim>\<open>memcpy\<close> of \<open>n\<close> bytes from and to position \<open>pos\<close> of an array.\<close>

definition bytes_at :: "u8 list \<Rightarrow> nat \<Rightarrow> nat \<Rightarrow> u8 list option" where
  "bytes_at xs pos n = (if pos + n \<le> length xs then Some (take n (drop pos xs)) else None)"

definition bytes_put :: "u8 list \<Rightarrow> nat \<Rightarrow> u8 list \<Rightarrow> u8 list option" where
  "bytes_put xs pos ys =
     (if pos + length ys \<le> length xs then Some (take pos xs @ ys @ drop (pos + length ys) xs) else None)"

definition touch_line :: "nat \<Rightarrow> CacheSet \<Rightarrow> CacheSetInfoLRU \<Rightarrow> (CacheSet \<times> CacheSetInfoLRU) option" where
  "touch_line line_index s info = do {
     (p, info') \<leftarrow> updateReplacementIndex (length (cs_lines s)) line_index (cs_policy s) info;
     Some (s\<lparr>cs_policy := p\<rparr>, info')
   }"

text \<open>The buffer of \<^verbatim>\<open>read_line\<close> is the first component of the result, \<open>None\<close> when there is no data array.\<close>

definition read_line :: "nat \<Rightarrow> nat \<Rightarrow> nat \<Rightarrow> bool \<Rightarrow> CacheSet \<Rightarrow> CacheSetInfoLRU \<Rightarrow>
    (u8 list option \<times> CacheSet \<times> CacheSetInfoLRU) option" where
  "read_line line_index offset bytes update_replacement s info = do {
     ensure (offset + bytes \<le> cs_blocksize s);
     out_buff \<leftarrow> (case cs_blocks s of
         None \<Rightarrow> Some None
       | Some d \<Rightarrow> do { x \<leftarrow> bytes_at d (line_index * cs_blocksize s + offset) bytes; Some (Some x) });
     (s', info') \<leftarrow> (if update_replacement then touch_line line_index s info else Some (s, info));
     Some (out_buff, s', info')
   }"

definition write_line :: "nat \<Rightarrow> nat \<Rightarrow> u8 list option \<Rightarrow> nat \<Rightarrow> bool \<Rightarrow> CacheSet \<Rightarrow> CacheSetInfoLRU \<Rightarrow>
    (CacheSet \<times> CacheSetInfoLRU) option" where
  "write_line line_index offset in_buff bytes update_replacement s info = do {
     ensure (offset + bytes \<le> cs_blocksize s);
     s1 \<leftarrow> (case (in_buff, cs_blocks s) of
         (Some x, Some d) \<Rightarrow> do {
           d' \<leftarrow> bytes_put d (line_index * cs_blocksize s + offset) (take bytes x);
           Some (s\<lparr>cs_blocks := Some d'\<rparr>) }
       | _ \<Rightarrow> Some s);
     if update_replacement then touch_line line_index s1 info else Some (s1, info)
   }"

definition cs_find :: "IntPtr \<Rightarrow> CacheSet \<Rightarrow> nat option" where
  "cs_find tag s = List.find (\<lambda>i. bi_tag (cs_lines s ! i) = tag) (rev [0..<length (cs_lines s)])"

definition cs_invalidate :: "IntPtr \<Rightarrow> CacheSet \<Rightarrow> bool \<times> CacheSet" where
  "cs_invalidate tag s = (case cs_find tag s of
       Some i \<Rightarrow> (True, s\<lparr>cs_lines := (cs_lines s)[i := bi_invalidate (cs_lines s ! i)]\<rparr>)
     | None \<Rightarrow> (False, s))"

text \<open>
  The part of \<^verbatim>\<open>insert\<close> that fills \<^verbatim>\<open>evict_block_info\<close> from the replaced line. \<open>slot\<close> is the line
  before the insertion, \<open>evict\<close> the caller's object.
\<close>

definition evict_info :: "CacheBlockInfo \<Rightarrow> CacheBlockInfo \<Rightarrow> CacheBlockInfo" where
  "evict_info slot evict =
     (let e1 = (if isValid slot then
           (let e = bi_clone evict slot in
            case bi_ext slot of
              SharedBlock _ _ _ _ _ \<Rightarrow> cloneAIP e slot
            | PrL1Block d \<Rightarrow> setDead (of_bool d) e
            | _ \<Rightarrow> e)
         else evict)
      in case bi_ext slot of PrL1Block d \<Rightarrow> setDead 0 e1 | _ \<Rightarrow> e1)"

record insert_result =
  ins_index :: nat
  ins_eviction :: bool
  ins_evict_info :: CacheBlockInfo
  ins_evict_buff :: "u8 list option"
  ins_qbs_cost :: nat

definition copy_out :: "nat \<Rightarrow> CacheSet \<Rightarrow> u8 list option option" where
  "copy_out index s = (case cs_blocks s of
       Some d \<Rightarrow> map_option Some (bytes_at d (index * cs_blocksize s) (cs_blocksize s))
     | None \<Rightarrow> Some None)"

definition copy_in :: "u8 list option \<Rightarrow> nat \<Rightarrow> CacheSet \<Rightarrow> u8 list option option" where
  "copy_in fill_buff index s = (case (fill_buff, cs_blocks s) of
       (Some x, Some d) \<Rightarrow> map_option Some (bytes_put d (index * cs_blocksize s) (take (cs_blocksize s) x))
     | (_, b) \<Rightarrow> Some b)"

definition cs_insert :: "CacheBlockInfo \<Rightarrow> u8 list option \<Rightarrow> CacheBlockInfo \<Rightarrow> qbs \<Rightarrow> CacheSet \<Rightarrow>
    CacheSetInfoLRU \<Rightarrow> (insert_result \<times> CacheSet \<times> CacheSetInfoLRU) option" where
  "cs_insert block fill_buff evict cntlr s info = do {
     (index, p, info', cost) \<leftarrow> getReplacementIndex cntlr (cs_lines s) (cs_policy s) info;
     ensure (index < length (cs_lines s));
     let slot = cs_lines s ! index;
     evict_buff \<leftarrow> (if isValid slot then copy_out index s else Some None);
     blocks \<leftarrow> copy_in fill_buff index s;
     Some (\<lparr>ins_index = index, ins_eviction = isValid slot, ins_evict_info = evict_info slot evict,
            ins_evict_buff = evict_buff, ins_qbs_cost = cost\<rparr>,
           s\<lparr>cs_lines := (cs_lines s)[index := bi_clone slot block], cs_blocks := blocks,
             cs_policy := p\<rparr>, info')
   }"

definition incrementSetCount :: "CacheSet \<Rightarrow> CacheSet" where
  "incrementSetCount s = s\<lparr>cs_lines := map incC (cs_lines s)\<rparr>"

text \<open>The table is a \<^verbatim>\<open>std::map\<close>: an entry is created on first access.\<close>

definition modifySetCounters :: "IntPtr \<Rightarrow> (IntPtr \<rightharpoonup> u64 \<times> IntPtr) \<Rightarrow> CacheSet \<Rightarrow> (IntPtr \<rightharpoonup> u64 \<times> IntPtr)" where
  "modifySetCounters addr phy_table s =
     fold (\<lambda>b t. if getDead b \<noteq> 0
         then (let (f, x) = (case t (drop_bit 12 addr) of None \<Rightarrow> (0, 0) | Some e \<Rightarrow> e)
               in t(drop_bit 12 addr \<mapsto> (f - 1, x)))
         else t)
       (cs_lines s) phy_table"

section \<open>Well-formed sets and their contents\<close>

definition tags_distinct :: "CacheBlockInfo list \<Rightarrow> bool" where
  "tags_distinct lines \<longleftrightarrow> list_all (\<lambda>i. list_all (\<lambda>j. bi_tag (lines ! i) = bi_tag (lines ! j) \<longrightarrow>
     bi_tag (lines ! i) \<noteq> - 1 \<longrightarrow> i = j) [0..<length lines]) [0..<length lines]"

definition set_wf :: "nat \<Rightarrow> CacheSet \<Rightarrow> bool" where
  "set_wf n s \<longleftrightarrow> length (cs_lines s) = n \<and> policy_wf n (cs_policy s) \<and> tags_distinct (cs_lines s) \<and>
     (case cs_blocks s of None \<Rightarrow> True | Some d \<Rightarrow> length d = n * cs_blocksize s)"

definition set_abs :: "CacheSet \<Rightarrow> IntPtr \<Rightarrow> CacheBlockInfo option" where
  "set_abs s tag = (if tag = - 1 then None else map_option (\<lambda>i. cs_lines s ! i) (cs_find tag s))"

section \<open>Distinct tags\<close>

lemma tags_distinct_nth:
  "tags_distinct lines \<longleftrightarrow> (\<forall>i < length lines. \<forall>j < length lines.
     bi_tag (lines ! i) = bi_tag (lines ! j) \<longrightarrow> bi_tag (lines ! i) \<noteq> - 1 \<longrightarrow> i = j)"
  by (simp add: tags_distinct_def list_all_length)

lemma cs_find_Some:
  "cs_find tag s = Some i \<Longrightarrow> i < length (cs_lines s) \<and> bi_tag (cs_lines s ! i) = tag"
  by (simp add: cs_find_def find_rev_upt_Some)

lemma cs_find_None:
  "cs_find tag s = None \<longleftrightarrow> (\<forall>i < length (cs_lines s). bi_tag (cs_lines s ! i) \<noteq> tag)"
  by (simp add: cs_find_def find_rev_upt_None)

text \<open>With distinct tags the direction of the search does not matter.\<close>

lemma cs_find_iff:
  assumes "tags_distinct (cs_lines s)" and "tag \<noteq> - 1"
  shows "cs_find tag s = Some i \<longleftrightarrow> i < length (cs_lines s) \<and> bi_tag (cs_lines s ! i) = tag"
proof
  assume "i < length (cs_lines s) \<and> bi_tag (cs_lines s ! i) = tag"
  then show "cs_find tag s = Some i"
    unfolding cs_find_def
    using assms(2) assms(1) [unfolded tags_distinct_nth] by (intro find_rev_upt_unique) auto
qed (rule cs_find_Some)

lemma set_abs_Some:
  assumes "tags_distinct (cs_lines s)"
  shows "set_abs s tag = Some b \<longleftrightarrow>
    tag \<noteq> - 1 \<and> (\<exists>i < length (cs_lines s). bi_tag (cs_lines s ! i) = tag \<and> cs_lines s ! i = b)"
  using cs_find_iff [OF assms, of tag] by (auto simp: set_abs_def)

lemma set_abs_None:
  "set_abs s tag = None \<longleftrightarrow> tag = - 1 \<or> (\<forall>i < length (cs_lines s). bi_tag (cs_lines s ! i) \<noteq> tag)"
  by (auto simp: set_abs_def cs_find_None)

text \<open>Replacing one line replaces one entry of the map.\<close>

lemma set_abs_update:
  assumes "tags_distinct (cs_lines s)" and i: "i < length (cs_lines s)"
    and "tags_distinct (cs_lines s')" and s': "cs_lines s' = (cs_lines s)[i := b]"
  shows "set_abs s' = (\<lambda>tag. if tag = bi_tag b \<and> tag \<noteq> - 1 then Some b
    else if tag = bi_tag (cs_lines s ! i) then None else set_abs s tag)"
proof
  fix tag
  show "set_abs s' tag = (if tag = bi_tag b \<and> tag \<noteq> - 1 then Some b
    else if tag = bi_tag (cs_lines s ! i) then None else set_abs s tag)"
  proof (cases "tag = - 1")
    case True
    then show ?thesis by (simp add: set_abs_def)
  next
    case False
    have old: "j = i" if "j < length (cs_lines s)" "bi_tag (cs_lines s ! j) = bi_tag (cs_lines s ! i)"
      "bi_tag (cs_lines s ! i) \<noteq> - 1" for j
      using that assms(1) i unfolding tags_distinct_nth by metis
    consider (new) "tag = bi_tag b" | (gone) "tag \<noteq> bi_tag b" "tag = bi_tag (cs_lines s ! i)"
      | (same) "tag \<noteq> bi_tag b" "tag \<noteq> bi_tag (cs_lines s ! i)" by blast
    then show ?thesis
    proof cases
      case new
      then have "set_abs s' tag = Some b"
        unfolding set_abs_Some [OF assms(3)] using False i s' by (auto intro!: exI [of _ i])
      with new False show ?thesis by simp
    next
      case gone
      then have "set_abs s' tag = None"
        unfolding set_abs_None using s' old False i by (auto simp: nth_list_update split: if_splits)
      with gone show ?thesis by simp
    next
      case same
      have "set_abs s' tag = Some c \<longleftrightarrow> set_abs s tag = Some c" for c
        unfolding set_abs_Some [OF assms(1)] set_abs_Some [OF assms(3)] s'
        using same i by (auto simp: nth_list_update split: if_splits)
      then have "set_abs s' tag = set_abs s tag"
        by (metis not_None_eq)
      with same show ?thesis by simp
    qed
  qed
qed

lemma tags_distinct_update:
  assumes "tags_distinct lines"
    and "bi_tag b = - 1 \<or> (\<forall>j < length lines. j \<noteq> i \<longrightarrow> bi_tag (lines ! j) \<noteq> bi_tag b)"
  shows "tags_distinct (lines[i := b])"
  using assms unfolding tags_distinct_nth
  by (cases "i < length lines") (auto simp: nth_list_update)

section \<open>Effect of the operations\<close>

lemma evict_info_fields:
  "isValid slot \<Longrightarrow> bi_tag (evict_info slot evict) = bi_tag slot \<and> bi_cstate (evict_info slot evict) = bi_cstate slot"
  by (auto simp: evict_info_def Let_def split: block_ext.split)

lemma evict_info_invalid: "\<not> isValid slot \<Longrightarrow> bi_tag (evict_info slot evict) = bi_tag evict"
  by (auto simp: evict_info_def Let_def split: block_ext.split)

lemma length_bytes_put: "bytes_put xs pos ys = Some zs \<Longrightarrow> length zs = length xs"
  by (auto simp: bytes_put_def split: if_splits)

lemma copy_in_length:
  "copy_in fill index s = Some b \<Longrightarrow> map_option length b = map_option length (cs_blocks s)"
  by (auto simp: copy_in_def split: option.splits dest: length_bytes_put)

lemma cs_insert_cases:
  assumes "cs_insert block fill evict cntlr s info = Some (r, s', info')"
  obtains p cost where
    "getReplacementIndex cntlr (cs_lines s) (cs_policy s) info = Some (ins_index r, p, info', cost)"
    "ins_index r < length (cs_lines s)"
    "ins_eviction r = isValid (cs_lines s ! ins_index r)"
    "ins_evict_info r = evict_info (cs_lines s ! ins_index r) evict"
    "cs_lines s' = (cs_lines s)[ins_index r := bi_clone (cs_lines s ! ins_index r) block]"
    "cs_policy s' = p" "cs_blocksize s' = cs_blocksize s"
    "map_option length (cs_blocks s') = map_option length (cs_blocks s)"
  using assms copy_in_length
  by (auto simp: cs_insert_def Let_def abort_simps simp del: split_paired_Ex)

lemma set_wf_insert:
  assumes wf: "set_wf n s" and "0 < n" and fresh: "set_abs s (bi_tag block) = None"
    and ins: "cs_insert block fill evict cntlr s info = Some (r, s', info')"
  shows "set_wf n s'"
proof -
  have len: "length (cs_lines s) = n" and pol: "policy_wf n (cs_policy s)"
    and dist: "tags_distinct (cs_lines s)"
    using wf by (simp_all add: set_wf_def)
  obtain p cost where
    g: "getReplacementIndex cntlr (cs_lines s) (cs_policy s) info = Some (ins_index r, p, info', cost)"
    and s': "cs_lines s' = (cs_lines s)[ins_index r := bi_clone (cs_lines s ! ins_index r) block]"
      "cs_policy s' = p" "cs_blocksize s' = cs_blocksize s"
      "map_option length (cs_blocks s') = map_option length (cs_blocks s)"
    using ins by (rule cs_insert_cases)
  have "policy_wf n p"
    using policy.victim_law [OF _ _ g] len pol assms(2) by auto
  moreover have "tags_distinct (cs_lines s')"
    unfolding s' using dist fresh
    by (intro tags_distinct_update) (auto simp: set_abs_None)
  moreover have "case cs_blocks s' of None \<Rightarrow> True | Some d \<Rightarrow> length d = n * cs_blocksize s'"
    using wf s'(3,4) by (auto simp: set_wf_def split: option.splits)
  ultimately show ?thesis
    using len s' by (simp add: set_wf_def)
qed

text \<open>An insertion adds the new tag, drops the tag of the replaced line, and leaves the others.\<close>

lemma set_abs_insert:
  assumes wf: "set_wf n s" and "0 < n" and fresh: "set_abs s (bi_tag block) = None" "bi_tag block \<noteq> - 1"
    and ins: "cs_insert block fill evict cntlr s info = Some (r, s', info')"
  shows "set_abs s' = (\<lambda>tag.
    if tag = bi_tag block then Some (bi_clone (cs_lines s ! ins_index r) block)
    else if ins_eviction r \<and> tag = bi_tag (ins_evict_info r) then None else set_abs s tag)"
proof -
  let ?old = "cs_lines s ! ins_index r"
  obtain i: "ins_index r < length (cs_lines s)" and ev: "ins_eviction r = isValid ?old"
    "ins_evict_info r = evict_info ?old evict" and s': "cs_lines s' = (cs_lines s)[ins_index r := bi_clone ?old block]"
    using ins by (rule cs_insert_cases)
  have "tags_distinct (cs_lines s)" "tags_distinct (cs_lines s')"
    using wf set_wf_insert [OF wf assms(2) fresh(1) ins] by (simp_all add: set_wf_def)
  note eq = set_abs_update [OF this(1) i this(2) s']
  show ?thesis
  proof
    fix tag
    show "set_abs s' tag = (if tag = bi_tag block then Some (bi_clone ?old block)
      else if ins_eviction r \<and> tag = bi_tag (ins_evict_info r) then None else set_abs s tag)"
    proof (cases "isValid ?old")
      case True
      then show ?thesis
        unfolding eq using fresh(2) ev evict_info_fields [OF True, of evict] by simp
    next
      case False
      then have "bi_tag ?old = - 1" by (simp add: isValid_def)
      with False show ?thesis
        unfolding eq using fresh(2) ev by (simp add: set_abs_def)
    qed
  qed
qed

text \<open>The evicted line was in the set, with the tag that is reported.\<close>

lemma evicted_was_present:
  assumes wf: "set_wf n s" and ins: "cs_insert block fill evict cntlr s info = Some (r, s', info')"
    and "ins_eviction r"
  shows "set_abs s (bi_tag (ins_evict_info r)) = Some (cs_lines s ! ins_index r)"
proof -
  let ?old = "cs_lines s ! ins_index r"
  obtain i: "ins_index r < length (cs_lines s)" and ev: "ins_eviction r = isValid ?old"
    "ins_evict_info r = evict_info ?old evict"
    using ins by (rule cs_insert_cases)
  have "tags_distinct (cs_lines s)"
    using wf by (simp add: set_wf_def)
  from set_abs_Some [OF this] show ?thesis
    using assms(3) i ev evict_info_fields [of ?old evict] by (auto simp: isValid_def)
qed

lemma set_wf_invalidate:
  assumes "set_wf n s"
  shows "set_wf n (snd (cs_invalidate tag s))"
  using assms
  by (auto simp: set_wf_def cs_invalidate_def intro: tags_distinct_update split: option.split)

lemma set_abs_invalidate:
  assumes "set_wf n s" and "tag \<noteq> - 1"
  shows "set_abs (snd (cs_invalidate tag s)) = (set_abs s)(tag := None)"
    and "fst (cs_invalidate tag s) \<longleftrightarrow> set_abs s tag \<noteq> None"
proof -
  have d: "tags_distinct (cs_lines s)" "tags_distinct (cs_lines (snd (cs_invalidate tag s)))"
    using assms(1) set_wf_invalidate [OF assms(1)] by (simp_all add: set_wf_def)
  show "fst (cs_invalidate tag s) \<longleftrightarrow> set_abs s tag \<noteq> None"
    using assms(2) by (auto simp: cs_invalidate_def set_abs_def split: option.split)
  show "set_abs (snd (cs_invalidate tag s)) = (set_abs s)(tag := None)"
  proof (cases "cs_find tag s")
    case None
    then show ?thesis by (auto simp: cs_invalidate_def set_abs_def fun_eq_iff)
  next
    case (Some i)
    note i = cs_find_Some [OF Some]
    have "cs_lines (snd (cs_invalidate tag s)) = (cs_lines s)[i := bi_invalidate (cs_lines s ! i)]"
      by (simp add: cs_invalidate_def Some)
    from set_abs_update [OF d(1) _ d(2) this] i show ?thesis
      by (auto simp: fun_eq_iff)
  qed
qed

lemma touch_line_abs:
  assumes "touch_line i s info = Some (s', info')"
  shows "cs_lines s' = cs_lines s \<and> cs_blocks s' = cs_blocks s \<and> cs_blocksize s' = cs_blocksize s
    \<and> set_abs s' = set_abs s"
  using assms by (auto simp: touch_line_def abort_simps set_abs_def cs_find_def)

lemma touch_line_wf:
  assumes "touch_line i s info = Some (s', info')" and "set_wf n s" and "i < n"
  shows "set_wf n s'"
  using assms policy.touch_law [of n "cs_policy s" i info]
  by (auto simp: touch_line_def abort_simps set_wf_def split: option.splits)

section \<open>Line data\<close>

lemma bytes_at_put_same:
  "bytes_put xs pos ys = Some zs \<Longrightarrow> bytes_at zs pos (length ys) = Some ys"
  by (auto simp: bytes_put_def bytes_at_def split: if_splits)

lemma bytes_at_put_other:
  assumes "bytes_put xs pos ys = Some zs" and "pos2 + n \<le> pos \<or> pos + length ys \<le> pos2"
  shows "bytes_at zs pos2 n = bytes_at xs pos2 n"
proof (cases "pos2 + n \<le> length xs")
  case True
  have zs: "zs = take pos xs @ ys @ drop (pos + length ys) xs" "pos + length ys \<le> length xs"
    using assms(1) by (auto simp: bytes_put_def split: if_splits)
  have same: "zs ! j = xs ! j" if "j < pos \<or> pos + length ys \<le> j" "j < length xs" for j
    using that zs by (auto simp: nth_append)
  have "take n (drop pos2 zs) = take n (drop pos2 xs)"
    using length_bytes_put [OF assms(1)] same assms(2) True
    by (intro nth_equalityI) auto
  then show ?thesis
    using True length_bytes_put [OF assms(1)] by (simp add: bytes_at_def)
next
  case False
  then show ?thesis
    using length_bytes_put [OF assms(1)] by (simp add: bytes_at_def)
qed

end
