(* ===== verification/Caches.thy ===== *)
theory Caches
  imports CacheSets
begin

text \<open>
  A cache, \<^verbatim>\<open>cache/cache.cc\<close>: an array of sets indexed by \<^verbatim>\<open>splitAddress\<close>. The fault injector is absent
  (its hooks are null pointers in every configuration without fault injection), and so are the set
  locks. Locale \<open>line_store\<close> is the interface through which the TLBs and the cache controllers use
  a cache: a partial map from keys (set and tag) to lines.
\<close>

section \<open>Definitions\<close>

record Cache =
  ca_base :: CacheBase
  ca_enabled :: bool
  ca_num_accesses :: u64
  ca_num_hits :: u64
  ca_type :: cache_t
  ca_sets :: "CacheSet list"
  ca_info :: CacheSetInfoLRU

text \<open>The configuration values the constructors read.\<close>

record cache_config =
  cfg_fault_injection :: bool
  cfg_qbs_attempts :: u8
  cfg_srrip_bits :: nat
  cfg_time :: u32

definition Cache_new :: "cache_config \<Rightarrow> u32 \<Rightarrow> u32 \<Rightarrow> u32 \<Rightarrow> string \<Rightarrow> cache_t \<Rightarrow> hash_t \<Rightarrow>
    AddressHomeLookup option \<Rightarrow> Cache option" where
  "Cache_new cfg num_sets associativity cache_block_size policy_name cache_type hash ahl = do {
     base \<leftarrow> CacheBase_new num_sets associativity cache_block_size hash ahl;
     pol \<leftarrow> parsePolicyType policy_name;
     p \<leftarrow> create_policy pol (unat associativity) (cfg_qbs_attempts cfg) (cfg_srrip_bits cfg) (cfg_time cfg);
     Some \<lparr>ca_base = base, ca_enabled = False, ca_num_accesses = 0, ca_num_hits = 0,
       ca_type = cache_type,
       ca_sets = replicate (unat num_sets)
         (CacheSet_new (cfg_fault_injection cfg) cache_type (unat associativity) (unat cache_block_size) p),
       ca_info = CacheSetInfoLRU_new (unat associativity) (getNumQBSAttempts pol (cfg_qbs_attempts cfg))\<rparr>
   }"

definition invalidateSingleLine :: "IntPtr \<Rightarrow> Cache \<Rightarrow> (bool \<times> Cache) option" where
  "invalidateSingleLine addr c = do {
     (tag, set_index) \<leftarrow> splitAddress (ca_base c) addr;
     ensure (set_index < cb_num_sets (ca_base c));
     s \<leftarrow> nth_opt (ca_sets c) (unat set_index);
     let (found, s') = cs_invalidate tag s;
     Some (found, c\<lparr>ca_sets := (ca_sets c)[unat set_index := s']\<rparr>)
   }"

text \<open>The line that \<^verbatim>\<open>accessSingleLine\<close> and \<^verbatim>\<open>peekSingleLine\<close> point to is given by its set and way.\<close>

definition accessSingleLine :: "IntPtr \<Rightarrow> access_t \<Rightarrow> u8 list option \<Rightarrow> nat \<Rightarrow> bool \<Rightarrow> Cache \<Rightarrow>
    ((nat \<times> nat) option \<times> u8 list option \<times> Cache) option" where
  "accessSingleLine addr access_type buff bytes update_replacement c = do {
     (tag, set_index, block_offset) \<leftarrow> splitAddress_offset (ca_base c) addr;
     s \<leftarrow> nth_opt (ca_sets c) (unat set_index);
     case cs_find tag s of
       None \<Rightarrow> Some (None, None, c)
     | Some line_index \<Rightarrow> do {
         (data, s', info') \<leftarrow>
           (if access_type = LOAD
            then read_line line_index (unat block_offset) bytes update_replacement s (ca_info c)
            else do {
              (s', info') \<leftarrow>
                write_line line_index (unat block_offset) buff bytes update_replacement s (ca_info c);
              Some (None, s', info') });
         Some (Some (unat set_index, line_index), data,
           c\<lparr>ca_sets := (ca_sets c)[unat set_index := s'], ca_info := info'\<rparr>) }
   }"

definition insertSingleLine :: "IntPtr \<Rightarrow> u8 list option \<Rightarrow> CacheBlockInfo \<Rightarrow> qbs \<Rightarrow> Cache \<Rightarrow>
    (insert_result \<times> IntPtr \<times> Cache) option" where
  "insertSingleLine addr fill_buff evict_block_info cntlr c = do {
     (tag, set_index) \<leftarrow> splitAddress (ca_base c) addr;
     let block = (CacheBlockInfo_create (ca_type c))\<lparr>bi_tag := tag\<rparr>;
     s \<leftarrow> nth_opt (ca_sets c) (unat set_index);
     (r, s', info') \<leftarrow> cs_insert block fill_buff evict_block_info cntlr s (ca_info c);
     let evict_addr = tagToAddress (ca_base c) (bi_tag (ins_evict_info r));
     Some (r, evict_addr, c\<lparr>ca_sets := (ca_sets c)[unat set_index := s'], ca_info := info'\<rparr>)
   }"

definition peekSingleLine :: "IntPtr \<Rightarrow> Cache \<Rightarrow> (nat \<times> nat) option option" where
  "peekSingleLine addr c = do {
     (tag, set_index) \<leftarrow> splitAddress (ca_base c) addr;
     s \<leftarrow> nth_opt (ca_sets c) (unat set_index);
     Some (map_option (\<lambda>i. (unat set_index, i)) (cs_find tag s))
   }"

text \<open>Access through the pointer that the lookups return.\<close>

definition line_at :: "nat \<times> nat \<Rightarrow> Cache \<Rightarrow> CacheBlockInfo" where
  "line_at pos c = cs_lines (ca_sets c ! fst pos) ! snd pos"

definition update_line :: "nat \<times> nat \<Rightarrow> (CacheBlockInfo \<Rightarrow> CacheBlockInfo) \<Rightarrow> Cache \<Rightarrow> Cache" where
  "update_line pos f c = c\<lparr>ca_sets := (ca_sets c)[fst pos := (ca_sets c ! fst pos)\<lparr>cs_lines :=
     (cs_lines (ca_sets c ! fst pos))[snd pos := f (line_at pos c)]\<rparr>]\<rparr>"

definition setPrDeadBit :: "IntPtr \<Rightarrow> Cache \<Rightarrow> Cache option" where
  "setPrDeadBit address c = do {
     pos \<leftarrow> peekSingleLine address c;
     Some (case pos of
         None \<Rightarrow> c
       | Some p \<Rightarrow> (case bi_ext (line_at p c) of PrL1Block d \<Rightarrow> update_line p (setDead 1) c | _ \<Rightarrow> c))
   }"

definition increaseCForEntireSet :: "IntPtr \<Rightarrow> Cache \<Rightarrow> Cache option" where
  "increaseCForEntireSet addr c = do {
     (tag, set_index) \<leftarrow> splitAddress (ca_base c) addr;
     ensure (set_index < cb_num_sets (ca_base c));
     s \<leftarrow> nth_opt (ca_sets c) (unat set_index);
     Some (c\<lparr>ca_sets := (ca_sets c)[unat set_index := incrementSetCount s]\<rparr>)
   }"

definition modifyCounterForEntireSet :: "IntPtr \<Rightarrow> (IntPtr \<rightharpoonup> u64 \<times> IntPtr) \<Rightarrow> Cache \<Rightarrow>
    (IntPtr \<rightharpoonup> u64 \<times> IntPtr) option" where
  "modifyCounterForEntireSet addr phy_table c = do {
     (tag, set_index) \<leftarrow> splitAddress (ca_base c) addr;
     ensure (set_index < cb_num_sets (ca_base c));
     s \<leftarrow> nth_opt (ca_sets c) (unat set_index);
     Some (modifySetCounters addr phy_table s)
   }"

definition updateCounters :: "bool \<Rightarrow> Cache \<Rightarrow> Cache" where
  "updateCounters cache_hit c =
     (if ca_enabled c
      then c\<lparr>ca_num_accesses := ca_num_accesses c + 1,
             ca_num_hits := (if cache_hit then ca_num_hits c + 1 else ca_num_hits c)\<rparr>
      else c)"

definition updateHits :: "u64 \<Rightarrow> Cache \<Rightarrow> Cache" where
  "updateHits hits c =
     (if ca_enabled c
      then c\<lparr>ca_num_accesses := ca_num_accesses c + hits, ca_num_hits := ca_num_hits c + hits\<rparr>
      else c)"

section \<open>Well-formed caches and their contents\<close>

definition cache_key :: "Cache \<Rightarrow> IntPtr \<Rightarrow> (nat \<times> IntPtr) option" where
  "cache_key c addr = map_option (\<lambda>(tag, set_index). (unat set_index, tag)) (splitAddress (ca_base c) addr)"

definition cache_abs :: "Cache \<Rightarrow> nat \<times> IntPtr \<Rightarrow> CacheBlockInfo option" where
  "cache_abs c = (\<lambda>(i, tag). if i < length (ca_sets c) then set_abs (ca_sets c ! i) tag else None)"

definition cache_wf :: "Cache \<Rightarrow> bool" where
  "cache_wf c \<longleftrightarrow> 0 < cb_log_blocksize (ca_base c) \<and> 0 < unat (cb_associativity (ca_base c)) \<and>
     list_all (set_wf (unat (cb_associativity (ca_base c)))) (ca_sets c)"

section \<open>The interface of a line store\<close>

datatype store_op = Access IntPtr | Drop IntPtr

text \<open>The way a client uses a cache: look up, insert on a miss; invalidate.\<close>

fun store_step :: "('c \<Rightarrow> IntPtr \<Rightarrow> 'k option) \<Rightarrow> ('c \<Rightarrow> 'k \<Rightarrow> 'l option) \<Rightarrow> (IntPtr \<Rightarrow> 'c \<Rightarrow> 'c option) \<Rightarrow>
    (IntPtr \<Rightarrow> 'c \<Rightarrow> 'c option) \<Rightarrow> (IntPtr \<Rightarrow> 'c \<Rightarrow> 'c option) \<Rightarrow> store_op \<Rightarrow> 'c \<Rightarrow> 'c option" where
  "store_step key view touch fill discard (Access a) c = do {
     k \<leftarrow> key c a;
     if view c k \<noteq> None then touch a c else fill a c }"
| "store_step key view touch fill discard (Drop a) c = discard a c"

text \<open>The three operations as a client calls them.\<close>

definition touch_op :: "IntPtr \<Rightarrow> Cache \<Rightarrow> Cache option" where
  "touch_op a c = map_option (\<lambda>(pos, d, c'). c') (accessSingleLine a LOAD None 0 True c)"

definition fill_op :: "CacheBlockInfo \<Rightarrow> qbs \<Rightarrow> IntPtr \<Rightarrow> Cache \<Rightarrow> Cache option" where
  "fill_op evict cntlr a c = map_option (\<lambda>(r, ev, c'). c') (insertSingleLine a None evict cntlr c)"

definition discard_op :: "IntPtr \<Rightarrow> Cache \<Rightarrow> Cache option" where
  "discard_op a c = map_option snd (invalidateSingleLine a c)"

locale line_store =
  fixes wf :: "'c \<Rightarrow> bool"
    and key :: "'c \<Rightarrow> IntPtr \<Rightarrow> 'k option"
    and view :: "'c \<Rightarrow> 'k \<Rightarrow> 'l option"
    and touch fill discard :: "IntPtr \<Rightarrow> 'c \<Rightarrow> 'c option"
  assumes touch_law: "wf c \<Longrightarrow> touch a c = Some c' \<Longrightarrow> wf c' \<and> key c' = key c \<and> view c' = view c"
    and fill_law: "wf c \<Longrightarrow> key c a = Some k \<Longrightarrow> view c k = None \<Longrightarrow> fill a c = Some c' \<Longrightarrow>
      wf c' \<and> key c' = key c \<and> (\<exists>l. view c' k = Some l) \<and> (\<forall>j. j \<noteq> k \<longrightarrow> view c' j = view c j \<or> view c' j = None)"
    and discard_law: "wf c \<Longrightarrow> key c a = Some k \<Longrightarrow> discard a c = Some c' \<Longrightarrow>
      wf c' \<and> key c' = key c \<and> view c' = (view c)(k := None)"
    and discard_key: "wf c \<Longrightarrow> discard a c = Some c' \<Longrightarrow> \<exists>k. key c a = Some k"
begin

lemma step_wf:
  assumes "wf c" and "store_step key view touch fill discard op c = Some c'"
  shows "wf c' \<and> key c' = key c"
proof (cases op)
  case (Access a)
  then obtain k where k: "key c a = Some k"
    and r: "(if view c k \<noteq> None then touch a c else fill a c) = Some c'"
    using assms(2) by (auto simp: abort_simps)
  show ?thesis
  proof (cases "view c k = None")
    case True
    then show ?thesis using r fill_law [OF assms(1) k True, of c'] by simp
  next
    case False
    then show ?thesis using r touch_law [OF assms(1), of a c'] by simp
  qed
next
  case (Drop a)
  then have d: "discard a c = Some c'" using assms(2) by simp
  from discard_key [OF assms(1) d] obtain k where "key c a = Some k" ..
  from discard_law [OF assms(1) this d] show ?thesis by simp
qed

lemma step_present:
  assumes "wf c" and "store_step key view touch fill discard op c = Some c'" and "view c' j = Some l"
  shows "view c j = Some l \<or> (\<exists>a. op = Access a \<and> key c a = Some j)"
proof (cases op)
  case (Access a)
  then obtain k where k: "key c a = Some k"
    and r: "(if view c k \<noteq> None then touch a c else fill a c) = Some c'"
    using assms(2) by (auto simp: abort_simps)
  show ?thesis
  proof (cases "view c k = None")
    case True
    then have "j = k \<or> view c' j = view c j \<or> view c' j = None"
      using fill_law [OF assms(1) k, of c'] r by auto
    then show ?thesis using assms(3) Access k by auto
  next
    case False
    then show ?thesis
      using touch_law [OF assms(1), of a c'] r assms(3) by auto
  qed
next
  case (Drop a)
  then have d: "discard a c = Some c'" using assms(2) by simp
  from discard_key [OF assms(1) d] obtain k where "key c a = Some k" ..
  from discard_law [OF assms(1) this d] show ?thesis
    using assms(3) by (auto split: if_splits)
qed

text \<open>Nothing is found that was not inserted.\<close>

lemma run_present:
  assumes "fold_opt (store_step key view touch fill discard) ops c = Some c'" and "wf c"
    and "view c' j = Some l"
  shows "view c j = Some l \<or> (\<exists>a. Access a \<in> set ops \<and> key c a = Some j)"
  using assms(1,2)
proof (induction ops arbitrary: c)
  case (Cons op ops)
  then obtain d where d: "store_step key view touch fill discard op c = Some d"
    and r: "fold_opt (store_step key view touch fill discard) ops d = Some c'"
    by (auto simp: abort_simps)
  have "view d j = Some l \<or> (\<exists>a. Access a \<in> set ops \<and> key c a = Some j)"
    using Cons.IH [OF r] step_wf [OF Cons.prems(2) d] by auto
  then show ?case
    using step_present [OF Cons.prems(2) d, of j l] by auto
qed (use assms(3) in auto)

text \<open>An address that was just accessed is present.\<close>

lemma access_present:
  assumes "wf c" and "store_step key view touch fill discard (Access a) c = Some c'"
  shows "\<exists>k l. key c' a = Some k \<and> view c' k = Some l"
proof -
  obtain k where k: "key c a = Some k"
    and r: "(if view c k \<noteq> None then touch a c else fill a c) = Some c'"
    using assms(2) by (auto simp: abort_simps)
  then show ?thesis
    using touch_law [OF assms(1), of a c'] fill_law [OF assms(1) k, of c']
    by (cases "view c k") auto
qed

end

section \<open>A cache is a line store\<close>

lemma cache_wf_set: "cache_wf c \<Longrightarrow> i < length (ca_sets c) \<Longrightarrow> set_wf (unat (cb_associativity (ca_base c))) (ca_sets c ! i)"
  by (simp add: cache_wf_def list_all_length)

lemma cache_wf_update:
  assumes "cache_wf c" and "i < length (ca_sets c) \<Longrightarrow> set_wf (unat (cb_associativity (ca_base c))) s'"
  shows "cache_wf (c\<lparr>ca_sets := (ca_sets c)[i := s'], ca_info := info\<rparr>)"
    and "cache_wf (c\<lparr>ca_sets := (ca_sets c)[i := s']\<rparr>)"
  using assms by (cases "i < length (ca_sets c)"; auto simp: cache_wf_def list_all_length nth_list_update)+

lemma cache_abs_update:
  assumes "i < length (ca_sets c)"
  shows "cache_abs (c\<lparr>ca_sets := (ca_sets c)[i := s'], ca_info := info\<rparr>) =
      (\<lambda>(j, tag). if j = i then set_abs s' tag else cache_abs c (j, tag))"
    and "cache_abs (c\<lparr>ca_sets := (ca_sets c)[i := s']\<rparr>) =
      (\<lambda>(j, tag). if j = i then set_abs s' tag else cache_abs c (j, tag))"
  using assms by (auto simp: cache_abs_def fun_eq_iff)

lemma cache_key_update [simp]:
  "cache_key (c\<lparr>ca_sets := x, ca_info := info\<rparr>) = cache_key c"
  "cache_key (c\<lparr>ca_sets := x\<rparr>) = cache_key c"
  by (simp_all add: cache_key_def fun_eq_iff)

text \<open>A tag is an address shifted right, so it is never the tag of an invalid line.\<close>

lemma tag_not_invalid:
  assumes "splitAddress cb addr = Some (tag, i)" and "0 < cb_log_blocksize cb"
  shows "tag \<noteq> - 1"
proof
  assume eq: "tag = - 1"
  have "tag = drop_bit (cb_log_blocksize cb) addr"
    using assms(1) by (auto simp: splitAddress_def abort_simps Let_def)
  then have "bit tag 63 \<longleftrightarrow> bit addr (cb_log_blocksize cb + 63)"
    by (simp only: bit_drop_bit_eq o_apply)
  moreover have "\<not> bit addr (cb_log_blocksize cb + 63)"
    using assms(2) bit_imp_le_length [of addr "cb_log_blocksize cb + 63"] by auto
  ultimately show False
    using eq by simp
qed

lemma insertSingleLine_cases:
  assumes "insertSingleLine addr fill evict cntlr c = Some (r, evict_addr, c')"
  obtains tag i s' info' where
    "splitAddress (ca_base c) addr = Some (tag, i)" "unat i < length (ca_sets c)"
    "cs_insert ((CacheBlockInfo_create (ca_type c))\<lparr>bi_tag := tag\<rparr>) fill evict cntlr
       (ca_sets c ! unat i) (ca_info c) = Some (r, s', info')"
    "evict_addr = tagToAddress (ca_base c) (bi_tag (ins_evict_info r))"
    "c' = c\<lparr>ca_sets := (ca_sets c)[unat i := s'], ca_info := info'\<rparr>"
  using assms by (auto simp: insertSingleLine_def Let_def abort_simps)

lemma insert_effect:
  assumes wf: "cache_wf c" and key: "cache_key c addr = Some (i, tag)"
    and fresh: "cache_abs c (i, tag) = None"
    and ins: "insertSingleLine addr fill evict cntlr c = Some (r, evict_addr, c')"
  shows "cache_wf c' \<and> ca_base c' = ca_base c \<and>
    (\<exists>line. bi_tag line = tag \<and> bi_cstate line = INVALID \<and>
      cache_abs c' = (if ins_eviction r then (cache_abs c)((i, bi_tag (ins_evict_info r)) := None)
        else cache_abs c)((i, tag) \<mapsto> line))"
proof -
  let ?n = "unat (cb_associativity (ca_base c))"
  let ?block = "(CacheBlockInfo_create (ca_type c))\<lparr>bi_tag := tag\<rparr>"
  obtain j s' info' where split: "splitAddress (ca_base c) addr = Some (tag, j)" and i: "i = unat j"
    and len: "i < length (ca_sets c)"
    and cs: "cs_insert ?block fill evict cntlr (ca_sets c ! i) (ca_info c) = Some (r, s', info')"
    and c': "c' = c\<lparr>ca_sets := (ca_sets c)[i := s'], ca_info := info'\<rparr>"
    using ins key by (elim insertSingleLine_cases) (auto simp: cache_key_def)
  have tag: "bi_tag ?block \<noteq> - 1"
    using tag_not_invalid [OF split] wf by (simp add: cache_wf_def)
  have swf: "set_wf ?n (ca_sets c ! i)" and n: "0 < ?n"
    using cache_wf_set [OF wf len] wf by (simp_all add: cache_wf_def)
  have sfresh: "set_abs (ca_sets c ! i) (bi_tag ?block) = None"
    using fresh len by (simp add: cache_abs_def)
  have "cache_wf c'"
    unfolding c' using wf set_wf_insert [OF swf n sfresh cs] by (intro cache_wf_update)
  moreover have "cache_abs c' = (if ins_eviction r then (cache_abs c)((i, bi_tag (ins_evict_info r)) := None)
      else cache_abs c)((i, tag) \<mapsto> bi_clone (cs_lines (ca_sets c ! i) ! ins_index r) ?block)"
    unfolding c' cache_abs_update(1) [OF len] set_abs_insert [OF swf n sfresh tag cs]
    using len by (auto simp: fun_eq_iff cache_abs_def)
  moreover have "bi_tag (bi_clone (cs_lines (ca_sets c ! i) ! ins_index r) ?block) = tag"
    "bi_cstate (bi_clone (cs_lines (ca_sets c ! i) ! ins_index r) ?block) = INVALID"
    by simp_all
  ultimately show ?thesis
    using c' by (intro conjI exI) simp_all
qed

lemma invalidate_effect:
  assumes wf: "cache_wf c" and key: "cache_key c addr = Some k"
    and inv: "invalidateSingleLine addr c = Some (found, c')"
  shows "cache_wf c' \<and> ca_base c' = ca_base c \<and> cache_abs c' = (cache_abs c)(k := None) \<and>
    (found \<longleftrightarrow> cache_abs c k \<noteq> None)"
proof -
  obtain tag j where split: "splitAddress (ca_base c) addr = Some (tag, j)" and k: "k = (unat j, tag)"
    using key by (auto simp: cache_key_def)
  have len: "unat j < length (ca_sets c)" and found: "found = fst (cs_invalidate tag (ca_sets c ! unat j))"
    and c': "c' = c\<lparr>ca_sets := (ca_sets c)[unat j := snd (cs_invalidate tag (ca_sets c ! unat j))]\<rparr>"
    using inv split by (auto simp: invalidateSingleLine_def Let_def abort_simps split: prod.splits)
  have tag: "tag \<noteq> - 1"
    using tag_not_invalid [OF split] wf by (simp add: cache_wf_def)
  note swf = cache_wf_set [OF wf len]
  have "cache_wf c'"
    unfolding c' using wf set_wf_invalidate [OF swf] by (intro cache_wf_update)
  moreover have "cache_abs c' = (cache_abs c)(k := None)"
    unfolding c' cache_abs_update(2) [OF len] set_abs_invalidate(1) [OF swf tag]
    using len by (auto simp: fun_eq_iff cache_abs_def k)
  moreover have "found \<longleftrightarrow> cache_abs c k \<noteq> None"
    unfolding found set_abs_invalidate(2) [OF swf tag] using len by (simp add: cache_abs_def k)
  ultimately show ?thesis
    using c' by simp
qed

lemma read_line_abs:
  assumes "read_line i offset bytes upd s info = Some (d, s', info')" and "set_wf n s" and "i < n"
  shows "set_abs s' = set_abs s \<and> set_wf n s' \<and> cs_blocks s' = cs_blocks s \<and> cs_lines s' = cs_lines s
    \<and> cs_blocksize s' = cs_blocksize s"
proof -
  have "(if upd then touch_line i s info else Some (s, info)) = Some (s', info')"
    using assms(1) by (auto simp: read_line_def abort_simps split: if_splits)
  then show ?thesis
    using touch_line_abs [of i s info s' info'] touch_line_wf [of i s info s' info' n] assms(2,3)
    by (auto split: if_splits)
qed

lemma write_line_abs:
  assumes "write_line i offset buff bytes upd s info = Some (s', info')" and "set_wf n s" and "i < n"
  shows "set_abs s' = set_abs s \<and> set_wf n s' \<and> cs_lines s' = cs_lines s \<and> cs_blocksize s' = cs_blocksize s"
proof -
  obtain s1 where s1: "(case (buff, cs_blocks s) of
         (Some x, Some d) \<Rightarrow> do {
           d' \<leftarrow> bytes_put d (i * cs_blocksize s + offset) (take bytes x);
           Some (s\<lparr>cs_blocks := Some d'\<rparr>) }
       | _ \<Rightarrow> Some s) = Some s1"
    and r: "(if upd then touch_line i s1 info else Some (s1, info)) = Some (s', info')"
    using assms(1) by (auto simp: write_line_def abort_simps)
  have "set_wf n s1 \<and> set_abs s1 = set_abs s \<and> cs_lines s1 = cs_lines s \<and> cs_blocksize s1 = cs_blocksize s"
    using s1 assms(2)
    by (auto simp: set_wf_def set_abs_def cs_find_def abort_simps split: option.splits dest: length_bytes_put)
  then show ?thesis
    using touch_line_abs [of i s1 info s' info'] touch_line_wf [of i s1 info s' info' n] assms(3) r
    by (auto split: if_splits)
qed

text \<open>The common prefix of an access: the address is split and its set is searched.\<close>

lemma access_cases:
  assumes "accessSingleLine addr t buff bytes upd c = Some (pos, d, c')"
  obtains tag j off where "splitAddress_offset (ca_base c) addr = Some (tag, j, off)"
    "unat j < length (ca_sets c)"
    "cs_find tag (ca_sets c ! unat j) = None \<and> pos = None \<and> c' = c \<or>
     (\<exists>i s' info'. cs_find tag (ca_sets c ! unat j) = Some i \<and> pos = Some (unat j, i) \<and>
       (if t = LOAD then read_line i (unat off) bytes upd (ca_sets c ! unat j) (ca_info c) = Some (d, s', info')
        else write_line i (unat off) buff bytes upd (ca_sets c ! unat j) (ca_info c) = Some (s', info')) \<and>
       c' = c\<lparr>ca_sets := (ca_sets c)[unat j := s'], ca_info := info'\<rparr>)"
proof -
  obtain tag j off where split: "splitAddress_offset (ca_base c) addr = Some (tag, j, off)"
    and len: "unat j < length (ca_sets c)"
    and r: "(case cs_find tag (ca_sets c ! unat j) of
       None \<Rightarrow> Some (None, None, c)
     | Some line_index \<Rightarrow> do {
         (data, s', info') \<leftarrow>
           (if t = LOAD
            then read_line line_index (unat off) bytes upd (ca_sets c ! unat j) (ca_info c)
            else do {
              (s', info') \<leftarrow> write_line line_index (unat off) buff bytes upd (ca_sets c ! unat j) (ca_info c);
              Some (None, s', info') });
         Some (Some (unat j, line_index), data,
           c\<lparr>ca_sets := (ca_sets c)[unat j := s'], ca_info := info'\<rparr>) }) = Some (pos, d, c')"
    using assms unfolding accessSingleLine_def bind_Some_iff by (auto simp: abort_simps)
  have "cs_find tag (ca_sets c ! unat j) = None \<and> pos = None \<and> c' = c \<or>
     (\<exists>i s' info'. cs_find tag (ca_sets c ! unat j) = Some i \<and> pos = Some (unat j, i) \<and>
       (if t = LOAD then read_line i (unat off) bytes upd (ca_sets c ! unat j) (ca_info c) = Some (d, s', info')
        else write_line i (unat off) buff bytes upd (ca_sets c ! unat j) (ca_info c) = Some (s', info')) \<and>
       c' = c\<lparr>ca_sets := (ca_sets c)[unat j := s'], ca_info := info'\<rparr>)"
  proof (cases "cs_find tag (ca_sets c ! unat j)")
    case None
    with r show ?thesis by simp
  next
    case (Some i)
    then have "\<exists>s' info'. (if t = LOAD
          then read_line i (unat off) bytes upd (ca_sets c ! unat j) (ca_info c) = Some (d, s', info')
          else write_line i (unat off) buff bytes upd (ca_sets c ! unat j) (ca_info c) = Some (s', info')) \<and>
        pos = Some (unat j, i) \<and> c' = c\<lparr>ca_sets := (ca_sets c)[unat j := s'], ca_info := info'\<rparr>"
      using r by (cases "t = LOAD") (auto simp: abort_simps)
    with Some show ?thesis by blast
  qed
  with split len show thesis by (rule that)
qed

lemma access_effect:
  assumes wf: "cache_wf c" and acc: "accessSingleLine addr t buff bytes upd c = Some (pos, d, c')"
  shows "cache_wf c' \<and> ca_base c' = ca_base c \<and> cache_abs c' = cache_abs c"
proof -
  obtain tag j off where "splitAddress_offset (ca_base c) addr = Some (tag, j, off)"
    and len: "unat j < length (ca_sets c)"
    and r: "cs_find tag (ca_sets c ! unat j) = None \<and> pos = None \<and> c' = c \<or>
     (\<exists>i s' info'. cs_find tag (ca_sets c ! unat j) = Some i \<and> pos = Some (unat j, i) \<and>
       (if t = LOAD then read_line i (unat off) bytes upd (ca_sets c ! unat j) (ca_info c) = Some (d, s', info')
        else write_line i (unat off) buff bytes upd (ca_sets c ! unat j) (ca_info c) = Some (s', info')) \<and>
       c' = c\<lparr>ca_sets := (ca_sets c)[unat j := s'], ca_info := info'\<rparr>)"
    using acc by (rule access_cases)
  let ?n = "unat (cb_associativity (ca_base c))"
  note swf = cache_wf_set [OF wf len]
  from r show ?thesis
  proof
    assume "\<exists>i s' info'. cs_find tag (ca_sets c ! unat j) = Some i \<and> pos = Some (unat j, i) \<and>
       (if t = LOAD then read_line i (unat off) bytes upd (ca_sets c ! unat j) (ca_info c) = Some (d, s', info')
        else write_line i (unat off) buff bytes upd (ca_sets c ! unat j) (ca_info c) = Some (s', info')) \<and>
       c' = c\<lparr>ca_sets := (ca_sets c)[unat j := s'], ca_info := info'\<rparr>"
    then obtain i s' info' where find: "cs_find tag (ca_sets c ! unat j) = Some i"
      and rw: "read_line i (unat off) bytes upd (ca_sets c ! unat j) (ca_info c) = Some (d, s', info') \<or>
        write_line i (unat off) buff bytes upd (ca_sets c ! unat j) (ca_info c) = Some (s', info')"
      and c': "c' = c\<lparr>ca_sets := (ca_sets c)[unat j := s'], ca_info := info'\<rparr>"
      by (auto split: if_splits)
    have i: "i < ?n"
      using cs_find_Some [OF find] swf by (simp add: set_wf_def)
    have s': "set_abs s' = set_abs (ca_sets c ! unat j)" "set_wf ?n s'"
      using rw read_line_abs [OF _ swf i] write_line_abs [OF _ swf i] by blast+
    have "cache_abs c' = cache_abs c"
      unfolding c' cache_abs_update(1) [OF len] s'(1) using len by (auto simp: fun_eq_iff cache_abs_def)
    moreover have "cache_wf c'"
      unfolding c' using wf s'(2) by (intro cache_wf_update)
    ultimately show ?thesis
      using c' by simp
  qed (use wf in simp)
qed

text \<open>An access finds a line exactly when the block is present.\<close>

lemma access_hit_iff:
  assumes wf: "cache_wf c" and acc: "accessSingleLine addr t buff bytes upd c = Some (pos, d, c')"
  shows "\<exists>k. cache_key c addr = Some k \<and> (pos \<noteq> None \<longleftrightarrow> cache_abs c k \<noteq> None)"
proof -
  obtain tag j off where split: "splitAddress_offset (ca_base c) addr = Some (tag, j, off)"
    and len: "unat j < length (ca_sets c)"
    and r: "pos \<noteq> None \<longleftrightarrow> cs_find tag (ca_sets c ! unat j) \<noteq> None"
    using acc by (rule access_cases) auto
  have sp: "splitAddress (ca_base c) addr = Some (tag, j)"
    using split by (auto simp: splitAddress_offset_def Let_def abort_simps)
  have "tag \<noteq> - 1"
    using tag_not_invalid [OF sp] wf by (simp add: cache_wf_def)
  then show ?thesis
    using sp len r by (simp add: cache_key_def cache_abs_def set_abs_def)
qed

lemma cache_key_base: "ca_base c' = ca_base c \<Longrightarrow> cache_key c' = cache_key c"
  by (simp add: cache_key_def fun_eq_iff)

interpretation store: line_store cache_wf cache_key cache_abs touch_op "fill_op evict cntlr" discard_op
  for evict :: CacheBlockInfo and cntlr :: qbs
proof
  fix c a c'
  assume "cache_wf c" and "touch_op a c = Some c'"
  then obtain pos d where "accessSingleLine a LOAD None 0 True c = Some (pos, d, c')"
    by (auto simp: touch_op_def)
  from access_effect [OF \<open>cache_wf c\<close> this] cache_key_base [of c' c]
  show "cache_wf c' \<and> cache_key c' = cache_key c \<and> cache_abs c' = cache_abs c"
    by simp
next
  fix c a k c'
  assume wf: "cache_wf c" and k: "cache_key c a = Some k" and fresh: "cache_abs c k = None"
    and fill: "fill_op evict cntlr a c = Some c'"
  obtain r ev where ins: "insertSingleLine a None evict cntlr c = Some (r, ev, c')"
    using fill by (auto simp: fill_op_def)
  obtain i tag where kt: "k = (i, tag)" by force
  from insert_effect [OF wf k [unfolded kt] fresh [unfolded kt] ins]
  show "cache_wf c' \<and> cache_key c' = cache_key c \<and> (\<exists>l. cache_abs c' k = Some l) \<and>
      (\<forall>j. j \<noteq> k \<longrightarrow> cache_abs c' j = cache_abs c j \<or> cache_abs c' j = None)"
    using cache_key_base [of c' c] by (auto simp: kt split: if_splits)
next
  fix c a k c'
  assume wf: "cache_wf c" and k: "cache_key c a = Some k" and "discard_op a c = Some c'"
  then obtain found where "invalidateSingleLine a c = Some (found, c')"
    by (auto simp: discard_op_def)
  from invalidate_effect [OF wf k this] cache_key_base [of c' c]
  show "cache_wf c' \<and> cache_key c' = cache_key c \<and> cache_abs c' = (cache_abs c)(k := None)"
    by simp
next
  fix c a c'
  assume "discard_op a c = Some c'"
  then show "\<exists>k. cache_key c a = Some k"
    by (auto simp: discard_op_def invalidateSingleLine_def cache_key_def abort_simps)
qed

section \<open>Properties\<close>

lemma Cache_new_wf:
  assumes "Cache_new cfg num_sets associativity blocksize pol t hash ahl = Some c"
    and "associativity \<noteq> 0" and "unat associativity \<le> 256" and "2 \<le> unat blocksize" and "0 < cfg_srrip_bits cfg"
  shows "cache_wf c \<and> (\<forall>k. cache_abs c k = None)"
proof -
  obtain base pl p where base: "CacheBase_new num_sets associativity blocksize hash ahl = Some base"
    and p: "create_policy pl (unat associativity) (cfg_qbs_attempts cfg) (cfg_srrip_bits cfg) (cfg_time cfg) = Some p"
    and c: "ca_base c = base" "ca_sets c = replicate (unat num_sets)
      (CacheSet_new (cfg_fault_injection cfg) t (unat associativity) (unat blocksize) p)"
    using assms(1) by (auto simp: Cache_new_def abort_simps)
  have n: "0 < unat associativity"
    using assms(2) by (simp add: unat_gt_0)
  have b: "cb_associativity base = associativity" "cb_log_blocksize base = nat (floorLog2 blocksize)"
    using base by (auto simp: CacheBase_new_def)
  have "blocksize \<noteq> 0" using assms(4) by auto
  from floorLog2_range [OF this] have "1 \<le> nat (floorLog2 blocksize)"
    using assms(4) by (cases "nat (floorLog2 blocksize)") auto
  moreover have "policy_wf (unat associativity) p"
    using create_policy_wf [OF p n assms(3,5)] .
  then have "set_wf (unat associativity) (CacheSet_new (cfg_fault_injection cfg) t (unat associativity) (unat blocksize) p)"
    by (simp add: set_wf_def CacheSet_new_def tags_distinct_nth)
  ultimately have "cache_wf c"
    using c b n by (simp add: cache_wf_def list_all_length)
  moreover have "cache_abs c k = None" for k
    using c by (cases k) (auto simp: cache_abs_def set_abs_None CacheSet_new_def)
  ultimately show ?thesis by blast
qed

lemma evicted_state:
  assumes "cache_wf c" and "cache_key c addr = Some (i, tag)"
    and "insertSingleLine addr fill evict cntlr c = Some (r, evict_addr, c')" and e: "ins_eviction r"
  shows "evict_addr = tagToAddress (ca_base c) (bi_tag (ins_evict_info r))"
    and "\<exists>old. cache_abs c (i, bi_tag (ins_evict_info r)) = Some old \<and> bi_cstate (ins_evict_info r) = bi_cstate old"
proof -
  obtain s' info' where len: "i < length (ca_sets c)"
    and cs: "cs_insert ((CacheBlockInfo_create (ca_type c))\<lparr>bi_tag := tag\<rparr>) fill evict cntlr
       (ca_sets c ! i) (ca_info c) = Some (r, s', info')"
    and ev: "evict_addr = tagToAddress (ca_base c) (bi_tag (ins_evict_info r))"
    using assms(2,3) by (elim insertSingleLine_cases) (auto simp: cache_key_def)
  note swf = cache_wf_set [OF assms(1) len]
  let ?old = "cs_lines (ca_sets c ! i) ! ins_index r"
  have "ins_eviction r = isValid ?old" "ins_evict_info r = evict_info ?old evict"
    using cs by (elim cs_insert_cases; simp)+
  then have "bi_cstate (ins_evict_info r) = bi_cstate ?old"
    using e evict_info_fields [of ?old evict] by simp
  moreover have "cache_abs c (i, bi_tag (ins_evict_info r)) = Some ?old"
    using evicted_was_present [OF swf cs e] len by (simp add: cache_abs_def)
  ultimately show "\<exists>old. cache_abs c (i, bi_tag (ins_evict_info r)) = Some old \<and> bi_cstate (ins_evict_info r) = bi_cstate old"
    by blast
  show "evict_addr = tagToAddress (ca_base c) (bi_tag (ins_evict_info r))" by (rule ev)
qed

text \<open>C5. Inserting a line into a cache, specified on the map of lines it holds: after the insertion of
  an absent block the block is present with a fresh line in state \<open>INVALID\<close>, the reported victim is
  gone, and every other line is untouched. The address reported for the victim is the address of a
  block that was present before.\<close>

theorem insertSingleLine_spec:
  assumes "cache_wf c" and "cache_key c addr = Some (i, tag)" and "cache_abs c (i, tag) = None"
    and "insertSingleLine addr fill evict cntlr c = Some (r, evict_addr, c')"
  shows "cache_wf c' \<and>
    (\<exists>line. bi_tag line = tag \<and> bi_cstate line = INVALID \<and>
      cache_abs c' = (if ins_eviction r then (cache_abs c)((i, bi_tag (ins_evict_info r)) := None)
        else cache_abs c)((i, tag) \<mapsto> line)) \<and>
    (ins_eviction r \<longrightarrow> evict_addr = tagToAddress (ca_base c) (bi_tag (ins_evict_info r)) \<and>
      (\<exists>old. cache_abs c (i, bi_tag (ins_evict_info r)) = Some old \<and> bi_cstate (ins_evict_info r) = bi_cstate old))"
  using insert_effect [OF assms] evicted_state [OF assms(1,2,4)] by blast

theorem insertSingleLine_spec_witness:
  "\<exists>c r evict_addr c'. cache_key c 0x1040 = Some (1, 0x41) \<and>
    insertSingleLine 0x1040 None (CacheBlockInfo_create SHARED_CACHE) None c = Some (r, evict_addr, c') \<and>
    cache_wf c' \<and>
    (\<exists>line. bi_tag line = 0x41 \<and> bi_cstate line = INVALID \<and>
      cache_abs c' = (if ins_eviction r then (cache_abs c)((1, bi_tag (ins_evict_info r)) := None)
        else cache_abs c)((1, 0x41) \<mapsto> line))"
proof -
  let ?c = "the (Cache_new \<lparr>cfg_fault_injection = False, cfg_qbs_attempts = 1, cfg_srrip_bits = 2, cfg_time = 0\<rparr>
    2 2 64 ''lru'' PR_L1_CACHE HASH_MASK None)"
  have wf: "cache_wf ?c" by code_simp
  have key: "cache_key ?c 0x1040 = Some (1, 0x41)" by code_simp
  have fresh: "cache_abs ?c (1, 0x41) = None" by code_simp
  have "insertSingleLine 0x1040 None (CacheBlockInfo_create SHARED_CACHE) None ?c \<noteq> None" by code_simp
  then obtain r evict_addr c' where
    ins: "insertSingleLine 0x1040 None (CacheBlockInfo_create SHARED_CACHE) None ?c = Some (r, evict_addr, c')"
    by auto
  show ?thesis
    using key ins insertSingleLine_spec [OF wf key fresh ins] by blast
qed

text \<open>C9. A cache never invents lines: start from a freshly constructed cache and perform any sequence
  of invalidations and accesses that insert on a miss; a lookup then finds only blocks that were
  accessed, and it finds the block accessed last.\<close>

theorem cache_holds_only_accessed_blocks:
  assumes "Cache_new cfg num_sets associativity blocksize pol t hash ahl = Some c0"
    and "associativity \<noteq> 0" and "unat associativity \<le> 256" and "2 \<le> unat blocksize" and "0 < cfg_srrip_bits cfg"
    and "fold_opt (store_step cache_key cache_abs touch_op (fill_op evict cntlr) discard_op) ops c0 = Some c1"
    and "store_step cache_key cache_abs touch_op (fill_op evict cntlr) discard_op (Access a) c1 = Some c"
  shows "(\<exists>k line. cache_key c a = Some k \<and> cache_abs c k = Some line) \<and>
    (\<forall>k line. cache_abs c k = Some line \<longrightarrow> (\<exists>b. Access b \<in> set (ops @ [Access a]) \<and> cache_key c0 b = Some k))"
proof -
  have wf0: "cache_wf c0" and empty: "\<And>k. cache_abs c0 k = None"
    using Cache_new_wf [OF assms(1-5)] by auto
  have wf1: "cache_wf c1"
    by (rule fold_opt_inv [OF assms(6), of cache_wf]) (use wf0 store.step_wf in blast)+
  have run: "fold_opt (store_step cache_key cache_abs touch_op (fill_op evict cntlr) discard_op)
      (ops @ [Access a]) c0 = Some c"
    using assms(6,7) by (simp only: fold_opt_append fold_opt.simps bind.simps)
  show ?thesis
    using store.access_present [OF wf1 assms(7)] store.run_present [OF run wf0] empty
    by (metis option.distinct(1))
qed

theorem cache_holds_only_accessed_blocks_witness:
  "\<exists>c0 c1 c. fold_opt (store_step cache_key cache_abs touch_op (fill_op (CacheBlockInfo_create SHARED_CACHE) None)
      discard_op) [Access 0x1040, Access 0x1000, Drop 0x1040] c0 = Some c1 \<and>
    store_step cache_key cache_abs touch_op (fill_op (CacheBlockInfo_create SHARED_CACHE) None) discard_op
      (Access 0x2000) c1 = Some c \<and>
    (\<exists>k line. cache_key c 0x2000 = Some k \<and> cache_abs c k = Some line) \<and>
    (\<forall>k line. cache_abs c k = Some line \<longrightarrow>
      (\<exists>b. Access b \<in> set ([Access 0x1040, Access 0x1000, Drop 0x1040] @ [Access 0x2000]) \<and> cache_key c0 b = Some k))"
proof -
  let ?cfg = "\<lparr>cfg_fault_injection = False, cfg_qbs_attempts = 1, cfg_srrip_bits = 2, cfg_time = 0\<rparr>"
  let ?ops = "[Access 0x1040, Access 0x1000, Drop 0x1040]"
  let ?step = "store_step cache_key cache_abs touch_op (fill_op (CacheBlockInfo_create SHARED_CACHE) None) discard_op"
  let ?c0 = "the (Cache_new ?cfg 2 2 64 ''lru'' PR_L1_CACHE HASH_MASK None)"
  have "Cache_new ?cfg 2 2 64 ''lru'' PR_L1_CACHE HASH_MASK None \<noteq> None" by code_simp
  then have new: "Cache_new ?cfg 2 2 64 ''lru'' PR_L1_CACHE HASH_MASK None = Some ?c0" by auto
  have "Option.bind (fold_opt ?step ?ops ?c0) (?step (Access 0x2000)) \<noteq> None" by code_simp
  then obtain c1 c where run: "fold_opt ?step ?ops ?c0 = Some c1" and last: "?step (Access 0x2000) c1 = Some c"
    by (auto simp: abort_simps simp del: fold_opt.simps store_step.simps)
  have side: "(2 :: u32) \<noteq> 0" "unat (2 :: u32) \<le> 256" "2 \<le> unat (64 :: u32)" "0 < cfg_srrip_bits ?cfg"
    by simp_all
  show ?thesis
    using run last cache_holds_only_accessed_blocks [OF new side run last] by blast
qed

section \<open>Data round trip\<close>

lemma write_line_data:
  assumes "write_line i offset (Some x) (length x) upd s info = Some (s', info')" and "cs_blocks s = Some d"
  shows "\<exists>d'. cs_blocks s' = Some d' \<and> bytes_put d (i * cs_blocksize s + offset) x = Some d'"
proof -
  obtain d' where d': "bytes_put d (i * cs_blocksize s + offset) x = Some d'"
    and r: "(if upd then touch_line i (s\<lparr>cs_blocks := Some d'\<rparr>) info else Some (s\<lparr>cs_blocks := Some d'\<rparr>, info))
      = Some (s', info')"
    using assms by (auto simp: write_line_def abort_simps)
  then show ?thesis
    using touch_line_abs [of i "s\<lparr>cs_blocks := Some d'\<rparr>" info s' info'] by (auto split: if_splits)
qed

lemma read_line_data:
  assumes "read_line i offset n upd s info = Some (out, s', info')" and "cs_blocks s = Some d"
  shows "out = bytes_at d (i * cs_blocksize s + offset) n"
  using assms by (auto simp: read_line_def abort_simps)

text \<open>C11. Data written to a line is read back: in a cache with data arrays, a store that hits followed by
  a load of the same address and size hits the same line and returns the bytes that were stored.\<close>

theorem store_then_load:
  assumes wf: "cache_wf c"
    and st: "accessSingleLine addr STORE (Some x) (length x) upd1 c = Some (Some (i, w), out1, c1)"
    and blocks: "cs_blocks (ca_sets c ! i) \<noteq> None"
    and ld: "accessSingleLine addr LOAD None (length x) upd2 c1 = Some (pos, out2, c2)"
  shows "pos = Some (i, w) \<and> out2 = Some x"
proof -
  obtain tag j off s' info' where split: "splitAddress_offset (ca_base c) addr = Some (tag, j, off)"
    and i: "i = unat j" "i < length (ca_sets c)" and f: "cs_find tag (ca_sets c ! i) = Some w"
    and wr: "write_line w (unat off) (Some x) (length x) upd1 (ca_sets c ! i) (ca_info c) = Some (s', info')"
    and c1: "c1 = c\<lparr>ca_sets := (ca_sets c)[i := s'], ca_info := info'\<rparr>"
    using st by (rule access_cases) auto
  let ?n = "unat (cb_associativity (ca_base c))"
  note swf = cache_wf_set [OF wf i(2)]
  have "w < ?n"
    using cs_find_Some [OF f] swf by (simp add: set_wf_def)
  note keep = write_line_abs [OF wr swf this]
  obtain d d' where d: "cs_blocks (ca_sets c ! i) = Some d" "cs_blocks s' = Some d'"
    "bytes_put d (w * cs_blocksize (ca_sets c ! i) + unat off) x = Some d'"
    using blocks write_line_data [OF wr] by auto
  have f': "cs_find tag s' = Some w"
    using f keep by (simp add: cs_find_def)
  have s1: "ca_sets c1 ! i = s'" "i < length (ca_sets c1)" "ca_base c1 = ca_base c"
    using c1 i(2) by simp_all
  obtain s2 info2 where rd: "read_line w (unat off) (length x) upd2 s' (ca_info c1) = Some (out2, s2, info2)"
    and pos: "pos = Some (i, w)"
    using ld split s1 f' i(1) by (auto simp: accessSingleLine_def abort_simps)
  have "out2 = bytes_at d' (w * cs_blocksize s' + unat off) (length x)"
    by (rule read_line_data [OF rd d(2)])
  also have "\<dots> = Some x"
    using bytes_at_put_same [OF d(3)] keep by simp
  finally show ?thesis
    using pos by simp
qed

theorem store_then_load_witness:
  "\<exists>c i w out1 c1 pos out2 c2.
    accessSingleLine 0x1041 STORE (Some [1, 2, 3]) (length [1, 2, 3 :: u8]) True c = Some (Some (i, w), out1, c1) \<and>
    accessSingleLine 0x1041 LOAD None (length [1, 2, 3 :: u8]) True c1 = Some (pos, out2, c2) \<and>
    pos = Some (i, w) \<and> out2 = Some [1, 2, 3]"
proof -
  let ?c0 = "the (Cache_new \<lparr>cfg_fault_injection = True, cfg_qbs_attempts = 1, cfg_srrip_bits = 2, cfg_time = 0\<rparr>
    2 2 4 ''lru'' PR_L1_CACHE HASH_MASK None)"
  let ?c = "the (fill_op (CacheBlockInfo_create SHARED_CACHE) None 0x1041 ?c0)"
  have wf: "cache_wf ?c" by code_simp
  have "case accessSingleLine 0x1041 STORE (Some [1, 2, 3]) (length [1, 2, 3 :: u8]) True ?c of
      Some (Some p, out1, c1) \<Rightarrow> cs_blocks (ca_sets ?c ! fst p) \<noteq> None \<and>
        accessSingleLine 0x1041 LOAD None (length [1, 2, 3 :: u8]) True c1 \<noteq> None
    | _ \<Rightarrow> False"
    by code_simp
  then obtain i w out1 c1 pos out2 c2 where
    st: "accessSingleLine 0x1041 STORE (Some [1, 2, 3]) (length [1, 2, 3 :: u8]) True ?c = Some (Some (i, w), out1, c1)"
    and b: "cs_blocks (ca_sets ?c ! i) \<noteq> None"
    and ld: "accessSingleLine 0x1041 LOAD None (length [1, 2, 3 :: u8]) True c1 = Some (pos, out2, c2)"
    by (auto split: option.splits prod.splits)
  show ?thesis
    using st ld store_then_load [OF wf st b ld] by blast
qed

end
