(* ===== verification/LruLive.thy ===== *)
theory LruLive
  imports Caches
begin

text \<open>
  Caches in the configuration that the TLBs and most data caches use, LRU replacement with the mask
  hash: no operation on them runs into an assertion. \<open>lru_live\<close> is the invariant, established by the
  constructor and kept by every operation.
\<close>

definition lru_one_attempt :: "policy \<Rightarrow> bool" where
  "lru_one_attempt p \<longleftrightarrow> (case p of PolicyLRU q \<Rightarrow> lru_num_attempts q = 1 | _ \<Rightarrow> False)"

definition info_live :: "nat \<Rightarrow> CacheSetInfoLRU \<Rightarrow> bool" where
  "info_live n info \<longleftrightarrow> si_associativity info = n \<and> length (si_access info) = n \<and> si_attempts info = None"

definition set_live :: "nat \<Rightarrow> nat \<Rightarrow> CacheSet \<Rightarrow> bool" where
  "set_live n b s \<longleftrightarrow> lru_one_attempt (cs_policy s) \<and> cs_blocksize s = b"

definition lru_live :: "Cache \<Rightarrow> bool" where
  "lru_live c \<longleftrightarrow> cache_wf c \<and> cb_hash (ca_base c) = HASH_MASK \<and> cb_ahl (ca_base c) = None \<and>
     cb_num_sets (ca_base c) \<noteq> 0 \<and> length (ca_sets c) = unat (cb_num_sets (ca_base c)) \<and>
     cb_blocksize (ca_base c) \<noteq> 0 \<and>
     list_all (set_live (unat (cb_associativity (ca_base c))) (unat (cb_blocksize (ca_base c)))) (ca_sets c) \<and>
     info_live (unat (cb_associativity (ca_base c))) (ca_info c)"

section \<open>Replacement\<close>

lemma lru_scan_range:
  assumes "index0 < length lines"
  shows "lru_scan lines bits index0 < length lines"
proof -
  have gen: "fst (fold (\<lambda>i (index, max_bits).
         if bits ! i > max_bits \<and> isValidReplacement lines i then (i, bits ! i) else (index, max_bits))
       xs (index0, m)) < length lines" if "set xs \<subseteq> {..<length lines}" "index0 < length lines" for xs index0 m
    using that by (induction xs arbitrary: index0 m) auto
  show ?thesis
    unfolding lru_scan_def by (rule gen) (use assms in auto)
qed

lemma lru_victim_live:
  assumes "lru_one_attempt p" and "lines \<noteq> []" and "info_live n info"
  shows "\<exists>i p' info' cost. getReplacementIndex cntlr lines p info = Some (i, p', info', cost) \<and>
    lru_one_attempt p' \<and> info_live n info'"
proof -
  obtain q where p: "p = PolicyLRU q" "lru_num_attempts q = 1"
    using assms(1) by (auto simp: lru_one_attempt_def split: policy.splits)
  have "lru_attempt cntlr lines 1 0 (0, lru_bits q, info, 0) =
      Some (lru_scan lines (lru_bits q) 0, moveToMRU (lru_scan lines (lru_bits q) 0) (lru_bits q), info, 0)"
    using assms(2,3) lru_scan_range [of 0 lines "lru_bits q"]
    by (simp add: lru_attempt_def Let_def qbs_query_def si_incrementAttempt_def info_live_def)
  then show ?thesis
    using p assms(3)
    by (cases "first_invalid lines") (auto simp: lru_getReplacementIndex_def lru_one_attempt_def)
qed

lemma lru_touch_live:
  assumes "lru_one_attempt p" and "policy_wf n p" and "a < n" and "info_live n info"
  shows "\<exists>p' info'. updateReplacementIndex n a p info = Some (p', info') \<and> lru_one_attempt p' \<and> info_live n info'"
proof -
  obtain q where p: "p = PolicyLRU q" "lru_num_attempts q = 1"
    using assms(1) by (auto simp: lru_one_attempt_def split: policy.splits)
  have bits: "lru_wf (lru_bits q)" "length (lru_bits q) = n"
    using assms(2) p by simp_all
  then have "unat (lru_bits q ! a) < n"
    using lru_wf_age [of "lru_bits q" a] assms(3) by simp
  then show ?thesis
    using p bits assms(3,4)
    by (simp add: lru_updateReplacementIndex_def si_increment_def info_live_def lru_one_attempt_def)
qed

section \<open>Sets\<close>

lemma touch_line_live:
  assumes "set_live n b s" and "set_wf n s" and "i < n" and "info_live n info"
  shows "\<exists>s' info'. touch_line i s info = Some (s', info') \<and> set_live n b s' \<and> info_live n info'"
proof -
  obtain p' info' where "updateReplacementIndex n i (cs_policy s) info = Some (p', info')"
    "lru_one_attempt p'" "info_live n info'"
    using lru_touch_live [of "cs_policy s" n i info] assms by (auto simp: set_live_def set_wf_def)
  then show ?thesis
    using assms(1,2) by (auto simp: touch_line_def set_live_def set_wf_def)
qed

lemma read_line_live:
  assumes "set_live n b s" and "set_wf n s" and "i < n" and "info_live n info" and "offset + bytes \<le> b"
  shows "\<exists>d s' info'. read_line i offset bytes True s info = Some (d, s', info') \<and>
    set_live n b s' \<and> info_live n info'"
proof -
  have "i * b + b \<le> n * b" using assms(3) by (metis Suc_leI add.commute mult_Suc mult_le_mono1)
  then have "bytes_at d (i * b + offset) bytes \<noteq> None" if "cs_blocks s = Some d" for d
    using assms(1,2,5) that by (auto simp: bytes_at_def set_wf_def set_live_def)
  then have "(case cs_blocks s of None \<Rightarrow> Some None
      | Some d \<Rightarrow> do { x \<leftarrow> bytes_at d (i * cs_blocksize s + offset) bytes; Some (Some x) }) \<noteq> None"
    using assms(1) by (auto simp: set_live_def split: option.split)
  then show ?thesis
    using touch_line_live [OF assms(1-4)] assms(1,5) by (auto simp: read_line_def set_live_def)
qed

lemma insert_live:
  assumes "set_live n b s" and "set_wf n s" and "0 < n" and "info_live n info"
  shows "\<exists>r s' info'. cs_insert block fill evict cntlr s info = Some (r, s', info') \<and>
    set_live n b s' \<and> info_live n info'"
proof -
  have ne: "cs_lines s \<noteq> []" and len: "length (cs_lines s) = n" and pol: "policy_wf n (cs_policy s)"
    using assms(2,3) by (auto simp: set_wf_def)
  obtain i p' info' cost where g: "getReplacementIndex cntlr (cs_lines s) (cs_policy s) info = Some (i, p', info', cost)"
    and l: "lru_one_attempt p'" "info_live n info'"
    using lru_victim_live [OF _ ne assms(4), of "cs_policy s" cntlr] assms(1) by (auto simp: set_live_def)
  have "i < length (cs_lines s)"
    using policy.victim_law [OF _ ne g] len pol by simp
  moreover from this have "i * b + b \<le> n * b" using len by (metis Suc_leI add.commute mult_Suc mult_le_mono1)
  then have "copy_out i s \<noteq> None" "copy_in fill i s \<noteq> None"
    using assms(1,2) by (auto simp: copy_out_def copy_in_def set_live_def set_wf_def bytes_at_def bytes_put_def split: option.split)
  then obtain x y where "copy_out i s = Some x" "copy_in fill i s = Some y" by blast
  ultimately show ?thesis
    using g l assms(1) by (simp add: cs_insert_def Let_def set_live_def)
qed

section \<open>Caches\<close>

lemma split_live:
  assumes "lru_live c"
  shows "\<exists>tag i off. splitAddress_offset (ca_base c) addr = Some (tag, i, off) \<and>
    splitAddress (ca_base c) addr = Some (tag, i) \<and> unat i < length (ca_sets c) \<and>
    unat off < unat (cb_blocksize (ca_base c))"
proof -
  let ?b = "ca_base c"
  let ?i = "ucast (drop_bit (cb_log_blocksize ?b) addr AND ucast (cb_num_sets ?b - 1)) :: u32"
  have s: "splitAddress ?b addr = Some (drop_bit (cb_log_blocksize ?b) addr, ?i)"
    using assms by (simp add: lru_live_def splitAddress_def set_index_of_def)
  have "?i < cb_num_sets ?b"
    using assms by (intro mask_range) (simp add: lru_live_def)
  then have "unat ?i < length (ca_sets c)"
    using assms by (simp add: lru_live_def word_less_nat_alt)
  moreover have "(ucast (addr AND ucast (cb_blocksize ?b - 1)) :: u32) < cb_blocksize ?b"
    using assms by (intro mask_range) (simp add: lru_live_def)
  ultimately show ?thesis
    using s by (simp add: splitAddress_offset_def word_less_nat_alt)
qed

lemma lru_live_set:
  "lru_live c \<Longrightarrow> i < length (ca_sets c) \<Longrightarrow>
    set_live (unat (cb_associativity (ca_base c))) (unat (cb_blocksize (ca_base c))) (ca_sets c ! i)"
  by (simp add: lru_live_def list_all_length)

lemma lru_live_update:
  assumes "lru_live c" and "i < length (ca_sets c)"
    and "set_live (unat (cb_associativity (ca_base c))) (unat (cb_blocksize (ca_base c))) s'"
    and "info_live (unat (cb_associativity (ca_base c))) info'"
    and "cache_wf (c\<lparr>ca_sets := (ca_sets c)[i := s'], ca_info := info'\<rparr>)"
  shows "lru_live (c\<lparr>ca_sets := (ca_sets c)[i := s'], ca_info := info'\<rparr>)"
  using assms by (auto simp: lru_live_def list_all_length nth_list_update)

lemma access_live:
  assumes live: "lru_live c"
  shows "\<exists>pos d c'. accessSingleLine addr LOAD None 0 True c = Some (pos, d, c') \<and> lru_live c'"
proof -
  let ?n = "unat (cb_associativity (ca_base c))"
  have wf: "cache_wf c" and info: "info_live ?n (ca_info c)"
    using live by (simp_all add: lru_live_def)
  obtain tag i off where split: "splitAddress_offset (ca_base c) addr = Some (tag, i, off)"
    and i: "unat i < length (ca_sets c)" and off: "unat off < unat (cb_blocksize (ca_base c))"
    using split_live [OF live] by blast
  show ?thesis
  proof (cases "cs_find tag (ca_sets c ! unat i)")
    case None
    then show ?thesis
      using split i live by (simp add: accessSingleLine_def)
  next
    case (Some w)
    have w: "w < ?n"
      using cs_find_Some [OF Some] cache_wf_set [OF wf i] by (simp add: set_wf_def)
    obtain d s' info' where rd: "read_line w (unat off) 0 True (ca_sets c ! unat i) (ca_info c) = Some (d, s', info')"
      and l: "set_live ?n (unat (cb_blocksize (ca_base c))) s'" "info_live ?n info'"
      using read_line_live [OF lru_live_set [OF live i] cache_wf_set [OF wf i] w info, of "unat off" 0] off by auto
    have acc: "accessSingleLine addr LOAD None 0 True c =
        Some (Some (unat i, w), d, c\<lparr>ca_sets := (ca_sets c)[unat i := s'], ca_info := info'\<rparr>)"
      using split i Some rd by (simp add: accessSingleLine_def)
    show ?thesis
      using acc lru_live_update [OF live i l] access_effect [OF wf acc] by blast
  qed
qed

lemma insert_live_cache:
  assumes live: "lru_live c" and key: "cache_key c addr = Some k" and fresh: "cache_abs c k = None"
  shows "\<exists>r ev c'. insertSingleLine addr fill evict cntlr c = Some (r, ev, c') \<and> lru_live c'"
proof -
  let ?n = "unat (cb_associativity (ca_base c))"
  have wf: "cache_wf c" and info: "info_live ?n (ca_info c)" and n: "0 < ?n"
    using live by (simp_all add: lru_live_def cache_wf_def)
  obtain tag i where split: "splitAddress (ca_base c) addr = Some (tag, i)" and i: "unat i < length (ca_sets c)"
    using split_live [OF live] by blast
  obtain r s' info' where cs: "cs_insert ((CacheBlockInfo_create (ca_type c))\<lparr>bi_tag := tag\<rparr>) fill evict cntlr
      (ca_sets c ! unat i) (ca_info c) = Some (r, s', info')"
    and l: "set_live ?n (unat (cb_blocksize (ca_base c))) s'" "info_live ?n info'"
    using insert_live [OF lru_live_set [OF live i] cache_wf_set [OF wf i] n info] by blast
  have ins: "insertSingleLine addr fill evict cntlr c = Some (r, tagToAddress (ca_base c) (bi_tag (ins_evict_info r)),
      c\<lparr>ca_sets := (ca_sets c)[unat i := s'], ca_info := info'\<rparr>)"
    using split i cs by (simp add: insertSingleLine_def Let_def)
  have k: "cache_key c addr = Some (unat i, tag)"
    using split by (simp add: cache_key_def)
  then have "cache_abs c (unat i, tag) = None"
    using key fresh by simp
  from insert_effect [OF wf k this ins] lru_live_update [OF live i l] ins show ?thesis by blast
qed

lemma lru_live_key: "lru_live c \<Longrightarrow> \<exists>k. cache_key c addr = Some k"
  using split_live [of c addr] by (auto simp: cache_key_def)

lemma Cache_new_live:
  assumes "num_sets \<noteq> 0" and "isPower2 num_sets" and "associativity \<noteq> 0" and "unat associativity \<le> 256"
    and "2 \<le> unat blocksize" and "0 < cfg_srrip_bits cfg"
  shows "\<exists>c. Cache_new cfg num_sets associativity blocksize ''lru'' t HASH_MASK None = Some c \<and> lru_live c \<and>
    (\<forall>k. cache_abs c k = None)"
proof -
  have b0: "blocksize \<noteq> 0" using assms(5) by auto
  obtain k where k: "unat num_sets = 2 ^ k"
    using assms(1,2) by (auto simp: isPower2_iff)
  have "(2 :: nat) ^ k < 2 ^ 32"
    using unat_lt2p [of num_sets] k by simp
  then have "k < 32"
    by (rule power_less_imp_less_exp [rotated]) simp
  then have "unat num_sets = unat (2 ^ k :: u32)"
    using k by (simp add: unat_exp)
  then have "num_sets = 2 ^ k" by (simp only: word_unat_eq_iff)
  then have "nat (floorLog2 num_sets) = k"
    using floorLog2_power [OF \<open>k < 32\<close>] by simp
  then have "(ucast num_sets :: u64) = push_bit (nat (floorLog2 num_sets)) 1"
    using \<open>k < 32\<close> k by (simp add: word_unat_eq_iff push_bit_eq_mult unat_exp)
  then obtain base where base: "CacheBase_new num_sets associativity blocksize HASH_MASK None = Some base"
    using assms(1) b0 by (simp add: CacheBase_new_def)
  then have bf: "cb_hash base = HASH_MASK" "cb_ahl base = None" "cb_num_sets base = num_sets"
    "cb_associativity base = associativity" "cb_blocksize base = blocksize"
    by (auto simp: CacheBase_new_def)
  let ?p = "PolicyLRU (CacheSetLRU_new (unat associativity) 1)"
  obtain c where c: "Cache_new cfg num_sets associativity blocksize ''lru'' t HASH_MASK None = Some c"
    and cf: "ca_base c = base" "ca_sets c = replicate (unat num_sets)
        (CacheSet_new (cfg_fault_injection cfg) t (unat associativity) (unat blocksize) ?p)"
      "ca_info c = CacheSetInfoLRU_new (unat associativity) 1"
    using base by (simp add: Cache_new_def parsePolicyType_def getNumQBSAttempts_def)
  have "cache_wf c \<and> (\<forall>k. cache_abs c k = None)"
    by (rule Cache_new_wf [OF c assms(3,4,5,6)])
  moreover from this have "lru_live c"
    using assms(1) b0 by (simp add: lru_live_def cf bf list_all_length set_live_def CacheSet_new_def
        lru_one_attempt_def CacheSetLRU_new_def info_live_def CacheSetInfoLRU_new_def)
  ultimately show ?thesis
    using c by blast
qed

end
