(* ===== verification/Tlb.thy ===== *)
theory Tlb
  imports LruLive
begin

text \<open>
  The TLBs with the dead page predictor dpPred,
  \<^verbatim>\<open>parametric_dram_directory_msi/tlb.cc\<close>, and the TLB access of
  \<^verbatim>\<open>memory_manager.cc\<close>. A \<^verbatim>\<open>std::map\<close> that is only read and written with \<^verbatim>\<open>operator[]\<close> is a total
  function with default 0. The page frame queue \<^verbatim>\<open>pfq\<close> is a static member shared by all TLBs, and is
  threaded beside them. A TLB and its chain of next levels is a list.
\<close>

section \<open>State\<close>

record TLB =
  tlb_size :: u32
  tlb_associativity :: u32
  tlb_cache :: Cache
  tlb_access :: u64
  tlb_miss :: u64
  tlb_alloc :: u64
  tlb_bypass :: u64
  tlb_conf_counter :: u32
  tlb_phist :: "IntPtr \<Rightarrow> IntPtr \<Rightarrow> u64"
  tlb_llt_hits :: "IntPtr \<Rightarrow> u64"
  tlb_pc_hist :: "IntPtr \<Rightarrow> IntPtr"
  tlb_shadow_table :: "IntPtr list"
  tlb_last_pc :: IntPtr
  tlb_dppred :: bool
  tlb_phist_thd :: u64
  tlb_pfq_size :: u64
  tlb_shadow_table_size :: u64

abbreviation (input) SIM_PAGE_SIZE :: u32 where "SIM_PAGE_SIZE \<equiv> 4096"
abbreviation (input) llt_size :: u32 where "llt_size \<equiv> 1024"
abbreviation (input) pc_bits :: nat where "pc_bits \<equiv> 6"
abbreviation (input) vpn_bits :: nat where "vpn_bits \<equiv> 4"
abbreviation (input) index_size :: nat where "index_size \<equiv> 32"
abbreviation (input) hw_page_bitmask :: u64 where "hw_page_bitmask \<equiv> 0xfffffffffffff000"
abbreviation (input) sw_page_bitshift :: nat where "sw_page_bitshift \<equiv> 17"

section \<open>Settings\<close>

text \<open>
  The configuration file is a list of lines, or absent. \<^verbatim>\<open>std::stoi\<close> and \<^verbatim>\<open>std::stoull\<close> skip white space,
  read an optional sign and then digits, ignore what follows, and throw when there is no digit or
  the value does not fit; a thrown exception is an abort.
\<close>

definition is_space :: "char \<Rightarrow> bool" where
  "is_space c \<longleftrightarrow> c \<in> {CHR '' '', CHR 0x09, CHR 0x0A, CHR 0x0B, CHR 0x0C, CHR 0x0D}"

definition is_digit :: "char \<Rightarrow> bool" where
  "is_digit c \<longleftrightarrow> 48 \<le> (of_char c :: nat) \<and> (of_char c :: nat) \<le> 57"

definition digits_value :: "string \<Rightarrow> nat" where
  "digits_value ds = foldl (\<lambda>v d. 10 * v + (of_char d - 48)) 0 ds"

definition parse_integer :: "string \<Rightarrow> (bool \<times> nat) option" where
  "parse_integer s =
     (let t = dropWhile is_space s;
          (neg, u) = (case t of
              c # r \<Rightarrow> if c = CHR ''-'' then (True, r) else if c = CHR ''+'' then (False, r) else (False, t)
            | [] \<Rightarrow> (False, []));
          ds = takeWhile is_digit u
      in if ds = [] then None else Some (neg, digits_value ds))"

definition stoull :: "string \<Rightarrow> u64 option" where
  "stoull s = do {
     (neg, v) \<leftarrow> parse_integer s;
     ensure (v < 2 ^ 64);
     Some (if neg then - of_nat v else of_nat v)
   }"

definition stoi :: "string \<Rightarrow> int option" where
  "stoi s = do {
     (neg, v) \<leftarrow> parse_integer s;
     let i = (if neg then - int v else int v);
     ensure (- (2 ^ 31) \<le> i \<and> i < 2 ^ 31);
     Some i
   }"

text \<open>The value of a key: the text behind the first \<open>=\<close> of the first line whose key is equal.\<close>

fun read_config_value :: "string list \<Rightarrow> string \<Rightarrow> string option" where
  "read_config_value [] key = None"
| "read_config_value (line # rest) key =
     (if CHR ''='' \<in> set line \<and> takeWhile (\<lambda>c. c \<noteq> CHR ''='') line = key
      then Some (tl (dropWhile (\<lambda>c. c \<noteq> CHR ''='') line))
      else read_config_value rest key)"

definition setting_bool :: "string list option \<Rightarrow> string \<Rightarrow> bool \<Rightarrow> bool option" where
  "setting_bool file key v = (case Option.bind file (\<lambda>ls. read_config_value ls key) of
       None \<Rightarrow> Some v
     | Some t \<Rightarrow> do { i \<leftarrow> stoi t; Some (i \<noteq> 0) })"

definition setting_u64 :: "string list option \<Rightarrow> string \<Rightarrow> u64 \<Rightarrow> u64 option" where
  "setting_u64 file key v = (case Option.bind file (\<lambda>ls. read_config_value ls key) of
       None \<Rightarrow> Some v
     | Some t \<Rightarrow> stoull t)"

definition tlb_load_settings :: "string list option \<Rightarrow> TLB \<Rightarrow> TLB option" where
  "tlb_load_settings config_file t = do {
     dppred \<leftarrow> setting_bool config_file ''DPPRED'' (tlb_dppred t);
     thd \<leftarrow> setting_u64 config_file ''PHIST_THD'' (tlb_phist_thd t);
     pfq_size \<leftarrow> setting_u64 config_file ''PFQ_SIZE'' (tlb_pfq_size t);
     shadow \<leftarrow> setting_u64 config_file ''SHADOW_TABLE_SIZE'' (tlb_shadow_table_size t);
     Some (t\<lparr>tlb_dppred := dppred, tlb_phist_thd := thd, tlb_pfq_size := pfq_size,
       tlb_shadow_table_size := shadow\<rparr>)
   }"

text \<open>The constructor leaves \<^verbatim>\<open>last_pc\<close> uninitialised; \<open>garbage\<close> is the value it happens to have.\<close>

definition TLB_new :: "cache_config \<Rightarrow> string list option \<Rightarrow> IntPtr \<Rightarrow> u32 \<Rightarrow> u32 \<Rightarrow> u32 \<Rightarrow> TLB option" where
  "TLB_new cfg config_file garbage num_entries associativity conf_count = do {
     ensure (associativity \<noteq> 0);
     c \<leftarrow> Cache_new cfg (num_entries div associativity) associativity SIM_PAGE_SIZE ''lru'' PR_L1_CACHE
            HASH_MASK None;
     ensure (num_entries div associativity * associativity = num_entries);
     tlb_load_settings config_file
       \<lparr>tlb_size = num_entries, tlb_associativity = associativity, tlb_cache = c,
        tlb_access = 0, tlb_miss = 0, tlb_alloc = 0, tlb_bypass = 0, tlb_conf_counter = conf_count,
        tlb_phist = (\<lambda>_ _. 0), tlb_llt_hits = (\<lambda>_. 0), tlb_pc_hist = (\<lambda>_. 0),
        tlb_shadow_table = [], tlb_last_pc = garbage, tlb_dppred = True, tlb_phist_thd = 6,
        tlb_pfq_size = 8, tlb_shadow_table_size = 2\<rparr>
   }"

section \<open>Predictor\<close>

fun findHash_loop :: "nat \<Rightarrow> nat \<Rightarrow> IntPtr \<Rightarrow> IntPtr \<Rightarrow> IntPtr" where
  "findHash_loop 0 bits remaining hash = hash"
| "findHash_loop (Suc i) bits remaining hash =
     findHash_loop i bits (drop_bit bits remaining) (hash XOR (remaining mod 2 ^ bits))"

definition findHash :: "IntPtr \<Rightarrow> nat \<Rightarrow> IntPtr" where
  "findHash index bits = findHash_loop (index_size div bits) bits index 0"

text \<open>\<^verbatim>\<open>pop_front\<close> on an empty queue is undefined and an abort.\<close>

definition pop_front :: "'a list \<Rightarrow> 'a list option" where
  "pop_front q = (case q of [] \<Rightarrow> None | x # xs \<Rightarrow> Some xs)"

definition add_recent_pfn :: "u64 \<Rightarrow> IntPtr \<Rightarrow> IntPtr list \<Rightarrow> IntPtr list option" where
  "add_recent_pfn pfq_size address pfq =
     (let page = drop_bit sw_page_bitshift address in
      if length pfq < unat pfq_size then Some (pfq @ [page])
      else do { q \<leftarrow> pop_front pfq; Some (q @ [page]) })"

definition shadow_table_search :: "IntPtr \<Rightarrow> IntPtr list \<Rightarrow> bool" where
  "shadow_table_search vpn table = list_ex (\<lambda>i. table ! i = vpn) [0..<length table]"

definition shadow_table_insert :: "u64 \<Rightarrow> IntPtr \<Rightarrow> IntPtr list \<Rightarrow> IntPtr list option" where
  "shadow_table_insert sz vpn table = do {
     table' \<leftarrow> (if length table = unat sz then pop_front table else Some table);
     Some (table' @ [vpn])
   }"

definition flushing_vpn_column :: "IntPtr \<Rightarrow> (IntPtr \<Rightarrow> IntPtr \<Rightarrow> u64) \<Rightarrow> (IntPtr \<Rightarrow> IntPtr \<Rightarrow> u64)" where
  "flushing_vpn_column temp_hash_vpn phist =
     fold (\<lambda>pc_hash h. h(temp_hash_vpn := (h temp_hash_vpn)(of_nat pc_hash := 0))) [0..<2 ^ pc_bits] phist"

definition updating_phist :: "IntPtr \<Rightarrow> TLB \<Rightarrow> TLB" where
  "updating_phist evict_addr t =
     (let evict_vpn = evict_addr AND hw_page_bitmask;
          evict_pc = tlb_pc_hist t evict_vpn;
          ev_vpn_hash = findHash evict_vpn vpn_bits;
          ev_pc_hash = findHash evict_pc pc_bits;
          row = tlb_phist t ev_vpn_hash
      in t\<lparr>tlb_phist := (tlb_phist t)(ev_vpn_hash :=
           row(ev_pc_hash := (if tlb_llt_hits t evict_vpn = 0 then row ev_pc_hash + 1 else 0)))\<rparr>)"

section \<open>Allocation\<close>

definition in_llt :: "TLB \<Rightarrow> bool" where
  "in_llt t \<longleftrightarrow> tlb_size t = llt_size"

definition tlb_insert :: "IntPtr \<Rightarrow> TLB \<Rightarrow> TLB option" where
  "tlb_insert address t = do {
     let t1 = t\<lparr>tlb_alloc := tlb_alloc t + 1\<rparr>;
     (r, evict_addr, c) \<leftarrow>
       insertSingleLine address None (CacheBlockInfo_new (- 1) INVALID 0 BaseBlock) None (tlb_cache t1);
     let t2 = t1\<lparr>tlb_cache := c\<rparr>;
     Some (if tlb_dppred t \<and> ins_eviction r \<and> in_llt t then updating_phist evict_addr t2 else t2)
   }"

definition allocate :: "IntPtr \<Rightarrow> TLB \<Rightarrow> IntPtr list \<Rightarrow> (TLB \<times> IntPtr list) option" where
  "allocate address t pfq =
     (if tlb_dppred t \<and> in_llt t then do {
        let temp_vpn = address AND hw_page_bitmask;
        let temp_hash_vpn = findHash temp_vpn vpn_bits;
        let temp_hash_pc = findHash (tlb_last_pc t) pc_bits;
        let t1 = t\<lparr>tlb_pc_hist := (tlb_pc_hist t)(temp_vpn := tlb_last_pc t)\<rparr>;
        let t2 = (if shadow_table_search temp_vpn (tlb_shadow_table t1)
                  then t1\<lparr>tlb_phist := flushing_vpn_column temp_hash_vpn (tlb_phist t1)\<rparr> else t1);
        if tlb_phist t2 temp_hash_vpn temp_hash_pc > tlb_phist_thd t2
        then do {
          table \<leftarrow> shadow_table_insert (tlb_shadow_table_size t2) temp_vpn (tlb_shadow_table t2);
          pfq' \<leftarrow> add_recent_pfn (tlb_pfq_size t2) temp_vpn pfq;
          Some (t2\<lparr>tlb_bypass := tlb_bypass t2 + 1, tlb_shadow_table := table\<rparr>, pfq')
        }
        else do {
          t3 \<leftarrow> tlb_insert address (t2\<lparr>tlb_llt_hits := (tlb_llt_hits t2)(temp_vpn := 0)\<rparr>);
          Some (t3, pfq)
        }
      }
      else do { t1 \<leftarrow> tlb_insert address t; Some (t1, pfq) })"

definition setDeadBit :: "IntPtr \<Rightarrow> TLB \<Rightarrow> TLB option" where
  "setDeadBit address t = do { c \<leftarrow> setPrDeadBit address (tlb_cache t); Some (t\<lparr>tlb_cache := c\<rparr>) }"

section \<open>Lookup\<close>

text \<open>The part of a lookup that searches this level. The results are the hit and the updated TLB.\<close>

definition tlb_search :: "IntPtr \<Rightarrow> bool \<Rightarrow> TLB \<Rightarrow> (bool \<times> TLB) option" where
  "tlb_search address isIfetch t = do {
     (pos, d, c) \<leftarrow> accessSingleLine address LOAD None 0 True (tlb_cache t);
     let t1 = t\<lparr>tlb_cache := c, tlb_access := tlb_access t + 1\<rparr>;
     let t2 = (if isIfetch then t1\<lparr>tlb_last_pc := address\<rparr> else t1);
     let temp = address AND hw_page_bitmask;
     if pos \<noteq> None
     then Some (True, if in_llt t2
       then t2\<lparr>tlb_llt_hits := (tlb_llt_hits t2)(temp := tlb_llt_hits t2 temp + 1)\<rparr> else t2)
     else Some (False, t2\<lparr>tlb_miss := tlb_miss t2 + 1\<rparr>)
   }"

text \<open>The time charged for the next level, in femtoseconds.\<close>

abbreviation (input) tlb_step_time :: nat where "tlb_step_time \<equiv> 3007512"

fun lookup :: "IntPtr \<Rightarrow> bool \<Rightarrow> bool \<Rightarrow> TLB list \<Rightarrow> IntPtr list \<Rightarrow>
    (bool \<times> nat \<times> TLB list \<times> IntPtr list) option" where
  "lookup address isIfetch allocate_on_miss [] pfq = None"
| "lookup address isIfetch allocate_on_miss (t # next_level) pfq = do {
     (hit, t1) \<leftarrow> tlb_search address isIfetch t;
     if hit then Some (True, 0, t1 # next_level, pfq)
     else do {
       (hit', time, next', pfq1) \<leftarrow>
         (if next_level \<noteq> []
          then do {
            (h, time, n, q) \<leftarrow> lookup address False True next_level pfq;
            Some (h, tlb_step_time + time, n, q) }
          else Some (False, 0, [], pfq));
       (t2, pfq2) \<leftarrow> (if allocate_on_miss then allocate address t1 pfq1 else Some (t1, pfq1));
       Some (hit', time, t2 # next', pfq2)
     }
   }"

datatype MemModeled = MEM_MODELED_NONE | MEM_MODELED_COUNT | MEM_MODELED_COUNT_TLBTIME | MEM_MODELED_TIME
  | MEM_MODELED_FENCED | MEM_MODELED_RETURN

record tlb_access_result =
  tar_elapsed :: nat
  tar_miss_instruction :: "nat option"

definition accessTLB :: "nat \<Rightarrow> bool \<Rightarrow> TLB list \<Rightarrow> IntPtr \<Rightarrow> bool \<Rightarrow> MemModeled \<Rightarrow> IntPtr list \<Rightarrow>
    (tlb_access_result \<times> TLB list \<times> IntPtr list) option" where
  "accessTLB miss_penalty miss_parallel tlbs address isIfetch modeled pfq = do {
     (hit, time, tlbs', pfq') \<leftarrow> lookup address isIfetch True tlbs pfq;
     let charge = (\<not> hit \<and> \<not> (modeled = MEM_MODELED_NONE \<or> modeled = MEM_MODELED_COUNT) \<and> miss_penalty \<noteq> 0);
     Some (\<lparr>tar_elapsed = time + (if charge \<and> miss_parallel then miss_penalty else 0),
            tar_miss_instruction = (if charge \<and> \<not> miss_parallel then Some miss_penalty else None)\<rparr>,
           tlbs', pfq')
   }"

section \<open>Hashing\<close>

lemma findHash_loop_bound:
  assumes "0 < bits" and "bits < 64" and "unat hash < 2 ^ bits"
  shows "unat (findHash_loop i bits remaining hash) < 2 ^ bits"
  using assms(3)
proof (induction i arbitrary: remaining hash)
  case (Suc i)
  have "unat (remaining mod 2 ^ bits) < 2 ^ bits"
    using assms(2) by (simp add: unat_mod unat_exp)
  then have "unat (hash XOR (remaining mod 2 ^ bits)) < 2 ^ bits"
    unfolding unsigned_xor_eq by (intro xor_less_exp Suc.prems)
  then show ?case
    using Suc.IH by simp
qed simp

lemma findHash_bound: "0 < bits \<Longrightarrow> bits < 64 \<Longrightarrow> unat (findHash index bits) < 2 ^ bits"
  by (simp add: findHash_def findHash_loop_bound)

lemma flushing_upto:
  "fold (\<lambda>pc_hash h. h(v := (h v)(of_nat pc_hash := (0 :: u64)))) [0..<n] h =
    h(v := (\<lambda>pc :: IntPtr. if \<exists>k < n. pc = of_nat k then 0 else h v pc))"
  by (induction n) (auto simp: fun_eq_iff less_Suc_eq)

text \<open>A flush clears the counters of every program counter hash.\<close>

lemma flushing_all:
  "flushing_vpn_column v h v (findHash pc pc_bits) = 0"
  "w \<noteq> v \<Longrightarrow> flushing_vpn_column v h w = h w"
proof -
  have "unat (findHash pc pc_bits) < 2 ^ pc_bits"
    by (rule findHash_bound) simp_all
  then have "\<exists>k < 2 ^ pc_bits. findHash pc pc_bits = of_nat k"
    by (intro exI [of _ "unat (findHash pc pc_bits)"]) simp
  then show "flushing_vpn_column v h v (findHash pc pc_bits) = 0"
    unfolding flushing_vpn_column_def flushing_upto by simp
  show "w \<noteq> v \<Longrightarrow> flushing_vpn_column v h w = h w"
    unfolding flushing_vpn_column_def flushing_upto by simp
qed

section \<open>Bounded queues\<close>

text \<open>The interface of a queue that keeps the most recent \<open>cap\<close> entries; \<open>entry\<close> is what is stored for
  an argument.\<close>

locale recent_queue =
  fixes cap :: nat and entry :: "'a \<Rightarrow> 'b" and push :: "'a \<Rightarrow> 'b list \<Rightarrow> 'b list option"
  assumes cap_pos: "0 < cap"
    and push_law: "length q \<le> cap \<Longrightarrow> push x q = Some (drop (Suc (length q) - cap) (q @ [entry x]))"
begin

lemma push_bounded: "length q \<le> cap \<Longrightarrow> push x q = Some q' \<Longrightarrow> length q' \<le> cap"
  using push_law by auto

lemma push_member: "length q \<le> cap \<Longrightarrow> push x q = Some q' \<Longrightarrow> entry x \<in> set q'"
  using push_law [of q x] cap_pos by (auto simp: in_set_conv_decomp)

text \<open>The queue holds the last \<open>cap\<close> entries pushed, in order.\<close>

lemma pushes:
  assumes "length q \<le> cap"
  shows "fold_opt push xs q = Some (drop (length q + length xs - cap) (q @ map entry xs))"
  using assms
proof (induction xs arbitrary: q)
  case (Cons x xs)
  let ?q = "drop (Suc (length q) - cap) (q @ [entry x])"
  have "length ?q \<le> cap" by simp
  then have "fold_opt push (x # xs) q = Some (drop (length ?q + length xs - cap) (?q @ map entry xs))"
    using push_law [OF Cons.prems] Cons.IH by simp
  also have "drop (length ?q + length xs - cap) (?q @ map entry xs)
      = drop (length q + length (x # xs) - cap) (q @ map entry (x # xs))"
  proof (cases "length q < cap")
    case True
    then show ?thesis by simp
  next
    case False
    then have "length q = cap" using Cons.prems by simp
    then have "?q @ map entry xs = drop 1 (q @ entry x # map entry xs)" and "length ?q = cap"
      using cap_pos by (simp_all add: drop_append)
    then show ?thesis
      using \<open>length q = cap\<close> by (simp only: drop_drop) simp
  qed
  finally show ?case .
qed simp

end

lemma shadow_push_law:
  assumes "0 < unat sz" and "length q \<le> unat sz"
  shows "shadow_table_insert sz x q = Some (drop (Suc (length q) - unat sz) (q @ [x]))"
  using assms
  by (cases q) (auto simp: shadow_table_insert_def pop_front_def split: if_splits)

lemma pfq_push_law:
  assumes "0 < unat sz" and "length q \<le> unat sz"
  shows "add_recent_pfn sz x q = Some (drop (Suc (length q) - unat sz) (q @ [drop_bit sw_page_bitshift x]))"
  using assms
  by (cases q) (auto simp: add_recent_pfn_def pop_front_def Let_def split: if_splits)

interpretation shadow: recent_queue "unat (max 1 sz)" "\<lambda>x. x" "shadow_table_insert (max 1 sz)" for sz :: u64
  by unfold_locales (auto simp: shadow_push_law max_def word_le_nat_alt word_less_nat_alt)

interpretation pfq: recent_queue "unat (max 1 sz)" "drop_bit sw_page_bitshift" "add_recent_pfn (max 1 sz)" for sz :: u64
  by unfold_locales (auto simp: pfq_push_law max_def word_le_nat_alt word_less_nat_alt)

section \<open>What an allocation does\<close>

text \<open>The decision of the predictor, as the description of dpPred states it: bypass a page that is not in
  the shadow table and whose counter is above the threshold.\<close>

definition bypasses :: "IntPtr \<Rightarrow> TLB \<Rightarrow> bool" where
  "bypasses address t \<longleftrightarrow> tlb_dppred t \<and> in_llt t \<and> address AND hw_page_bitmask \<notin> set (tlb_shadow_table t) \<and>
     tlb_phist t (findHash (address AND hw_page_bitmask) vpn_bits) (findHash (tlb_last_pc t) pc_bits) > tlb_phist_thd t"

lemma shadow_search_set: "shadow_table_search vpn table \<longleftrightarrow> vpn \<in> set table"
  by (auto simp: shadow_table_search_def list_ex_iff in_set_conv_nth)

definition tlb_wf :: "TLB \<Rightarrow> bool" where
  "tlb_wf t \<longleftrightarrow> cache_wf (tlb_cache t) \<and> 0 < unat (tlb_shadow_table_size t) \<and> 0 < unat (tlb_pfq_size t) \<and>
     length (tlb_shadow_table t) \<le> unat (tlb_shadow_table_size t)"

text \<open>The page is in the translation buffer.\<close>

definition holds :: "TLB \<Rightarrow> IntPtr \<Rightarrow> bool" where
  "holds t address \<longleftrightarrow> (\<exists>k line. cache_key (tlb_cache t) address = Some k \<and> cache_abs (tlb_cache t) k = Some line)"

lemma updating_phist_frame [simp]:
  "tlb_cache (updating_phist a t) = tlb_cache t" "tlb_size (updating_phist a t) = tlb_size t"
  "tlb_last_pc (updating_phist a t) = tlb_last_pc t" "tlb_shadow_table (updating_phist a t) = tlb_shadow_table t"
  "tlb_shadow_table_size (updating_phist a t) = tlb_shadow_table_size t"
  "tlb_pfq_size (updating_phist a t) = tlb_pfq_size t" "tlb_bypass (updating_phist a t) = tlb_bypass t"
  "tlb_alloc (updating_phist a t) = tlb_alloc t" "tlb_dppred (updating_phist a t) = tlb_dppred t"
  "tlb_phist_thd (updating_phist a t) = tlb_phist_thd t" "tlb_miss (updating_phist a t) = tlb_miss t"
  "tlb_access (updating_phist a t) = tlb_access t" "tlb_llt_hits (updating_phist a t) = tlb_llt_hits t"
  by (simp_all add: updating_phist_def Let_def)

lemma tlb_insert_cache:
  assumes "tlb_insert address t = Some t'"
  obtains r ev c where
    "insertSingleLine address None (CacheBlockInfo_new (- 1) INVALID 0 BaseBlock) None (tlb_cache t) = Some (r, ev, c)"
    "tlb_cache t' = c" "tlb_alloc t' = tlb_alloc t + 1" "tlb_bypass t' = tlb_bypass t"
    "tlb_shadow_table t' = tlb_shadow_table t" "tlb_shadow_table_size t' = tlb_shadow_table_size t"
    "tlb_pfq_size t' = tlb_pfq_size t" "tlb_last_pc t' = tlb_last_pc t" "tlb_size t' = tlb_size t"
    "tlb_dppred t' = tlb_dppred t" "tlb_phist_thd t' = tlb_phist_thd t"
  using assms by (auto simp: tlb_insert_def Let_def abort_simps)

lemma tlb_insert_effect:
  assumes "cache_wf (tlb_cache t)" and "tlb_insert address t = Some t'" and "\<not> holds t address"
  shows "cache_wf (tlb_cache t') \<and> holds t' address"
proof -
  obtain r ev c where
    ins: "insertSingleLine address None (CacheBlockInfo_new (- 1) INVALID 0 BaseBlock) None (tlb_cache t) = Some (r, ev, c)"
    and c: "tlb_cache t' = c"
    using assms(2) by (rule tlb_insert_cache)
  obtain tag i where key: "cache_key (tlb_cache t) address = Some (i, tag)"
    using ins by (elim insertSingleLine_cases) (auto simp: cache_key_def)
  have fresh: "cache_abs (tlb_cache t) (i, tag) = None"
    using assms(3) key by (auto simp: holds_def)
  from insert_effect [OF assms(1) key fresh ins] cache_key_base [of c "tlb_cache t"] key c
  show ?thesis by (auto simp: holds_def)
qed

lemma allocate_bypass:
  assumes wf: "tlb_wf t" and "length pfq \<le> unat (tlb_pfq_size t)" and byp: "bypasses address t"
  shows "\<exists>table pfq'.
    allocate address t pfq = Some (t\<lparr>
      tlb_pc_hist := (tlb_pc_hist t)(address AND hw_page_bitmask := tlb_last_pc t),
      tlb_bypass := tlb_bypass t + 1, tlb_shadow_table := table\<rparr>, pfq') \<and>
    shadow_table_insert (tlb_shadow_table_size t) (address AND hw_page_bitmask) (tlb_shadow_table t) = Some table \<and>
    add_recent_pfn (tlb_pfq_size t) (address AND hw_page_bitmask) pfq = Some pfq'"
proof -
  obtain table where tb: "shadow_table_insert (tlb_shadow_table_size t) (address AND hw_page_bitmask)
      (tlb_shadow_table t) = Some table"
    using shadow_push_law wf by (fastforce simp: tlb_wf_def)
  obtain pfq' where q: "add_recent_pfn (tlb_pfq_size t) (address AND hw_page_bitmask) pfq = Some pfq'"
    using pfq_push_law wf assms(2) by (fastforce simp: tlb_wf_def)
  show ?thesis
    using byp tb q by (simp add: allocate_def bypasses_def Let_def shadow_search_set)
qed

lemma allocate_inserts:
  assumes "\<not> bypasses address t"
  obtains u where "allocate address t pfq = map_option (\<lambda>t'. (t', pfq)) (tlb_insert address u)"
    "tlb_cache u = tlb_cache t" "tlb_alloc u = tlb_alloc t" "tlb_bypass u = tlb_bypass t"
    "tlb_shadow_table u = tlb_shadow_table t" "tlb_shadow_table_size u = tlb_shadow_table_size t"
    "tlb_pfq_size u = tlb_pfq_size t" "tlb_last_pc u = tlb_last_pc t" "tlb_size u = tlb_size t"
proof (cases "tlb_dppred t \<and> in_llt t")
  case False
  then have "allocate address t pfq = map_option (\<lambda>t'. (t', pfq)) (tlb_insert address t)"
    by (auto simp: allocate_def map_conv_bind_option comp_def)
  then show ?thesis by (rule that) simp_all
next
  case True
  let ?vpn = "address AND hw_page_bitmask"
  let ?t1 = "t\<lparr>tlb_pc_hist := (tlb_pc_hist t)(?vpn := tlb_last_pc t)\<rparr>"
  let ?t2 = "if ?vpn \<in> set (tlb_shadow_table t)
    then ?t1\<lparr>tlb_phist := flushing_vpn_column (findHash ?vpn vpn_bits) (tlb_phist t)\<rparr> else ?t1"
  let ?u = "?t2\<lparr>tlb_llt_hits := (tlb_llt_hits ?t2)(?vpn := 0)\<rparr>"
  have "\<not> tlb_phist_thd ?t2 < tlb_phist ?t2 (findHash ?vpn vpn_bits) (findHash (tlb_last_pc t) pc_bits)"
    using assms True by (auto simp: bypasses_def flushing_all)
  then have "allocate address t pfq = map_option (\<lambda>t'. (t', pfq)) (tlb_insert address ?u)"
    using True by (auto simp: allocate_def Let_def shadow_search_set map_conv_bind_option comp_def)
  then show ?thesis by (rule that) simp_all
qed

lemma allocate_no_bypass:
  assumes "allocate address t pfq = Some (t', pfq')" and "\<not> bypasses address t"
  shows "pfq' = pfq \<and> (\<exists>u. tlb_insert address u = Some t' \<and> tlb_cache u = tlb_cache t \<and> tlb_alloc u = tlb_alloc t \<and>
    tlb_bypass u = tlb_bypass t \<and> tlb_shadow_table u = tlb_shadow_table t \<and>
    tlb_shadow_table_size u = tlb_shadow_table_size t \<and> tlb_pfq_size u = tlb_pfq_size t \<and>
    tlb_last_pc u = tlb_last_pc t \<and> tlb_size u = tlb_size t)"
  by (rule allocate_inserts [OF assms(2), of pfq]) (use assms(1) in \<open>auto dest!: sym [of "Some _"]\<close>)

text \<open>An allocation that is not a bypass returns whenever the insertion into the TLB's cache does.\<close>

lemma allocate_total:
  assumes "\<not> bypasses address t"
    and "insertSingleLine address None (CacheBlockInfo_new (- 1) INVALID 0 BaseBlock) None (tlb_cache t) \<noteq> None"
  shows "\<exists>t'. allocate address t pfq = Some (t', pfq)"
proof -
  obtain u where al: "allocate address t pfq = map_option (\<lambda>t'. (t', pfq)) (tlb_insert address u)"
    and u: "tlb_cache u = tlb_cache t"
    using allocate_inserts [OF assms(1)] by blast
  obtain r ev c where "insertSingleLine address None (CacheBlockInfo_new (- 1) INVALID 0 BaseBlock) None
      (tlb_cache u) = Some (r, ev, c)"
    using assms(2) u by auto
  then have "\<exists>t'. tlb_insert address u = Some t'"
    by (simp add: tlb_insert_def Let_def)
  then show ?thesis
    using al by auto
qed

lemma allocate_effect:
  assumes wf: "tlb_wf t" and "length pfq \<le> unat (tlb_pfq_size t)" and miss: "\<not> holds t address"
    and al: "allocate address t pfq = Some (t', pfq')"
  shows "tlb_wf t' \<and> length pfq' \<le> unat (tlb_pfq_size t') \<and> tlb_pfq_size t' = tlb_pfq_size t \<and>
    tlb_last_pc t' = tlb_last_pc t \<and> tlb_size t' = tlb_size t \<and>
    (if bypasses address t then tlb_cache t' = tlb_cache t else holds t' address)"
proof (cases "bypasses address t")
  case True
  let ?vpn = "address AND hw_page_bitmask"
  obtain table q where "allocate address t pfq = Some (t\<lparr>
      tlb_pc_hist := (tlb_pc_hist t)(?vpn := tlb_last_pc t),
      tlb_bypass := tlb_bypass t + 1, tlb_shadow_table := table\<rparr>, q)"
    and tb: "shadow_table_insert (tlb_shadow_table_size t) ?vpn (tlb_shadow_table t) = Some table"
    and q: "add_recent_pfn (tlb_pfq_size t) ?vpn pfq = Some q"
    using allocate_bypass [OF assms(1,2) True] by blast
  moreover have "length table \<le> unat (tlb_shadow_table_size t)"
    using tb wf shadow_push_law [of "tlb_shadow_table_size t" "tlb_shadow_table t" ?vpn]
    by (auto simp: tlb_wf_def)
  moreover have "length q \<le> unat (tlb_pfq_size t)"
    using q wf assms(2) pfq_push_law [of "tlb_pfq_size t" pfq ?vpn] by (auto simp: tlb_wf_def)
  ultimately show ?thesis
    using al wf True by (auto simp: tlb_wf_def)
next
  case False
  obtain u where u: "tlb_insert address u = Some t'" "tlb_cache u = tlb_cache t"
    "tlb_shadow_table u = tlb_shadow_table t" "tlb_shadow_table_size u = tlb_shadow_table_size t"
    "tlb_pfq_size u = tlb_pfq_size t" "tlb_last_pc u = tlb_last_pc t" "tlb_size u = tlb_size t"
    and q: "pfq' = pfq"
    using allocate_no_bypass [OF al False] by blast
  have "cache_wf (tlb_cache t') \<and> holds t' address"
    using tlb_insert_effect [OF _ u(1)] u(2) wf miss by (auto simp: tlb_wf_def holds_def)
  then show ?thesis
    using u(1) False q assms(2) wf u by (elim tlb_insert_cache) (auto simp: tlb_wf_def)
qed

lemma tlb_search_effect:
  assumes "tlb_wf t" and "tlb_search address isIfetch t = Some (hit, t')"
  shows "tlb_wf t' \<and> (hit \<longleftrightarrow> holds t address) \<and> (\<forall>a. holds t' a \<longleftrightarrow> holds t a) \<and>
    tlb_pfq_size t' = tlb_pfq_size t \<and> tlb_size t' = tlb_size t \<and>
    tlb_last_pc t' = (if isIfetch then address else tlb_last_pc t)"
proof -
  obtain pos d c where acc: "accessSingleLine address LOAD None 0 True (tlb_cache t) = Some (pos, d, c)"
    and hit: "hit \<longleftrightarrow> pos \<noteq> None" and t': "tlb_cache t' = c"
    "tlb_shadow_table t' = tlb_shadow_table t" "tlb_shadow_table_size t' = tlb_shadow_table_size t"
    "tlb_pfq_size t' = tlb_pfq_size t" "tlb_size t' = tlb_size t"
    "tlb_last_pc t' = (if isIfetch then address else tlb_last_pc t)"
    using assms(2) by (auto simp: tlb_search_def Let_def abort_simps split: if_splits)
  have wf: "cache_wf (tlb_cache t)" using assms(1) by (simp add: tlb_wf_def)
  note eff = access_effect [OF wf acc]
  have "holds t' a \<longleftrightarrow> holds t a" for a
    using eff cache_key_base [of c "tlb_cache t"] t'(1) by (simp add: holds_def)
  moreover have "hit \<longleftrightarrow> holds t address"
    using access_hit_iff [OF wf acc] hit by (auto simp: holds_def)
  ultimately show ?thesis
    using eff t' assms(1) by (simp add: tlb_wf_def)
qed

section \<open>Lookups\<close>

lemma lookup_effect:
  assumes "\<forall>t \<in> set ts. tlb_wf t \<and> tlb_pfq_size t = sz" and "length pfq \<le> unat sz"
    and "lookup address isIfetch al ts pfq = Some (hit, time, ts', pfq')"
  shows "(\<forall>t \<in> set ts'. tlb_wf t \<and> tlb_pfq_size t = sz) \<and> length pfq' \<le> unat sz \<and>
    (hit \<longleftrightarrow> (\<exists>t \<in> set ts. holds t address))"
  using assms
proof (induction ts arbitrary: isIfetch al pfq hit time ts' pfq')
  case (Cons t rest)
  have wf: "tlb_wf t" "tlb_pfq_size t = sz" and rest: "\<forall>t \<in> set rest. tlb_wf t \<and> tlb_pfq_size t = sz"
    using Cons.prems(1) by auto
  obtain h t1 where s: "tlb_search address isIfetch t = Some (h, t1)"
    and r: "(if h then Some (True, 0, t1 # rest, pfq)
     else do {
       (hit', time, next', pfq1) \<leftarrow>
         (if rest \<noteq> []
          then do {
            (h, time, n, q) \<leftarrow> lookup address False True rest pfq;
            Some (h, tlb_step_time + time, n, q) }
          else Some (False, 0, [], pfq));
       (t2, pfq2) \<leftarrow> (if al then allocate address t1 pfq1 else Some (t1, pfq1));
       Some (hit', time, t2 # next', pfq2)
     }) = Some (hit, time, ts', pfq')"
    using Cons.prems(3) by (auto simp: abort_simps)
  note se = tlb_search_effect [OF wf(1) s]
  show ?case
  proof (cases h)
    case True
    then show ?thesis
      using r se wf(2) rest Cons.prems(2) by auto
  next
    case False
    then obtain hit1 time1 next1 pfq1 t2 where
      n: "(if rest \<noteq> []
          then do {
            (h, time, n, q) \<leftarrow> lookup address False True rest pfq;
            Some (h, tlb_step_time + time, n, q) }
          else Some (False, 0, [], pfq)) = Some (hit1, time1, next1, pfq1)"
      and a: "(if al then allocate address t1 pfq1 else Some (t1, pfq1)) = Some (t2, pfq')"
      and out: "hit = hit1" "ts' = t2 # next1"
      using r by (auto simp: abort_simps)
    have next_ok: "(\<forall>t \<in> set next1. tlb_wf t \<and> tlb_pfq_size t = sz) \<and> length pfq1 \<le> unat sz \<and>
        (hit1 \<longleftrightarrow> (\<exists>t \<in> set rest. holds t address))"
    proof (cases "rest = []")
      case True
      then show ?thesis using n Cons.prems(2) by auto
    next
      case False
      then obtain t3 where "lookup address False True rest pfq = Some (hit1, t3, next1, pfq1)"
        using n by (auto simp: abort_simps)
      from Cons.IH [OF rest Cons.prems(2) this] show ?thesis .
    qed
    have nh: "\<not> holds t1 address" and p1: "tlb_pfq_size t1 = sz"
      using se False wf(2) by simp_all
    have "tlb_wf t2 \<and> tlb_pfq_size t2 = sz \<and> length pfq' \<le> unat sz"
    proof (cases al)
      case True
      then have al: "allocate address t1 pfq1 = Some (t2, pfq')" using a by simp
      have w: "tlb_wf t1" "length pfq1 \<le> unat (tlb_pfq_size t1)"
        using se p1 next_ok by simp_all
      show ?thesis
        using allocate_effect [OF w nh al] p1 by auto
    next
      case False
      then show ?thesis using a se p1 next_ok by auto
    qed
    then show ?thesis
      using next_ok out se False by auto
  qed
qed simp

section \<open>Totality\<close>

definition tlb_live :: "TLB \<Rightarrow> bool" where
  "tlb_live t \<longleftrightarrow> tlb_wf t \<and> lru_live (tlb_cache t)"

lemma tlb_search_live:
  assumes "tlb_live t"
  shows "\<exists>hit t'. tlb_search address isIfetch t = Some (hit, t') \<and> tlb_live t'"
proof -
  obtain pos d c' where acc: "accessSingleLine address LOAD None 0 True (tlb_cache t) = Some (pos, d, c')"
    and live: "lru_live c'"
    using access_live [of "tlb_cache t" address] assms by (auto simp: tlb_live_def)
  have "\<exists>hit t'. tlb_search address isIfetch t = Some (hit, t') \<and> tlb_cache t' = c'"
    using acc by (cases "pos = None") (auto simp: tlb_search_def Let_def)
  then obtain hit t' where s: "tlb_search address isIfetch t = Some (hit, t')" and c: "tlb_cache t' = c'"
    by blast
  have "tlb_wf t'"
    using tlb_search_effect [OF _ s] assms by (simp add: tlb_live_def)
  then show ?thesis
    using s c live by (auto simp: tlb_live_def)
qed

lemma allocate_live:
  assumes live: "tlb_live t" and "length pfq \<le> unat (tlb_pfq_size t)" and miss: "\<not> holds t address"
  shows "\<exists>t' pfq'. allocate address t pfq = Some (t', pfq') \<and> tlb_live t'"
proof (cases "bypasses address t")
  case True
  have wf: "tlb_wf t" using live by (simp add: tlb_live_def)
  obtain t' pfq' where al: "allocate address t pfq = Some (t', pfq')"
    using allocate_bypass [OF wf assms(2) True] by blast
  from allocate_effect [OF wf assms(2) miss al] True live al show ?thesis
    by (auto simp: tlb_live_def)
next
  case False
  have wf: "tlb_wf t" and ll: "lru_live (tlb_cache t)" using live by (simp_all add: tlb_live_def)
  obtain k where k: "cache_key (tlb_cache t) address = Some k"
    using lru_live_key [OF ll] by blast
  then have "cache_abs (tlb_cache t) k = None"
    using miss by (auto simp: holds_def)
  from insert_live_cache [OF ll k this] obtain r ev c' where
    ins: "insertSingleLine address None (CacheBlockInfo_new (- 1) INVALID 0 BaseBlock) None (tlb_cache t) = Some (r, ev, c')"
    and c': "lru_live c'"
    by blast
  then obtain t' where al: "allocate address t pfq = Some (t', pfq)"
    using allocate_total [OF False] by blast
  obtain u where u: "tlb_insert address u = Some t'" "tlb_cache u = tlb_cache t"
    using allocate_no_bypass [OF al False] by blast
  have "tlb_cache t' = c'"
    using u(1) by (rule tlb_insert_cache) (use u ins in simp)
  then show ?thesis
    using allocate_effect [OF wf assms(2) miss al] c' al by (auto simp: tlb_live_def)
qed

lemma lookup_live:
  assumes "\<forall>t \<in> set ts. tlb_live t \<and> tlb_pfq_size t = sz" and "length pfq \<le> unat sz" and "ts \<noteq> []"
  shows "\<exists>hit time ts' pfq'. lookup address isIfetch al ts pfq = Some (hit, time, ts', pfq') \<and>
    (\<forall>t \<in> set ts'. tlb_live t) \<and> length ts' = length ts"
  using assms
proof (induction ts arbitrary: isIfetch al pfq)
  case (Cons t rest)
  have live: "tlb_live t" and rest: "\<forall>t \<in> set rest. tlb_live t \<and> tlb_pfq_size t = sz"
    using Cons.prems(1) by auto
  obtain h t1 where s: "tlb_search address isIfetch t = Some (h, t1)" and l1: "tlb_live t1"
    using tlb_search_live [OF live] by blast
  note se = tlb_search_effect [OF _ s]
  show ?case
  proof (cases h)
    case True
    then show ?thesis using s l1 rest by auto
  next
    case False
    have "\<exists>hit1 time1 next1 pfq1. (if rest \<noteq> []
          then do {
            (h, time, n, q) \<leftarrow> lookup address False True rest pfq;
            Some (h, tlb_step_time + time, n, q) }
          else Some (False, 0, [], pfq)) = Some (hit1, time1, next1, pfq1) \<and>
        (\<forall>t \<in> set next1. tlb_live t) \<and> length next1 = length rest \<and> length pfq1 \<le> unat sz"
    proof (cases "rest = []")
      case False
      obtain hit1 time1 next1 pfq1 where l: "lookup address False True rest pfq = Some (hit1, time1, next1, pfq1)"
        and n: "\<forall>t \<in> set next1. tlb_live t" "length next1 = length rest"
        using Cons.IH [OF rest Cons.prems(2) False] by blast
      have "length pfq1 \<le> unat sz"
        using lookup_effect [OF _ Cons.prems(2) l] rest by (auto simp: tlb_live_def)
      then show ?thesis using False l n by auto
    qed (use Cons.prems(2) in auto)
    then obtain hit1 time1 next1 pfq1 where n: "(if rest \<noteq> []
          then do {
            (h, time, n, q) \<leftarrow> lookup address False True rest pfq;
            Some (h, tlb_step_time + time, n, q) }
          else Some (False, 0, [], pfq)) = Some (hit1, time1, next1, pfq1)"
      and nl: "\<forall>t \<in> set next1. tlb_live t" "length next1 = length rest" "length pfq1 \<le> unat sz"
      by blast
    have miss: "\<not> holds t1 address" and p1: "tlb_pfq_size t1 = sz"
      using se live False Cons.prems(1) by (auto simp: tlb_live_def)
    obtain t2 pfq2 where a: "(if al then allocate address t1 pfq1 else Some (t1, pfq1)) = Some (t2, pfq2)"
      and l2: "tlb_live t2"
      using allocate_live [OF l1 _ miss, of pfq1] nl(3) p1 l1 by (cases al) auto
    have "lookup address isIfetch al (t # rest) pfq = Some (hit1, time1, t2 # next1, pfq2)"
      using s False n a by simp
    then show ?thesis
      using nl l2 by auto
  qed
qed simp

section \<open>Construction\<close>

lemma TLB_new_wf:
  assumes new: "TLB_new cfg None g n a conf = Some t" and "unat a \<le> 256" and "0 < cfg_srrip_bits cfg"
  shows "tlb_wf t \<and> (\<forall>address. \<not> holds t address) \<and> tlb_shadow_table t = [] \<and> tlb_pfq_size t = 8 \<and>
    tlb_size t = n \<and> tlb_dppred t \<and> tlb_phist_thd t = 6 \<and> tlb_last_pc t = g \<and>
    tlb_shadow_table_size t = 2 \<and> tlb_phist t = (\<lambda>_ _. 0)"
proof -
  obtain c where c: "Cache_new cfg (n div a) a SIM_PAGE_SIZE ''lru'' PR_L1_CACHE HASH_MASK None = Some c"
    and t: "t = \<lparr>tlb_size = n, tlb_associativity = a, tlb_cache = c,
        tlb_access = 0, tlb_miss = 0, tlb_alloc = 0, tlb_bypass = 0, tlb_conf_counter = conf,
        tlb_phist = (\<lambda>_ _. 0), tlb_llt_hits = (\<lambda>_. 0), tlb_pc_hist = (\<lambda>_. 0),
        tlb_shadow_table = [], tlb_last_pc = g, tlb_dppred = True, tlb_phist_thd = 6,
        tlb_pfq_size = 8, tlb_shadow_table_size = 2\<rparr>" and a: "a \<noteq> 0"
    using new by (auto simp: TLB_new_def tlb_load_settings_def setting_bool_def setting_u64_def abort_simps)
  have "cache_wf c \<and> (\<forall>k. cache_abs c k = None)"
    by (rule Cache_new_wf [OF c a assms(2) _ assms(3)]) simp
  then show ?thesis
    by (simp add: t tlb_wf_def holds_def)
qed

text \<open>The settings of the predictor that the file gives; the two queues need at least one place.\<close>

definition tlb_settings :: "string list option \<Rightarrow> u64 \<Rightarrow> bool" where
  "tlb_settings config_file pfq_size \<longleftrightarrow> setting_bool config_file ''DPPRED'' True \<noteq> None \<and>
     setting_u64 config_file ''PHIST_THD'' 6 \<noteq> None \<and> setting_u64 config_file ''PFQ_SIZE'' 8 = Some pfq_size \<and> pfq_size \<noteq> 0 \<and>
     (case setting_u64 config_file ''SHADOW_TABLE_SIZE'' 2 of None \<Rightarrow> False | Some n \<Rightarrow> n \<noteq> 0)"

lemma TLB_new_live:
  assumes "a \<noteq> 0" and "unat a \<le> 256" and "n div a * a = n" and "n div a \<noteq> 0" and "isPower2 (n div a)"
    and "0 < cfg_srrip_bits cfg" and settings: "tlb_settings config_file sz"
  shows "\<exists>t. TLB_new cfg config_file g n a conf = Some t \<and> tlb_live t \<and> tlb_pfq_size t = sz"
proof -
  obtain c where c: "Cache_new cfg (n div a) a SIM_PAGE_SIZE ''lru'' PR_L1_CACHE HASH_MASK None = Some c"
    and live: "lru_live c"
    using Cache_new_live [of "n div a" a SIM_PAGE_SIZE cfg PR_L1_CACHE] assms by auto
  obtain t where t: "TLB_new cfg config_file g n a conf = Some t" and tc: "tlb_cache t = c" "tlb_shadow_table t = []"
      "tlb_pfq_size t = sz" "tlb_shadow_table_size t \<noteq> 0"
    using c assms(1,3) settings by (auto simp: TLB_new_def tlb_load_settings_def tlb_settings_def split: option.splits)
  have "0 < unat sz" "0 < unat (tlb_shadow_table_size t)"
    using tc settings by (simp_all add: tlb_settings_def unat_gt_0)
  then show ?thesis
    using t tc live by (auto simp: tlb_live_def tlb_wf_def lru_live_def)
qed

lemma default_settings: "tlb_settings None 8"
  by (simp add: tlb_settings_def setting_bool_def setting_u64_def)

text \<open>States for the examples below: a data TLB of 64 entries, the last-level TLB of 1024 entries, and
  the latter with all counters above the threshold.\<close>

definition example_config :: cache_config where
  "example_config = \<lparr>cfg_fault_injection = False, cfg_qbs_attempts = 1, cfg_srrip_bits = 2, cfg_time = 0\<rparr>"

definition example_dtlb :: "TLB option" where
  "example_dtlb = TLB_new example_config None 0 64 4 2"

definition example_llt :: "TLB option" where
  "example_llt = TLB_new example_config None 0 1024 4 2"

definition trained :: "TLB \<Rightarrow> TLB" where
  "trained t = t\<lparr>tlb_phist := (\<lambda>_ _. 7)\<rparr>"

lemma power_of_two_sets: "isPower2 16" "isPower2 256"
  by (simp_all add: isPower2_def)

lemma example_dtlb_live:
  "\<exists>t. example_dtlb = Some t \<and> tlb_live t \<and> tlb_pfq_size t = 8"
proof -
  have "\<exists>t. example_dtlb = Some t \<and> tlb_live t"
    unfolding example_dtlb_def using TLB_new_live [of 4 64 example_config None 8 0 2] default_settings by (auto simp: power_of_two_sets example_config_def)
  then show ?thesis
    using TLB_new_wf [of example_config 0 64 4 2] by (auto simp: example_dtlb_def example_config_def)
qed

lemma example_llt_live:
  "\<exists>t. example_llt = Some t \<and> tlb_live t \<and> tlb_pfq_size t = 8 \<and> (\<forall>address. \<not> holds t address) \<and>
    tlb_shadow_table t = [] \<and> tlb_live (trained t) \<and> bypasses 0x5000 (trained t) \<and> \<not> holds (trained t) 0x5000"
proof -
  have "\<exists>t. example_llt = Some t \<and> tlb_live t"
    unfolding example_llt_def using TLB_new_live [of 4 1024 example_config None 8 0 2] default_settings by (auto simp: power_of_two_sets example_config_def)
  then obtain t where t: "example_llt = Some t" "tlb_live t" by blast
  then have "tlb_wf t \<and> (\<forall>address. \<not> holds t address) \<and> tlb_shadow_table t = [] \<and> tlb_pfq_size t = 8 \<and>
    tlb_size t = 1024 \<and> tlb_dppred t \<and> tlb_phist_thd t = 6 \<and> tlb_last_pc t = 0 \<and>
    tlb_shadow_table_size t = 2 \<and> tlb_phist t = (\<lambda>_ _. 0)"
    using TLB_new_wf [of example_config 0 1024 4 2 t] by (simp add: example_llt_def example_config_def)
  with t show ?thesis
    by (auto simp: trained_def tlb_live_def tlb_wf_def holds_def bypasses_def in_llt_def)
qed

section \<open>Properties\<close>





text \<open>C6. A TLB hierarchy reports a hit exactly when some level holds the translation, and a lookup keeps
  every level well-formed and the page frame queue within its configured size.\<close>

theorem lookup_hits_iff_present:
  assumes "\<forall>t \<in> set ts. tlb_wf t \<and> tlb_pfq_size t = sz" and "length pfq \<le> unat sz"
    and "lookup address isIfetch al ts pfq = Some (hit, time, ts', pfq')"
  shows "(hit \<longleftrightarrow> (\<exists>t \<in> set ts. holds t address)) \<and>
    (\<forall>t \<in> set ts'. tlb_wf t \<and> tlb_pfq_size t = sz) \<and> length pfq' \<le> unat sz"
  using lookup_effect [OF assms] by blast

theorem lookup_hits_iff_present_witness:
  "\<exists>l1 llt hit time ts' pfq'. example_dtlb = Some l1 \<and> example_llt = Some llt \<and>
    lookup 0x5000 False True [l1, llt] [] = Some (hit, time, ts', pfq') \<and>
    (hit \<longleftrightarrow> (\<exists>u \<in> set [l1, llt]. holds u 0x5000)) \<and>
    (\<forall>u \<in> set ts'. tlb_wf u \<and> tlb_pfq_size u = 8) \<and> length pfq' \<le> unat (8 :: u64)"
proof -
  obtain l1 llt where e: "example_dtlb = Some l1" "example_llt = Some llt"
    and live: "\<forall>u \<in> set [l1, llt]. tlb_live u \<and> tlb_pfq_size u = 8"
    using example_dtlb_live example_llt_live by auto
  have q: "length ([] :: IntPtr list) \<le> unat (8 :: u64)" by simp
  obtain hit time ts' pfq' where l: "lookup 0x5000 False True [l1, llt] [] = Some (hit, time, ts', pfq')"
    using lookup_live [OF live q] by blast
  have wf: "\<forall>u \<in> set [l1, llt]. tlb_wf u \<and> tlb_pfq_size u = 8"
    using live by (auto simp: tlb_live_def)
  show ?thesis
    using e l lookup_hits_iff_present [OF wf q l] by blast
qed

lemma allocate_pc:
  assumes "allocate address t pfq = Some (t', pfq')"
  shows "tlb_last_pc t' = tlb_last_pc t"
proof (cases "bypasses address t")
  case False
  obtain u where u: "tlb_insert address u = Some t'" "tlb_last_pc u = tlb_last_pc t"
    using allocate_no_bypass [OF assms False] by blast
  show ?thesis
    using u(1) by (rule tlb_insert_cache) (use u in simp)
next
  case True
  then show ?thesis
    using assms by (auto simp: allocate_def bypasses_def Let_def shadow_search_set abort_simps)
qed

lemma tlb_search_pc:
  "tlb_search address isIfetch t = Some (h, t') \<Longrightarrow> \<not> isIfetch \<Longrightarrow> tlb_last_pc t' = tlb_last_pc t"
  by (auto simp: tlb_search_def Let_def abort_simps split: if_splits)

lemma lookup_pc:
  assumes "lookup address isIfetch al ts pfq = Some (hit, time, ts', pfq')"
  shows "map tlb_last_pc (tl ts') = map tlb_last_pc (tl ts) \<and>
    (\<not> isIfetch \<longrightarrow> map tlb_last_pc ts' = map tlb_last_pc ts)"
  using assms
proof (induction ts arbitrary: isIfetch al pfq hit time ts' pfq')
  case (Cons t rest)
  obtain h t1 where s: "tlb_search address isIfetch t = Some (h, t1)"
    and r: "(if h then Some (True, 0, t1 # rest, pfq)
     else do {
       (hit', time, next', pfq1) \<leftarrow>
         (if rest \<noteq> []
          then do {
            (h, time, n, q) \<leftarrow> lookup address False True rest pfq;
            Some (h, tlb_step_time + time, n, q) }
          else Some (False, 0, [], pfq));
       (t2, pfq2) \<leftarrow> (if al then allocate address t1 pfq1 else Some (t1, pfq1));
       Some (hit', time, t2 # next', pfq2)
     }) = Some (hit, time, ts', pfq')"
    using Cons.prems by (auto simp: abort_simps)
  show ?case
  proof (cases h)
    case True
    then show ?thesis using r tlb_search_pc [OF s] by auto
  next
    case False
    then obtain hit1 time1 next1 pfq1 t2 where
      n: "(if rest \<noteq> []
          then do {
            (h, time, n, q) \<leftarrow> lookup address False True rest pfq;
            Some (h, tlb_step_time + time, n, q) }
          else Some (False, 0, [], pfq)) = Some (hit1, time1, next1, pfq1)"
      and a: "(if al then allocate address t1 pfq1 else Some (t1, pfq1)) = Some (t2, pfq')"
      and out: "ts' = t2 # next1"
      using r by (auto simp: abort_simps)
    have "map tlb_last_pc next1 = map tlb_last_pc rest"
    proof (cases "rest = []")
      case True
      then show ?thesis using n by auto
    next
      case False
      then obtain t3 where "lookup address False True rest pfq = Some (hit1, t3, next1, pfq1)"
        using n by (auto simp: abort_simps)
      from Cons.IH [OF this] show ?thesis by simp
    qed
    moreover have "tlb_last_pc t2 = tlb_last_pc t1"
      using a allocate_pc by (auto split: if_splits)
    ultimately show ?thesis
      using out tlb_search_pc [OF s] by simp
  qed
qed simp

lemma lookup_pc_next:
  "lookup address isIfetch al ts pfq = Some (hit, time, ts', pfq') \<Longrightarrow>
    map tlb_last_pc (tl ts') = map tlb_last_pc (tl ts)"
  using lookup_pc by blast

text \<open>C31. The last-level TLB never sees a program counter. It is only reached through the first-level
  TLBs, which do not pass on that an access is an instruction fetch; whatever accesses are made, its
  \<^verbatim>\<open>last_pc\<close>, which the predictor hashes, keeps the value it had when the TLB was created.\<close>

theorem llt_never_sees_pc:
  assumes "fold_opt (\<lambda>(address, isIfetch) (ts, pfq). do {
      (hit, time, ts', pfq') \<leftarrow> lookup address isIfetch True ts pfq; Some (ts', pfq') })
    accesses ([l1, llt], pfq) = Some ([l1', llt'], pfq')"
  shows "tlb_last_pc llt' = tlb_last_pc llt"
proof -
  have "map tlb_last_pc (tl (fst ([l1', llt'], pfq'))) = map tlb_last_pc [llt]"
    by (rule fold_opt_inv [OF assms, of "\<lambda>s. map tlb_last_pc (tl (fst s)) = map tlb_last_pc [llt]"])
      (auto simp: abort_simps dest!: lookup_pc_next)
  then show ?thesis by simp
qed

theorem llt_never_sees_pc_witness:
  "\<exists>l1 llt l1' llt' pfq'. example_dtlb = Some l1 \<and> example_llt = Some llt \<and>
    fold_opt (\<lambda>(address, isIfetch) (ts, pfq). do {
      (hit, time, ts', pfq') \<leftarrow> lookup address isIfetch True ts pfq; Some (ts', pfq') })
    [(0x5000, True)] ([l1, llt], []) = Some ([l1', llt'], pfq') \<and>
    tlb_last_pc llt' = tlb_last_pc llt"
proof -
  let ?f = "\<lambda>(address, isIfetch) (ts, pfq). do {
      (hit, time, ts', pfq') \<leftarrow> lookup address isIfetch True ts pfq; Some (ts', pfq') }"
  obtain l1 llt where e: "example_dtlb = Some l1" "example_llt = Some llt"
    and live: "\<forall>u \<in> set [l1, llt]. tlb_live u \<and> tlb_pfq_size u = 8"
    using example_dtlb_live example_llt_live by auto
  have q: "length ([] :: IntPtr list) \<le> unat (8 :: u64)" by simp
  obtain hit time ts' pfq' where l: "lookup 0x5000 True True [l1, llt] [] = Some (hit, time, ts', pfq')"
    and len: "length ts' = length [l1, llt]"
    using lookup_live [OF live q] by blast
  then obtain l1' llt' where ts: "ts' = [l1', llt']"
    by (auto simp: length_Suc_conv)
  have f: "fold_opt ?f [(0x5000, True)] ([l1, llt], []) = Some ([l1', llt'], pfq')"
    using l ts by (simp del: lookup.simps)
  from llt_never_sees_pc [OF f] e f show ?thesis by blast
qed



section \<open>Training\<close>

definition untouched :: "TLB \<Rightarrow> IntPtr \<Rightarrow> IntPtr \<Rightarrow> IntPtr \<Rightarrow> bool" where
  "untouched t v p e \<longleftrightarrow> findHash (e AND hw_page_bitmask) vpn_bits = v \<and>
     findHash (tlb_pc_hist t (e AND hw_page_bitmask)) pc_bits = p \<and> tlb_llt_hits t (e AND hw_page_bitmask) = 0"

lemma updating_phist_untouched:
  "untouched t v p e \<Longrightarrow> tlb_phist (updating_phist e t) v p = tlb_phist t v p + 1"
  by (simp add: updating_phist_def untouched_def Let_def)

lemma untouched_updating [simp]: "untouched (updating_phist e t) = untouched t"
  by (auto simp: untouched_def updating_phist_def Let_def fun_eq_iff)

lemma updating_phist_count:
  "\<forall>e \<in> set evs. untouched t v p e \<Longrightarrow>
    tlb_phist (fold updating_phist evs t) v p = tlb_phist t v p + of_nat (length evs)"
  by (induction evs arbitrary: t) (simp_all add: updating_phist_untouched)

lemma fold_updating_frame:
  "tlb_dppred (fold updating_phist evs t) = tlb_dppred t" "tlb_size (fold updating_phist evs t) = tlb_size t"
  "tlb_shadow_table (fold updating_phist evs t) = tlb_shadow_table t"
  "tlb_last_pc (fold updating_phist evs t) = tlb_last_pc t"
  "tlb_phist_thd (fold updating_phist evs t) = tlb_phist_thd t"
  by (induction evs arbitrary: t) simp_all



end
