(* ===== verification/LlcSw.thy ===== *)
theory LlcSw
  imports Tlb
begin

text \<open>
  The software model of the last-level cache with the dead block predictor cbPred, the static part
  of \<^verbatim>\<open>parametric_dram_directory_msi/cache_cntlr.cc\<close> from \<^verbatim>\<open>capCounters\<close> to \<^verbatim>\<open>load_settings\<close>. The array
  \<^verbatim>\<open>llc[LLC_SETS][LLC_ASSOCIATIVITY]\<close> is one block of memory in row order, so an index behind the end
  of a row addresses the next row; an index behind the whole array is an abort. The map \<^verbatim>\<open>bhist\<close> is only
  used with \<^verbatim>\<open>operator[]\<close> and is a total function; \<^verbatim>\<open>llc_hits\<close> is also asked with \<^verbatim>\<open>count\<close> and is partial.
  The page frame queue of the TLBs is an argument.
\<close>

section \<open>State\<close>

abbreviation (input) LLC_SETS :: nat where "LLC_SETS \<equiv> 2048"
abbreviation (input) LLC_ASSOCIATIVITY :: nat where "LLC_ASSOCIATIVITY \<equiv> 16"
abbreviation (input) MAX_COUNTER_VAL :: u64 where "MAX_COUNTER_VAL \<equiv> 16"
abbreviation (input) block_bits :: nat where "block_bits \<equiv> 12"

record LlcSw =
  ls_llc :: "u64 list"
  ls_alloc_blocks :: "u64 list"
  ls_bhist :: "u64 \<Rightarrow> u64 \<times> u64"
  ls_llc_hits :: "u64 \<rightharpoonup> u64"
  ls_llcAcc :: u64
  ls_llcBypass :: u64
  ls_llcMiss :: u64

definition LlcSw_init :: LlcSw where
  "LlcSw_init = \<lparr>ls_llc = replicate (LLC_SETS * LLC_ASSOCIATIVITY) 0, ls_alloc_blocks = replicate LLC_SETS 0,
     ls_bhist = (\<lambda>_. (0, 0)), ls_llc_hits = Map.empty, ls_llcAcc = 0, ls_llcBypass = 0, ls_llcMiss = 0\<rparr>"

text \<open>The settings of a controller: whether the predictor is on, and the threshold.\<close>

definition llc_load_settings :: "string list option \<Rightarrow> bool \<times> u64 \<Rightarrow> (bool \<times> u64) option" where
  "llc_load_settings config_file s = do {
     cbpred \<leftarrow> setting_bool config_file ''CBPRED'' (fst s);
     bhist_thd \<leftarrow> setting_u64 config_file ''BHIST_THD'' (snd s);
     Some (cbpred, bhist_thd)
   }"

definition llc_at :: "nat \<Rightarrow> nat \<Rightarrow> LlcSw \<Rightarrow> u64 option" where
  "llc_at set_index i s = nth_opt (ls_llc s) (set_index * LLC_ASSOCIATIVITY + i)"

definition llc_put :: "nat \<Rightarrow> nat \<Rightarrow> u64 \<Rightarrow> LlcSw \<Rightarrow> LlcSw option" where
  "llc_put set_index i v s = do {
     ensure (set_index * LLC_ASSOCIATIVITY + i < length (ls_llc s));
     Some (s\<lparr>ls_llc := (ls_llc s)[set_index * LLC_ASSOCIATIVITY + i := v]\<rparr>)
   }"

section \<open>Operations\<close>

definition capCounters :: "u64 \<Rightarrow> LlcSw \<Rightarrow> LlcSw" where
  "capCounters block_hash s =
     (if snd (ls_bhist s block_hash) > MAX_COUNTER_VAL
      then s\<lparr>ls_bhist := (ls_bhist s)(block_hash := (fst (ls_bhist s block_hash), MAX_COUNTER_VAL))\<rparr>
      else s)"

definition llc_findHash :: "IntPtr \<Rightarrow> nat \<Rightarrow> IntPtr" where
  "llc_findHash index bits = findHash_loop (index_size div bits) bits index 0"

definition updateCounters_evict :: "u64 \<Rightarrow> LlcSw \<Rightarrow> LlcSw" where
  "updateCounters_evict evict_tag s =
     (case ls_llc_hits s evict_tag of
        None \<Rightarrow> s
      | Some hits \<Rightarrow>
          (let block_hash = llc_findHash evict_tag block_bits;
               (first, second) = ls_bhist s block_hash
           in if hits = 0
              then capCounters block_hash (s\<lparr>ls_bhist := (ls_bhist s)(block_hash := (first, second + 1))\<rparr>)
              else s\<lparr>ls_bhist := (ls_bhist s)(block_hash := (first, 0))\<rparr>))"

definition recentPFNContains :: "IntPtr list \<Rightarrow> IntPtr \<Rightarrow> bool" where
  "recentPFNContains pfq tag \<longleftrightarrow> tag \<in> set pfq"

definition shouldBypassLLC :: "u64 \<Rightarrow> IntPtr list \<Rightarrow> u64 \<Rightarrow> LlcSw \<Rightarrow> bool" where
  "shouldBypassLLC bhist_thd pfq tag s \<longleftrightarrow>
     recentPFNContains pfq tag \<and> snd (ls_bhist s (llc_findHash tag block_bits)) > bhist_thd"

definition updateLLCSw :: "IntPtr list \<Rightarrow> u64 \<Rightarrow> nat \<Rightarrow> nat \<Rightarrow> LlcSw \<Rightarrow> LlcSw option" where
  "updateLLCSw pfq latestTag pivotIndex set_index s = do {
     s1 \<leftarrow> fold_opt (\<lambda>i t. do { v \<leftarrow> llc_at set_index (i - 1) t; llc_put set_index i v t }) (rev [1..<Suc pivotIndex]) s;
     s2 \<leftarrow> llc_put set_index 0 latestTag s1;
     Some (if recentPFNContains pfq latestTag
           then s2\<lparr>ls_llc_hits := (ls_llc_hits s2)(latestTag \<mapsto> 0)\<rparr> else s2)
   }"

definition handleFullSetMiss :: "u64 \<Rightarrow> IntPtr list \<Rightarrow> u64 \<Rightarrow> nat \<Rightarrow> LlcSw \<Rightarrow> LlcSw option" where
  "handleFullSetMiss bhist_thd pfq tag set_index s =
     (if shouldBypassLLC bhist_thd pfq tag s then Some (s\<lparr>ls_llcBypass := ls_llcBypass s + 1\<rparr>)
      else do {
        evict_tag \<leftarrow> llc_at set_index (LLC_ASSOCIATIVITY - 1) s;
        updateLLCSw pfq tag LLC_ASSOCIATIVITY set_index (updateCounters_evict evict_tag s)
      })"

definition insertIntoPartialSet :: "IntPtr list \<Rightarrow> u64 \<Rightarrow> nat \<Rightarrow> LlcSw \<Rightarrow> LlcSw option" where
  "insertIntoPartialSet pfq tag set_index s = do {
     insert_pos \<leftarrow> nth_opt (ls_alloc_blocks s) set_index;
     updateLLCSw pfq tag (unat insert_pos) set_index
       (s\<lparr>ls_alloc_blocks := (ls_alloc_blocks s)[set_index := insert_pos + 1]\<rparr>)
   }"

definition handleLLCMiss :: "u64 \<Rightarrow> IntPtr list \<Rightarrow> u64 \<Rightarrow> nat \<Rightarrow> LlcSw \<Rightarrow> LlcSw option" where
  "handleLLCMiss bhist_thd pfq tag set_index s = do {
     let s1 = s\<lparr>ls_llcMiss := ls_llcMiss s + 1\<rparr>;
     n \<leftarrow> nth_opt (ls_alloc_blocks s1) set_index;
     if unat n < LLC_ASSOCIATIVITY then insertIntoPartialSet pfq tag set_index s1
     else if unat n = LLC_ASSOCIATIVITY then handleFullSetMiss bhist_thd pfq tag set_index s1
     else Some s1
   }"

definition handleLLCHit :: "IntPtr list \<Rightarrow> u64 \<Rightarrow> nat \<Rightarrow> nat \<Rightarrow> LlcSw \<Rightarrow> LlcSw option" where
  "handleLLCHit pfq tag pivotIndex set_index s = updateLLCSw pfq tag pivotIndex set_index s"

text \<open>The loop of \<^verbatim>\<open>findTagInSet\<close>; reading behind the array is an abort. The result -1 is \<open>None\<close>.\<close>

fun find_tag_loop :: "nat \<Rightarrow> u64 \<Rightarrow> nat \<Rightarrow> nat \<Rightarrow> LlcSw \<Rightarrow> nat option option" where
  "find_tag_loop set_index tag i 0 s = Some None"
| "find_tag_loop set_index tag i (Suc n) s = do {
     v \<leftarrow> llc_at set_index i s;
     if v = tag then Some (Some i) else find_tag_loop set_index tag (Suc i) n s
   }"

definition findTagInSet :: "nat \<Rightarrow> u64 \<Rightarrow> LlcSw \<Rightarrow> (nat option \<times> LlcSw) option" where
  "findTagInSet set_index tag s = do {
     n \<leftarrow> nth_opt (ls_alloc_blocks s) set_index;
     r \<leftarrow> find_tag_loop set_index tag 0 (unat n) s;
     Some (case (r, ls_llc_hits s tag) of
         (Some i, Some hits) \<Rightarrow> (r, s\<lparr>ls_llc_hits := (ls_llc_hits s)(tag \<mapsto> hits + 1)\<rparr>)
       | _ \<Rightarrow> (r, s))
   }"

definition getTagSw :: "IntPtr \<Rightarrow> u64" where
  "getTagSw address = drop_bit sw_page_bitshift address"

definition getSetSw :: "IntPtr \<Rightarrow> nat" where
  "getSetSw address = unat (drop_bit 6 address mod 2048)"

definition accessLLCSw :: "u64 \<Rightarrow> IntPtr list \<Rightarrow> IntPtr \<Rightarrow> LlcSw \<Rightarrow> LlcSw option" where
  "accessLLCSw bhist_thd pfq address s = do {
     let s1 = s\<lparr>ls_llcAcc := ls_llcAcc s + 1\<rparr>;
     let set_index = getSetSw address;
     let tag = getTagSw address;
     (pivotIndex, s2) \<leftarrow> findTagInSet set_index tag s1;
     case pivotIndex of
       Some i \<Rightarrow> handleLLCHit pfq tag i set_index s2
     | None \<Rightarrow> handleLLCMiss bhist_thd pfq tag set_index s2
   }"


section \<open>Rows and their blocks\<close>

definition llc_row :: "nat \<Rightarrow> LlcSw \<Rightarrow> u64 list" where
  "llc_row set_index s = take LLC_ASSOCIATIVITY (drop (set_index * LLC_ASSOCIATIVITY) (ls_llc s))"

text \<open>The blocks a set holds, from the most to the least recently used.\<close>

definition llc_blocks :: "LlcSw \<Rightarrow> nat \<Rightarrow> u64 list" where
  "llc_blocks s set_index = take (unat (ls_alloc_blocks s ! set_index)) (llc_row set_index s)"

definition llc_wf :: "LlcSw \<Rightarrow> bool" where
  "llc_wf s \<longleftrightarrow> length (ls_llc s) = LLC_SETS * LLC_ASSOCIATIVITY \<and> length (ls_alloc_blocks s) = LLC_SETS \<and>
     list_all (\<lambda>n. unat n \<le> LLC_ASSOCIATIVITY) (ls_alloc_blocks s)"

lemma llc_wf_alloc: "llc_wf s \<Longrightarrow> set_index < LLC_SETS \<Longrightarrow> unat (ls_alloc_blocks s ! set_index) \<le> LLC_ASSOCIATIVITY"
  by (auto simp: llc_wf_def list_all_length)

lemma length_llc_row: "llc_wf s \<Longrightarrow> set_index < LLC_SETS \<Longrightarrow> length (llc_row set_index s) = LLC_ASSOCIATIVITY"
  by (simp add: llc_wf_def llc_row_def)

lemma length_llc_blocks:
  "llc_wf s \<Longrightarrow> set_index < LLC_SETS \<Longrightarrow> length (llc_blocks s set_index) = unat (ls_alloc_blocks s ! set_index)"
  using llc_wf_alloc [of s set_index] length_llc_row [of s set_index] by (simp add: llc_blocks_def)

lemma getSetSw_less [simp]: "getSetSw address < LLC_SETS"
  by (simp add: getSetSw_def unat_mod)

lemma getSetSw_in_array: "p < LLC_ASSOCIATIVITY \<Longrightarrow> getSetSw address * LLC_ASSOCIATIVITY + p < LLC_SETS * LLC_ASSOCIATIVITY"
  using getSetSw_less [of address] by linarith

text \<open>Set and tag identify the block: together they hold all bits of the block number.\<close>

lemma set_tag_block: "unat (drop_bit 6 address) = unat (getTagSw address) * LLC_SETS + getSetSw address"
proof -
  have "unat (getTagSw address) = unat (drop_bit 6 address) div LLC_SETS"
    by (simp add: getTagSw_def unat_drop_bit div_mult2_eq [symmetric])
  then show ?thesis
    by (simp add: getSetSw_def unat_mod)
qed

section \<open>The shifting loop\<close>

lemma rev_upt_Suc_Suc: "rev [1..<Suc (Suc p)] = Suc p # rev [1..<Suc p]"
  by simp

lemma shift_loop:
  assumes "b + p < length xs"
  shows "fold_opt (\<lambda>i ys. if b + (i - 1) < length ys \<and> b + i < length ys
      then Some (ys[b + i := ys ! (b + (i - 1))]) else None) (rev [1..<Suc p]) xs
    = Some (take (Suc b) xs @ take p (drop b xs) @ drop (Suc (b + p)) xs)"
  using assms
proof (induction p arbitrary: xs)
  case 0
  then show ?case by simp
next
  case (Suc p)
  let ?ys = "xs[b + Suc p := xs ! (b + p)]"
  have "drop b ?ys = (drop b xs)[Suc p := xs ! (b + p)]"
    by (simp add: drop_update_swap)
  then have ys: "take (Suc b) ?ys = take (Suc b) xs" "take p (drop b ?ys) = take p (drop b xs)"
    "drop (Suc (b + p)) ?ys = xs ! (b + p) # drop (Suc (b + Suc p)) xs"
    using Suc.prems by (simp_all add: upd_conv_take_nth_drop)
  have "take (Suc p) (drop b xs) = take p (drop b xs) @ [xs ! (b + p)]"
    using Suc.prems by (simp add: take_Suc_conv_app_nth)
  then show ?case
    using Suc.IH [of ?ys] Suc.prems ys unfolding rev_upt_Suc_Suc by simp
qed

lemma llc_loop_list:
  "fold_opt (\<lambda>i t. do { v \<leftarrow> llc_at set_index (i - 1) t; llc_put set_index i v t }) is s
    = map_option (\<lambda>l. s\<lparr>ls_llc := l\<rparr>)
        (fold_opt (\<lambda>i ys. if set_index * LLC_ASSOCIATIVITY + (i - 1) < length ys \<and>
             set_index * LLC_ASSOCIATIVITY + i < length ys
           then Some (ys[set_index * LLC_ASSOCIATIVITY + i := ys ! (set_index * LLC_ASSOCIATIVITY + (i - 1))])
           else None) is (ls_llc s))"
  by (induction "is" arbitrary: s) (auto simp: llc_at_def llc_put_def nth_opt_def ensure_def)

definition shifted :: "nat \<Rightarrow> nat \<Rightarrow> 'a \<Rightarrow> 'a list \<Rightarrow> 'a list" where
  "shifted b p x xs = take b xs @ x # take p (drop b xs) @ drop (Suc (b + p)) xs"

lemma length_shifted: "b + p < length xs \<Longrightarrow> length (shifted b p x xs) = length xs"
  by (simp add: shifted_def)

lemma nth_shifted:
  assumes "b + p < length xs" and "i < length xs"
  shows "shifted b p x xs ! i =
    (if i < b \<or> b + p < i then xs ! i else if i = b then x else xs ! (i - 1))"
  using assms by (auto simp: shifted_def nth_append nth_Cons' min_def)

text \<open>Whatever the pivot, \<^verbatim>\<open>updateLLCSw\<close> shifts the memory from the start of the row.\<close>

lemma updateLLCSw_flat:
  assumes "set_index * LLC_ASSOCIATIVITY + p < length (ls_llc s)"
  shows "updateLLCSw pfq tag p set_index s =
    Some (s\<lparr>ls_llc := shifted (set_index * LLC_ASSOCIATIVITY) p tag (ls_llc s),
      ls_llc_hits := (if tag \<in> set pfq then (ls_llc_hits s)(tag \<mapsto> 0) else ls_llc_hits s)\<rparr>)"
proof -
  let ?b = "set_index * LLC_ASSOCIATIVITY" and ?l = "ls_llc s"
  let ?l' = "take (Suc ?b) ?l @ take p (drop ?b ?l) @ drop (Suc (?b + p)) ?l"
  have "?l' = take ?b ?l @ ?l ! ?b # take p (drop ?b ?l) @ drop (Suc (?b + p)) ?l"
    using assms by (simp add: take_Suc_conv_app_nth)
  then have "?l'[?b := tag] = shifted ?b p tag ?l"
    using assms list_update_length [of "take ?b ?l"] by (simp add: shifted_def min_def)
  then show ?thesis
    using assms unfolding updateLLCSw_def llc_loop_list shift_loop [OF assms]
    by (simp add: llc_put_def recentPFNContains_def)
qed

lemma updateLLCSw_outside:
  assumes "length (ls_llc s) \<le> set_index * LLC_ASSOCIATIVITY + p" and "0 < p"
  shows "updateLLCSw pfq tag p set_index s = None"
proof -
  obtain q where p: "p = Suc q"
    using assms(2) gr0_implies_Suc by blast
  show ?thesis
    using assms(1) unfolding updateLLCSw_def p rev_upt_Suc_Suc
    by (simp add: llc_put_def ensure_def llc_at_def nth_opt_def)
qed

section \<open>Effect on the rows\<close>

lemma nth_llc_row:
  "llc_wf s \<Longrightarrow> j < LLC_SETS \<Longrightarrow> i < LLC_ASSOCIATIVITY \<Longrightarrow> llc_row j s ! i = ls_llc s ! (j * LLC_ASSOCIATIVITY + i)"
  by (simp add: llc_row_def llc_wf_def)

lemma llc_wf_shifted:
  assumes "llc_wf s" and "b + p < LLC_SETS * LLC_ASSOCIATIVITY"
  shows "llc_wf (s\<lparr>ls_llc := shifted b p tag (ls_llc s)\<rparr>)"
  using assms by (simp add: llc_wf_def length_shifted)

lemma row_shifted:
  assumes wf: "llc_wf s" and k: "k < LLC_SETS" and p: "p < LLC_ASSOCIATIVITY" and j: "j < LLC_SETS"
  shows "llc_row j (s\<lparr>ls_llc := shifted (k * LLC_ASSOCIATIVITY) p tag (ls_llc s)\<rparr>) =
    (if j = k then shifted 0 p tag (llc_row k s) else llc_row j s)"
    (is "llc_row j ?s' = ?r")
proof (rule nth_equalityI)
  have in_array: "k * LLC_ASSOCIATIVITY + p < LLC_SETS * LLC_ASSOCIATIVITY"
    using k p by simp
  note wf' = llc_wf_shifted [OF wf in_array, of tag]
  show "length (llc_row j ?s') = length ?r"
    using length_llc_row [OF wf' j] length_llc_row [OF wf k] length_llc_row [OF wf j] p
    by (simp add: length_shifted)
  fix i
  assume "i < length (llc_row j ?s')"
  then have i: "i < LLC_ASSOCIATIVITY"
    using length_llc_row [OF wf' j] by simp
  have "llc_row j ?s' ! i = shifted (k * LLC_ASSOCIATIVITY) p tag (ls_llc s) ! (j * LLC_ASSOCIATIVITY + i)"
    using nth_llc_row [OF wf' j i] by simp
  also have "\<dots> = ?r ! i"
  proof (cases "j = k")
    case True
    have "shifted (k * LLC_ASSOCIATIVITY) p tag (ls_llc s) ! (k * LLC_ASSOCIATIVITY + i) =
      (if p < i then ls_llc s ! (k * LLC_ASSOCIATIVITY + i) else if i = 0 then tag
       else ls_llc s ! (k * LLC_ASSOCIATIVITY + (i - 1)))"
      using wf k i p by (auto simp: nth_shifted llc_wf_def)
    also have "\<dots> = shifted 0 p tag (llc_row k s) ! i"
      using i p length_llc_row [OF wf k] nth_llc_row [OF wf k] by (simp add: nth_shifted)
    finally show ?thesis
      using True by simp
  next
    case False
    then have "j * LLC_ASSOCIATIVITY + i < k * LLC_ASSOCIATIVITY \<or> k * LLC_ASSOCIATIVITY + p < j * LLC_ASSOCIATIVITY + i"
      using i p by linarith
    then show ?thesis
      using wf k i p j False by (auto simp: nth_shifted nth_llc_row llc_wf_def)
  qed
  finally show "llc_row j ?s' ! i = ?r ! i" .
qed

text \<open>A pivot behind the row moves the last block of the row into the next row.\<close>

lemma row_overflow:
  assumes wf: "llc_wf s" and k: "Suc k < LLC_SETS" and j: "j < LLC_SETS"
  shows "llc_row j (s\<lparr>ls_llc := shifted (k * LLC_ASSOCIATIVITY) LLC_ASSOCIATIVITY tag (ls_llc s)\<rparr>) =
    (if j = k then tag # butlast (llc_row k s)
     else if j = Suc k then (llc_row j s)[0 := last (llc_row k s)] else llc_row j s)"
    (is "llc_row j ?s' = ?r")
proof (rule nth_equalityI)
  have k': "k < LLC_SETS" using k by simp
  have in_array: "k * LLC_ASSOCIATIVITY + LLC_ASSOCIATIVITY < LLC_SETS * LLC_ASSOCIATIVITY"
    using k by simp
  note wf' = llc_wf_shifted [OF wf in_array, of tag]
  note len = length_llc_row [OF wf' j] length_llc_row [OF wf k'] length_llc_row [OF wf j]
  show "length (llc_row j ?s') = length ?r"
    using len by (cases "j = Suc k") auto
  fix i
  assume "i < length (llc_row j ?s')"
  then have i: "i < LLC_ASSOCIATIVITY"
    using len by simp
  have "llc_row j ?s' ! i = shifted (k * LLC_ASSOCIATIVITY) LLC_ASSOCIATIVITY tag (ls_llc s) ! (j * LLC_ASSOCIATIVITY + i)"
    using nth_llc_row [OF wf' j i] by simp
  also have "\<dots> = (if j * LLC_ASSOCIATIVITY + i < k * LLC_ASSOCIATIVITY \<or>
        k * LLC_ASSOCIATIVITY + LLC_ASSOCIATIVITY < j * LLC_ASSOCIATIVITY + i
      then ls_llc s ! (j * LLC_ASSOCIATIVITY + i)
      else if j * LLC_ASSOCIATIVITY + i = k * LLC_ASSOCIATIVITY then tag
      else ls_llc s ! (j * LLC_ASSOCIATIVITY + i - 1))"
    using wf in_array i j by (subst nth_shifted) (simp_all add: llc_wf_def)
  also have "\<dots> = ?r ! i"
  proof -
    consider "j < k" | "j = k" | "j = Suc k" | "Suc k < j" by linarith
    then show ?thesis
    proof cases
      case 2
      then show ?thesis
        using i len nth_llc_row [OF wf k', of "i - 1"] by (auto simp: nth_Cons' nth_butlast)
    next
      case 3
      have "ls_llc s ! (15 + k * LLC_ASSOCIATIVITY) = last (llc_row k s)"
        using nth_llc_row [OF wf k', of 15] len by (subst last_conv_nth) (auto simp: add.commute)
      then show ?thesis
        using 3 i len nth_llc_row [OF wf j i] by (cases i) (auto simp: nth_list_update)
    qed (use i nth_llc_row [OF wf j i] in auto)
  qed
  finally show "llc_row j ?s' ! i = ?r ! i" .
qed

section \<open>Accesses\<close>

lemma find_tag_loop_spec:
  assumes "set_index * LLC_ASSOCIATIVITY + i + n \<le> length (ls_llc s)"
  shows "find_tag_loop set_index tag i n s =
    Some (List.find (\<lambda>m. ls_llc s ! (set_index * LLC_ASSOCIATIVITY + m) = tag) [i..<i + n])"
  using assms
proof (induction n arbitrary: i)
  case (Suc n)
  have "[i..<i + Suc n] = i # [Suc i..<Suc i + n]"
    by (simp add: upt_conv_Cons)
  then show ?case
    using Suc.IH [of "Suc i"] Suc.prems by (simp add: llc_at_def)
qed simp

lemma llc_blocks_nth:
  assumes "llc_wf s" and "k < LLC_SETS" and "i < unat (ls_alloc_blocks s ! k)"
  shows "llc_blocks s k ! i = ls_llc s ! (k * LLC_ASSOCIATIVITY + i)"
  using assms llc_wf_alloc [of s k] nth_llc_row [of s k i] by (simp add: llc_blocks_def)

text \<open>The search finds the first position of the tag among the blocks of the set.\<close>

lemma findTagInSet_spec:
  assumes wf: "llc_wf s" and k: "k < LLC_SETS"
  shows "findTagInSet k tag s =
    (let r = List.find (\<lambda>m. llc_blocks s k ! m = tag) [0..<length (llc_blocks s k)]
     in Some (r, if r = None then s
        else s\<lparr>ls_llc_hits := (case ls_llc_hits s tag of None \<Rightarrow> ls_llc_hits s
                | Some h \<Rightarrow> (ls_llc_hits s)(tag \<mapsto> h + 1))\<rparr>))"
proof -
  let ?n = "unat (ls_alloc_blocks s ! k)"
  have "k * LLC_ASSOCIATIVITY + 0 + ?n \<le> length (ls_llc s)"
    using wf k llc_wf_alloc [OF wf k] by (simp add: llc_wf_def)
  note loop = find_tag_loop_spec [OF this, of tag]
  have same: "List.find (\<lambda>m. ls_llc s ! (k * LLC_ASSOCIATIVITY + m) = tag) [0..<?n]
      = List.find (\<lambda>m. llc_blocks s k ! m = tag) [0..<?n]"
    using llc_blocks_nth [OF wf k] by (intro find_cong) auto
  have "nth_opt (ls_alloc_blocks s) k = Some (ls_alloc_blocks s ! k)"
    using wf k by (simp add: llc_wf_def)
  then show ?thesis
    using loop unfolding findTagInSet_def length_llc_blocks [OF wf k]
    by (auto simp: same Let_def split: option.splits)
qed

text \<open>The abstract set: a stack of at most \<open>cap\<close> blocks in recency order. \<open>keep\<close> tells that a block is not
  to be inserted into a full set.\<close>

definition stack_access :: "nat \<Rightarrow> bool \<Rightarrow> 'a \<Rightarrow> 'a list \<Rightarrow> 'a list" where
  "stack_access cap keep x xs =
     (if x \<in> set xs then x # remove1 x xs
      else if length xs < cap then x # xs
      else if keep then xs
      else x # butlast xs)"

lemma stack_hit:
  assumes "List.find (\<lambda>m. xs ! m = x) [0..<length xs] = Some i"
  shows "x \<in> set xs \<and> i < length xs \<and> shifted 0 i x xs = x # remove1 x xs"
proof -
  have i: "i < length xs" "xs ! i = x" "\<And>j. j < i \<Longrightarrow> xs ! j \<noteq> x"
    using assms by (auto simp: find_upt_Some)
  then have "x \<notin> set (take i xs)"
    by (auto simp: in_set_conv_nth)
  moreover have "xs = take i xs @ x # drop (Suc i) xs"
    using i id_take_nth_drop by metis
  ultimately have "remove1 x xs = take i xs @ drop (Suc i) xs"
    by (metis remove1_append remove1.simps(2))
  then show ?thesis
    using i by (auto simp: shifted_def)
qed

lemma take_shifted: "i < n \<Longrightarrow> n \<le> length xs \<Longrightarrow> take n (shifted 0 i x xs) = shifted 0 i x (take n xs)"
  by (cases n) (auto simp: shifted_def drop_take min_def less_Suc_eq_le dest: le_antisym)

lemma take_Suc_shifted: "n < length xs \<Longrightarrow> take (Suc n) (shifted 0 n x xs) = x # take n xs"
  by (simp add: shifted_def)

lemma llc_wf_cong:
  "ls_llc s' = ls_llc s \<Longrightarrow> ls_alloc_blocks s' = ls_alloc_blocks s \<Longrightarrow> llc_wf s' = llc_wf s"
  by (simp add: llc_wf_def)

lemma llc_blocks_cong:
  "ls_llc s' = ls_llc s \<Longrightarrow> ls_alloc_blocks s' = ls_alloc_blocks s \<Longrightarrow> llc_blocks s' = llc_blocks s"
  by (simp add: llc_blocks_def llc_row_def fun_eq_iff)

text \<open>A shift inside a row, with the number of blocks of that row set to \<open>m\<close>.\<close>

lemma shift_blocks:
  assumes wf: "llc_wf s" and k: "k < LLC_SETS" and p: "p < LLC_ASSOCIATIVITY" and m: "unat m \<le> LLC_ASSOCIATIVITY"
    and l: "ls_llc s' = shifted (k * LLC_ASSOCIATIVITY) p tag (ls_llc s)"
    and a: "ls_alloc_blocks s' = (ls_alloc_blocks s)[k := m]"
  shows "llc_wf s'" and "j < LLC_SETS \<Longrightarrow>
    llc_blocks s' j = (if j = k then take (unat m) (shifted 0 p tag (llc_row k s)) else llc_blocks s j)"
proof -
  let ?t = "s\<lparr>ls_llc := shifted (k * LLC_ASSOCIATIVITY) p tag (ls_llc s)\<rparr>"
  have "llc_wf ?t"
    using wf k p by (intro llc_wf_shifted) auto
  then show "llc_wf s'"
    using m l a by (auto simp: llc_wf_def list_all_iff dest!: set_update_subset_insert [THEN subsetD])
  assume j: "j < LLC_SETS"
  have "llc_row j s' = llc_row j ?t"
    by (simp add: llc_row_def l)
  then show "llc_blocks s' j = (if j = k then take (unat m) (shifted 0 p tag (llc_row k s)) else llc_blocks s j)"
    using row_shifted [OF wf k p j, of tag] wf k a by (simp add: llc_blocks_def llc_wf_def)
qed

text \<open>The three outcomes of an access.\<close>

lemma access_hit:
  assumes wf: "llc_wf s" and hit: "getTagSw a \<in> set (llc_blocks s (getSetSw a))"
  obtains s' where "accessLLCSw thd pfq a s = Some s'" "llc_wf s'" "ls_bhist s' = ls_bhist s"
    "ls_llcBypass s' = ls_llcBypass s"
    "\<And>j. j < LLC_SETS \<Longrightarrow> llc_blocks s' j = (if j = getSetSw a then getTagSw a # remove1 (getTagSw a) (llc_blocks s j)
       else llc_blocks s j)"
    "ls_llc_hits s' = (if getTagSw a \<in> set pfq then (ls_llc_hits s)(getTagSw a \<mapsto> 0)
       else case ls_llc_hits s (getTagSw a) of None \<Rightarrow> ls_llc_hits s | Some h \<Rightarrow> (ls_llc_hits s)(getTagSw a \<mapsto> h + 1))"
proof -
  let ?k = "getSetSw a" and ?tag = "getTagSw a" and ?s1 = "s\<lparr>ls_llcAcc := ls_llcAcc s + 1\<rparr>"
  let ?bs = "llc_blocks s ?k"
  have wf1: "llc_wf ?s1" using wf by (simp add: llc_wf_def)
  have bs1: "llc_blocks ?s1 ?k = ?bs" by (simp add: llc_blocks_def llc_row_def)
  obtain i where i: "List.find (\<lambda>m. ?bs ! m = ?tag) [0..<length ?bs] = Some i"
    using hit by (cases "List.find (\<lambda>m. ?bs ! m = ?tag) [0..<length ?bs]")
      (auto simp: find_upt_None in_set_conv_nth)
  define hits where "hits = (case ls_llc_hits s ?tag of None \<Rightarrow> ls_llc_hits s | Some h \<Rightarrow> (ls_llc_hits s)(?tag \<mapsto> h + 1))"
  define s2 where "s2 = ?s1\<lparr>ls_llc_hits := hits\<rparr>"
  have found: "findTagInSet ?k ?tag ?s1 = Some (Some i, s2)"
    using i by (simp add: findTagInSet_spec [OF wf1] bs1 s2_def hits_def Let_def split: option.splits)
  note stack = stack_hit [OF i]
  have il: "i < unat (ls_alloc_blocks s ! ?k)" "unat (ls_alloc_blocks s ! ?k) \<le> LLC_ASSOCIATIVITY"
    using stack length_llc_blocks [OF wf, of ?k] llc_wf_alloc [OF wf, of ?k] by auto
  have wf2: "llc_wf s2" using wf by (simp add: llc_wf_def s2_def)
  define s' where "s' = s2\<lparr>ls_llc := shifted (?k * LLC_ASSOCIATIVITY) i ?tag (ls_llc s2),
      ls_llc_hits := (if ?tag \<in> set pfq then (ls_llc_hits s2)(?tag \<mapsto> 0) else ls_llc_hits s2)\<rparr>"
  have "?k * LLC_ASSOCIATIVITY + i < length (ls_llc s2)"
    using getSetSw_in_array [of i a] il wf2 by (simp add: llc_wf_def)
  then have acc: "accessLLCSw thd pfq a s = Some s'"
    unfolding accessLLCSw_def Let_def by (simp add: found handleLLCHit_def updateLLCSw_flat s'_def)
  have l: "ls_llc s' = shifted (?k * LLC_ASSOCIATIVITY) i ?tag (ls_llc s)"
    and al: "ls_alloc_blocks s' = (ls_alloc_blocks s)[?k := ls_alloc_blocks s ! ?k]"
    by (simp_all add: s'_def s2_def)
  have "i < LLC_ASSOCIATIVITY" using il by simp
  note sh = shift_blocks [OF wf getSetSw_less this il(2) l al]
  have "take (unat (ls_alloc_blocks s ! ?k)) (shifted 0 i ?tag (llc_row ?k s)) = ?tag # remove1 ?tag ?bs"
    using il stack length_llc_row [OF wf, of ?k] by (simp add: take_shifted llc_blocks_def)
  then show thesis
    using acc sh by (intro that [of s']) (auto simp: s'_def s2_def hits_def fun_eq_iff split: option.splits)
qed

lemma find_miss:
  assumes "llc_wf s" and "k < LLC_SETS" and "tag \<notin> set (llc_blocks s k)"
  shows "findTagInSet k tag s = Some (None, s)"
proof -
  have "List.find (\<lambda>m. llc_blocks s k ! m = tag) [0..<length (llc_blocks s k)] = None"
    using assms(3) by (auto simp: find_upt_None in_set_conv_nth)
  then show ?thesis
    by (simp add: findTagInSet_spec [OF assms(1,2)] Let_def)
qed

text \<open>An access to an absent block is the handler of a miss on the counted state.\<close>

lemma access_miss:
  assumes wf: "llc_wf s" and miss: "getTagSw a \<notin> set (llc_blocks s (getSetSw a))"
  shows "accessLLCSw thd pfq a s = handleLLCMiss thd pfq (getTagSw a) (getSetSw a) (s\<lparr>ls_llcAcc := ls_llcAcc s + 1\<rparr>)"
proof -
  let ?s1 = "s\<lparr>ls_llcAcc := ls_llcAcc s + 1\<rparr>"
  have "llc_wf ?s1" and "getTagSw a \<notin> set (llc_blocks ?s1 (getSetSw a))"
    using wf miss by (simp_all add: llc_wf_def llc_blocks_def llc_row_def)
  then show ?thesis
    by (simp add: accessLLCSw_def Let_def find_miss)
qed

lemma access_partial:
  assumes wf: "llc_wf s" and miss: "getTagSw a \<notin> set (llc_blocks s (getSetSw a))"
    and room: "length (llc_blocks s (getSetSw a)) < LLC_ASSOCIATIVITY"
  obtains s' where "accessLLCSw thd pfq a s = Some s'" "llc_wf s'" "ls_bhist s' = ls_bhist s"
    "ls_llcBypass s' = ls_llcBypass s"
    "\<And>j. j < LLC_SETS \<Longrightarrow> llc_blocks s' j = (if j = getSetSw a then getTagSw a # llc_blocks s j else llc_blocks s j)"
proof -
  let ?k = "getSetSw a" and ?tag = "getTagSw a"
  let ?n = "ls_alloc_blocks s ! ?k"
  have n: "unat ?n < LLC_ASSOCIATIVITY"
    using room length_llc_blocks [OF wf, of ?k] by simp
  then have "?n < 16"
    by (simp add: word_less_nat_alt)
  then have n': "unat (?n + 1) = Suc (unat ?n)"
    by (rule unat_plus_one)
  define s1 where "s1 = s\<lparr>ls_llcAcc := ls_llcAcc s + 1, ls_llcMiss := ls_llcMiss s + 1,
      ls_alloc_blocks := (ls_alloc_blocks s)[?k := ?n + 1]\<rparr>"
  define s' where "s' = s1\<lparr>ls_llc := shifted (?k * LLC_ASSOCIATIVITY) (unat ?n) ?tag (ls_llc s1),
      ls_llc_hits := (if ?tag \<in> set pfq then (ls_llc_hits s1)(?tag \<mapsto> 0) else ls_llc_hits s1)\<rparr>"
  have len: "length (ls_alloc_blocks s) = LLC_SETS" and "?k * LLC_ASSOCIATIVITY + unat ?n < length (ls_llc s1)"
    using wf getSetSw_in_array [OF n, of a] by (auto simp: llc_wf_def s1_def)
  then have "updateLLCSw pfq ?tag (unat ?n) ?k s1 = Some s'"
    by (simp add: updateLLCSw_flat s'_def)
  then have acc: "accessLLCSw thd pfq a s = Some s'"
    using n len by (simp add: access_miss [OF wf miss] handleLLCMiss_def insertIntoPartialSet_def s1_def)
  have m: "unat (?n + 1) \<le> LLC_ASSOCIATIVITY"
    using n n' by simp
  have l: "ls_llc s' = shifted (?k * LLC_ASSOCIATIVITY) (unat ?n) ?tag (ls_llc s)"
    and al: "ls_alloc_blocks s' = (ls_alloc_blocks s)[?k := ?n + 1]"
    by (simp_all add: s'_def s1_def)
  note sh = shift_blocks [OF wf getSetSw_less n m l al]
  have "take (unat (?n + 1)) (shifted 0 (unat ?n) ?tag (llc_row ?k s)) = ?tag # llc_blocks s ?k"
    using n n' length_llc_row [OF wf, of ?k] by (simp add: take_Suc_shifted llc_blocks_def)
  then show thesis
    using acc sh by (intro that [of s']) (auto simp: s'_def s1_def)
qed

lemma access_full:
  assumes wf: "llc_wf s" and miss: "getTagSw a \<notin> set (llc_blocks s (getSetSw a))"
    and full: "length (llc_blocks s (getSetSw a)) = LLC_ASSOCIATIVITY"
  shows "accessLLCSw thd pfq a s =
    handleFullSetMiss thd pfq (getTagSw a) (getSetSw a)
      (s\<lparr>ls_llcAcc := ls_llcAcc s + 1, ls_llcMiss := ls_llcMiss s + 1\<rparr>)"
proof -
  have "unat (ls_alloc_blocks s ! getSetSw a) = LLC_ASSOCIATIVITY" "length (ls_alloc_blocks s) = LLC_SETS"
    using full wf length_llc_blocks [OF wf, of "getSetSw a"] by (simp_all add: llc_wf_def)
  then show ?thesis
    by (simp add: access_miss [OF wf miss] handleLLCMiss_def)
qed

lemma LlcSw_init_wf: "llc_wf LlcSw_init"
  by (simp add: llc_wf_def LlcSw_init_def list_all_iff)

lemma LlcSw_init_blocks: "set_index < LLC_SETS \<Longrightarrow> llc_blocks LlcSw_init set_index = []"
  by (simp add: llc_blocks_def LlcSw_init_def)

lemma first_access:
  "\<exists>s. accessLLCSw thd pfq a LlcSw_init = Some s \<and> llc_wf s \<and> ls_bhist s = ls_bhist LlcSw_init \<and>
     llc_blocks s (getSetSw a) = [getTagSw a]"
  by (rule access_partial [OF LlcSw_init_wf, of a thd pfq]) (simp_all add: LlcSw_init_blocks)

section \<open>Counters\<close>

lemma updateLLCSw_frame:
  assumes "updateLLCSw pfq tag p set_index s = Some s'"
  shows "ls_bhist s' = ls_bhist s \<and> ls_llcBypass s' = ls_llcBypass s"
  using assms unfolding updateLLCSw_def llc_loop_list
  by (auto simp: abort_simps llc_put_def)

definition counters_capped :: "LlcSw \<Rightarrow> bool" where
  "counters_capped s \<longleftrightarrow> (\<forall>h. snd (ls_bhist s h) \<le> MAX_COUNTER_VAL)"

lemma counters_capped_evict: "counters_capped s \<Longrightarrow> counters_capped (updateCounters_evict tag s)"
  by (auto simp: counters_capped_def updateCounters_evict_def capCounters_def Let_def not_less
      split: option.splits prod.splits)

lemma updateCounters_evict_bypass [simp]: "ls_llcBypass (updateCounters_evict tag s) = ls_llcBypass s"
  by (simp add: updateCounters_evict_def capCounters_def Let_def split: option.splits prod.splits)

lemma handleFullSetMiss_capped:
  assumes "handleFullSetMiss thd pfq tag k s = Some s'" and "counters_capped s"
  shows "counters_capped s' \<and> (MAX_COUNTER_VAL \<le> thd \<longrightarrow> ls_llcBypass s' = ls_llcBypass s)"
proof (cases "shouldBypassLLC thd pfq tag s")
  case True
  then have "thd < snd (ls_bhist s (llc_findHash tag block_bits))"
    by (simp add: shouldBypassLLC_def)
  moreover have "snd (ls_bhist s (llc_findHash tag block_bits)) \<le> MAX_COUNTER_VAL"
    using assms(2) by (simp add: counters_capped_def)
  ultimately have "thd < MAX_COUNTER_VAL"
    by (rule less_le_trans)
  then show ?thesis
    using assms True by (auto simp: handleFullSetMiss_def counters_capped_def)
next
  case False
  then obtain ev where "updateLLCSw pfq tag LLC_ASSOCIATIVITY k (updateCounters_evict ev s) = Some s'"
    using assms(1) by (auto simp: handleFullSetMiss_def abort_simps)
  from updateLLCSw_frame [OF this] show ?thesis
    using counters_capped_evict [OF assms(2), of ev] by (simp add: counters_capped_def)
qed

lemma handleLLCMiss_capped:
  assumes "handleLLCMiss thd pfq tag k s = Some s'" and "counters_capped s"
  shows "counters_capped s' \<and> (MAX_COUNTER_VAL \<le> thd \<longrightarrow> ls_llcBypass s' = ls_llcBypass s)"
proof -
  let ?s1 = "s\<lparr>ls_llcMiss := ls_llcMiss s + 1\<rparr>"
  have c1: "counters_capped ?s1"
    using assms(2) by (simp add: counters_capped_def)
  obtain n where n: "nth_opt (ls_alloc_blocks s) k = Some n"
    using assms(1) by (auto simp: handleLLCMiss_def Let_def abort_simps)
  then have "insertIntoPartialSet pfq tag k ?s1 = Some s' \<or> handleFullSetMiss thd pfq tag k ?s1 = Some s' \<or> s' = ?s1"
    using assms(1) by (simp add: handleLLCMiss_def Let_def split: if_splits)
  then consider "insertIntoPartialSet pfq tag k ?s1 = Some s'" | "handleFullSetMiss thd pfq tag k ?s1 = Some s'" | "s' = ?s1"
    by blast
  then show ?thesis
  proof cases
    case 1
    then show ?thesis
      using c1 by (auto simp: insertIntoPartialSet_def abort_simps counters_capped_def dest!: updateLLCSw_frame)
  next
    case 2
    from handleFullSetMiss_capped [OF this c1] show ?thesis by simp
  qed (use c1 in simp)
qed

lemma accessLLCSw_capped:
  assumes "accessLLCSw thd pfq a s = Some s'" and "counters_capped s"
  shows "counters_capped s' \<and> (MAX_COUNTER_VAL \<le> thd \<longrightarrow> ls_llcBypass s' = ls_llcBypass s)"
proof -
  obtain r s2 where f: "findTagInSet (getSetSw a) (getTagSw a) (s\<lparr>ls_llcAcc := ls_llcAcc s + 1\<rparr>) = Some (r, s2)"
    and out: "(case r of Some i \<Rightarrow> handleLLCHit pfq (getTagSw a) i (getSetSw a) s2
        | None \<Rightarrow> handleLLCMiss thd pfq (getTagSw a) (getSetSw a) s2) = Some s'"
    using assms(1) by (auto simp: accessLLCSw_def Let_def abort_simps)
  have s2: "ls_bhist s2 = ls_bhist s" "ls_llcBypass s2 = ls_llcBypass s"
    using f by (auto simp: findTagInSet_def abort_simps split: option.splits)
  then have c2: "counters_capped s2"
    using assms(2) by (simp add: counters_capped_def)
  show ?thesis
  proof (cases r)
    case None
    then show ?thesis
      using out handleLLCMiss_capped [OF _ c2] s2 by simp
  next
    case (Some i)
    then show ?thesis
      using out c2 s2 by (auto simp: handleLLCHit_def counters_capped_def dest!: updateLLCSw_frame)
  qed
qed

section \<open>Properties\<close>

text \<open>C15. The software cache refines a stack of recently used blocks. Unless a full set must evict, an access
  returns, changes only its own set, and changes it like the abstract stack: a hit moves the block to the
  front, a miss in a set with room pushes it, and cbPred keeps a block it expects to be dead out of a
  full set.\<close>

theorem accessLLCSw_refines_stack:
  assumes "llc_wf s"
    and "getTagSw a \<in> set (llc_blocks s (getSetSw a)) \<or> length (llc_blocks s (getSetSw a)) < LLC_ASSOCIATIVITY \<or>
      shouldBypassLLC thd pfq (getTagSw a) s"
  shows "\<exists>s'. accessLLCSw thd pfq a s = Some s' \<and> llc_wf s' \<and> ls_bhist s' = ls_bhist s \<and>
    (\<forall>j < LLC_SETS. llc_blocks s' j = (if j = getSetSw a
       then stack_access LLC_ASSOCIATIVITY True (getTagSw a) (llc_blocks s j) else llc_blocks s j))"
proof (cases "getTagSw a \<in> set (llc_blocks s (getSetSw a))")
  case True
  show ?thesis
    by (rule access_hit [OF assms(1) True, of thd pfq]) (use True in \<open>auto simp: stack_access_def\<close>)
next
  case miss: False
  show ?thesis
  proof (cases "length (llc_blocks s (getSetSw a)) < LLC_ASSOCIATIVITY")
    case True
    show ?thesis
      by (rule access_partial [OF assms(1) miss True, of thd pfq]) (use True miss in \<open>auto simp: stack_access_def\<close>)
  next
    case False
    then have full: "length (llc_blocks s (getSetSw a)) = LLC_ASSOCIATIVITY"
      using length_llc_blocks [OF assms(1), of "getSetSw a"] llc_wf_alloc [OF assms(1), of "getSetSw a"] by simp
    have "shouldBypassLLC thd pfq (getTagSw a) s"
      using assms(2) miss False by blast
    then show ?thesis
      using assms(1) miss full
      by (auto simp: access_full handleFullSetMiss_def shouldBypassLLC_def stack_access_def llc_wf_def
          llc_blocks_def llc_row_def)
  qed
qed

theorem accessLLCSw_refines_stack_witness:
  "\<exists>s'. accessLLCSw 6 [] 0x40000 LlcSw_init = Some s' \<and> llc_blocks s' 0 = [2] \<and> llc_blocks s' 1 = []"
proof -
  have "getSetSw 0x40000 = 0" "getTagSw 0x40000 = 2"
    by code_simp+
  then show ?thesis
    using accessLLCSw_refines_stack [OF LlcSw_init_wf, of "0x40000" 6 "[]"]
    by (auto simp: LlcSw_init_blocks stack_access_def)
qed

text \<open>C21. Evicting from a full set writes behind the row. The loop starts at index \<^verbatim>\<open>LLC_ASSOCIATIVITY\<close>, one
  too far: the set itself gets the new block and loses its oldest one, but the evicted tag replaces the most
  recent block of the next set, and in the last set the write leaves the array.\<close>

theorem full_set_miss_overwrites_next_set:
  assumes "llc_wf s" and "getTagSw a \<notin> set (llc_blocks s (getSetSw a))"
    and "length (llc_blocks s (getSetSw a)) = LLC_ASSOCIATIVITY" and "\<not> shouldBypassLLC thd pfq (getTagSw a) s"
  shows "if Suc (getSetSw a) = LLC_SETS then accessLLCSw thd pfq a s = None
    else \<exists>s'. accessLLCSw thd pfq a s = Some s' \<and> llc_wf s' \<and>
      (\<forall>j < LLC_SETS. llc_blocks s' j =
        (if j = getSetSw a then getTagSw a # butlast (llc_blocks s j)
         else if j = Suc (getSetSw a) then (llc_blocks s j)[0 := last (llc_blocks s (getSetSw a))]
         else llc_blocks s j))"
proof -
  let ?k = "getSetSw a" and ?tag = "getTagSw a"
  define s1 where "s1 = s\<lparr>ls_llcAcc := ls_llcAcc s + 1, ls_llcMiss := ls_llcMiss s + 1\<rparr>"
  define ev where "ev = ls_llc s ! (?k * LLC_ASSOCIATIVITY + 15)"
  define s2 where "s2 = updateCounters_evict ev s1"
  have same: "ls_llc s2 = ls_llc s" "ls_alloc_blocks s2 = ls_alloc_blocks s"
    by (auto simp: s2_def s1_def updateCounters_evict_def capCounters_def Let_def split: option.splits prod.splits)
  have wf2: "llc_wf s2"
    using assms(1) llc_wf_cong [OF same] by simp
  have blocks2: "llc_blocks s2 = llc_blocks s"
    by (rule llc_blocks_cong [OF same])
  have "llc_at ?k 15 s1 = Some ev"
    using assms(1) getSetSw_in_array [of 15 a] by (simp add: llc_at_def ev_def s1_def llc_wf_def)
  then have acc: "accessLLCSw thd pfq a s = updateLLCSw pfq ?tag LLC_ASSOCIATIVITY ?k s2"
    using assms by (auto simp: access_full handleFullSetMiss_def shouldBypassLLC_def s1_def s2_def)
  have full: "unat (ls_alloc_blocks s ! ?k) = LLC_ASSOCIATIVITY"
    using assms(3) length_llc_blocks [OF assms(1), of ?k] by simp
  show ?thesis
  proof (cases "Suc ?k = LLC_SETS")
    case True
    then have "length (ls_llc s2) \<le> ?k * LLC_ASSOCIATIVITY + LLC_ASSOCIATIVITY"
      using wf2 by (simp add: llc_wf_def)
    then show ?thesis
      using True acc by (simp add: updateLLCSw_outside)
  next
    case False
    then have k: "Suc ?k < LLC_SETS"
      using getSetSw_less [of a] by linarith
    then have room: "?k * LLC_ASSOCIATIVITY + LLC_ASSOCIATIVITY < LLC_SETS * LLC_ASSOCIATIVITY"
      by simp
    let ?t = "s2\<lparr>ls_llc := shifted (?k * LLC_ASSOCIATIVITY) LLC_ASSOCIATIVITY ?tag (ls_llc s2)\<rparr>"
    obtain s' where s': "accessLLCSw thd pfq a s = Some s'" "ls_llc s' = ls_llc ?t" "ls_alloc_blocks s' = ls_alloc_blocks ?t"
      using room wf2 acc by (simp add: updateLLCSw_flat llc_wf_def)
    have "llc_wf s'"
      using llc_wf_shifted [OF wf2 room] llc_wf_cong [OF s'(2,3)] by simp
    moreover have "llc_blocks s' j = (if j = ?k then ?tag # butlast (llc_blocks s j)
        else if j = Suc ?k then (llc_blocks s j)[0 := last (llc_blocks s ?k)] else llc_blocks s j)"
      if j: "j < LLC_SETS" for j
    proof -
      have "llc_blocks s' j = llc_blocks ?t j"
        using llc_blocks_cong [OF s'(2,3)] by simp
      also have "\<dots> = take (unat (ls_alloc_blocks s2 ! j)) (llc_row j ?t)"
        by (simp add: llc_blocks_def)
      finally show ?thesis
        using row_overflow [OF wf2 k j, of ?tag] full same length_llc_row [OF wf2, of ?k]
        unfolding blocks2 [symmetric] by (auto simp: llc_blocks_def take_update_swap)
    qed
    ultimately show ?thesis
      using s'(1) False by auto
  qed
qed

theorem full_set_miss_overwrites_next_set_witness:
  "let s = LlcSw_init\<lparr>ls_llc := replicate 15 0 @ [5, 7] @ replicate 32751 0,
       ls_alloc_blocks := (replicate LLC_SETS 0)[0 := 16, 1 := 1]\<rparr>
   in llc_blocks s 1 = [7] \<and> (\<exists>s'. accessLLCSw 6 [] 0x40000 s = Some s' \<and> llc_blocks s' 1 = [5])"
proof -
  define s where "s = LlcSw_init\<lparr>ls_llc := replicate 15 0 @ [5, 7] @ replicate 32751 0,
       ls_alloc_blocks := (replicate LLC_SETS 0)[0 := 16, 1 := 1]\<rparr>"
  have a: "getSetSw 0x40000 = 0" "getTagSw 0x40000 = 2"
    by code_simp+
  have wf: "llc_wf s"
    by (auto simp: llc_wf_def s_def list_all_iff dest!: set_update_subset_insert [THEN subsetD])
  have b0: "llc_blocks s 0 = replicate 15 0 @ [5]" and b1: "llc_blocks s 1 = [7]"
    by (simp_all add: s_def llc_blocks_def llc_row_def)
  have "\<not> shouldBypassLLC 6 [] 2 s"
    by (simp add: shouldBypassLLC_def recentPFNContains_def)
  then have "\<exists>s'. accessLLCSw 6 [] 0x40000 s = Some s' \<and> llc_blocks s' 1 = [5]"
    using full_set_miss_overwrites_next_set [OF wf, of "0x40000" 6 "[]"] by (auto simp: a b0 b1 [unfolded One_nat_def])
  then show ?thesis
    using b1 by (simp add: s_def Let_def)
qed

text \<open>C23. The dead block counters saturate: after any sequence of accesses from the initial state, with any
  contents of the page frame queue, no counter exceeds \<^verbatim>\<open>MAX_COUNTER_VAL\<close>; with a threshold of at least that value
  nothing is ever bypassed.\<close>

theorem cbpred_counters_saturate:
  assumes "fold_opt (\<lambda>(pfq, a). accessLLCSw thd pfq a) accesses LlcSw_init = Some s"
  shows "snd (ls_bhist s h) \<le> MAX_COUNTER_VAL \<and> (MAX_COUNTER_VAL \<le> thd \<longrightarrow> ls_llcBypass s = 0)"
proof -
  let ?I = "\<lambda>s. counters_capped s \<and> (MAX_COUNTER_VAL \<le> thd \<longrightarrow> ls_llcBypass s = 0)"
  have "?I s"
  proof (rule fold_opt_inv [where I = ?I, OF assms])
    show "?I LlcSw_init"
      by (simp add: counters_capped_def LlcSw_init_def)
  next
    fix x t t'
    assume t: "?I t" and step: "(case x of (pfq, a) \<Rightarrow> accessLLCSw thd pfq a) t = Some t'"
    obtain q a where "x = (q, a)" by (cases x)
    then have "accessLLCSw thd q a t = Some t'"
      using step by simp
    from accessLLCSw_capped [OF this] t show "?I t'"
      by auto
  qed
  then show ?thesis
    by (simp add: counters_capped_def)
qed

theorem cbpred_counters_saturate_witness:
  "\<exists>s. fold_opt (\<lambda>(pfq, a). accessLLCSw 20 pfq a) [([2], 0x40000)] LlcSw_init = Some s \<and>
     snd (ls_bhist s 7) \<le> 16 \<and> ls_llcBypass s = 0"
proof -
  obtain s where "accessLLCSw 20 [2] 0x40000 LlcSw_init = Some s"
    using first_access by blast
  then have "fold_opt (\<lambda>(pfq, a). accessLLCSw 20 pfq a) [([2], 0x40000)] LlcSw_init = Some s"
    by simp
  from this cbpred_counters_saturate [OF this, of 7] show ?thesis
    by auto
qed



end
