(* ===== verification/Queues.thy ===== *)
theory Queues
  imports Prelude
begin

text \<open>
  The queues of the memory subsystem: \<^verbatim>\<open>ReqQueueListTemplate\<close> of \<^verbatim>\<open>cache/req_queue_list_template.h\<close> (the
  variant that is compiled, a map from addresses to queues) and \<^verbatim>\<open>CircularQueue\<close> of
  \<^verbatim>\<open>misc/circular_queue.h\<close>. Locale \<open>keyed_fifo\<close> is the contract the controllers rely on, a first-in
  first-out queue for every key; both classes implement it.
\<close>

section \<open>Interface\<close>

datatype ('k, 'a) queue_op = Push 'k 'a | Pop 'k

text \<open>A sequence of operations; the results of the removals are collected with their keys.\<close>

fun queue_run :: "('k \<Rightarrow> 'a \<Rightarrow> 'q \<Rightarrow> 'q option) \<Rightarrow> ('k \<Rightarrow> 'q \<Rightarrow> ('a \<times> 'q) option) \<Rightarrow> ('k, 'a) queue_op list \<Rightarrow> 'q \<Rightarrow>
    (('k \<times> 'a) list \<times> 'q) option" where
  "queue_run push pop [] q = Some ([], q)"
| "queue_run push pop (Push k x # ops) q = do { q' \<leftarrow> push k x q; queue_run push pop ops q' }"
| "queue_run push pop (Pop k # ops) q = do {
     (x, q') \<leftarrow> pop k q;
     (out, q'') \<leftarrow> queue_run push pop ops q';
     Some ((k, x) # out, q'')
   }"

fun pushes_of :: "('k, 'a) queue_op list \<Rightarrow> ('k \<times> 'a) list" where
  "pushes_of [] = []"
| "pushes_of (Push k x # ops) = (k, x) # pushes_of ops"
| "pushes_of (Pop k # ops) = pushes_of ops"

definition at_key :: "'k \<Rightarrow> ('k \<times> 'a) list \<Rightarrow> 'a list" where
  "at_key k xs = map snd (filter (\<lambda>(j, _). j = k) xs)"

lemma at_key_simps [simp]:
  "at_key k [] = []" "at_key k ((j, x) # xs) = (if j = k then x # at_key k xs else at_key k xs)"
  by (simp_all add: at_key_def)

locale keyed_fifo =
  fixes wf :: "'q \<Rightarrow> bool" and contents :: "'q \<Rightarrow> 'k \<Rightarrow> 'a list"
    and push :: "'k \<Rightarrow> 'a \<Rightarrow> 'q \<Rightarrow> 'q option" and pop :: "'k \<Rightarrow> 'q \<Rightarrow> ('a \<times> 'q) option"
  assumes push_law: "wf q \<Longrightarrow> push k x q = Some q' \<Longrightarrow>
      wf q' \<and> contents q' = (contents q)(k := contents q k @ [x])"
    and pop_law: "wf q \<Longrightarrow> pop k q = Some (x, q') \<Longrightarrow>
      wf q' \<and> contents q k = x # contents q' k \<and> (\<forall>j. j \<noteq> k \<longrightarrow> contents q' j = contents q j)"
    and pop_total: "wf q \<Longrightarrow> contents q k \<noteq> [] \<Longrightarrow> pop k q \<noteq> None"
begin

text \<open>What comes out at a key, followed by what is left, is what was there followed by what went in.\<close>

lemma run_order:
  assumes "wf q" and "queue_run push pop ops q = Some (out, q')"
  shows "wf q' \<and> contents q k @ at_key k (pushes_of ops) = at_key k out @ contents q' k"
  using assms
proof (induction ops arbitrary: q out)
  case Nil
  then show ?case by simp
next
  case (Cons op ops)
  show ?case
  proof (cases op)
    case (Push j x)
    then obtain q1 where "push j x q = Some q1" and "queue_run push pop ops q1 = Some (out, q')"
      using Cons.prems(2) by (auto simp: abort_simps)
    then show ?thesis
      using push_law [OF Cons.prems(1)] Cons.IH [of q1 out] Push by auto
  next
    case (Pop j)
    then obtain x q1 out1 where "pop j q = Some (x, q1)" and "queue_run push pop ops q1 = Some (out1, q')"
      and "out = (j, x) # out1"
      using Cons.prems(2) by (auto simp: abort_simps)
    then show ?thesis
      using pop_law [OF Cons.prems(1)] Cons.IH [of q1 out1] Pop by auto
  qed
qed

end

section \<open>Request queues\<close>

type_synonym 'a req_queue_list = "IntPtr \<rightharpoonup> 'a list"

definition rq_enqueue :: "IntPtr \<Rightarrow> 'a \<Rightarrow> 'a req_queue_list \<Rightarrow> 'a req_queue_list" where
  "rq_enqueue address req m =
     (let m' = (if m address = None then m(address \<mapsto> []) else m)
      in m'(address \<mapsto> the (m' address) @ [req]))"

definition rq_dequeue :: "IntPtr \<Rightarrow> 'a req_queue_list \<Rightarrow> ('a \<times> 'a req_queue_list) option" where
  "rq_dequeue address m = do {
     q \<leftarrow> m address;
     case q of
       [] \<Rightarrow> None
     | req # rest \<Rightarrow> Some (req, if rest = [] then m(address := None) else m(address \<mapsto> rest))
   }"

definition rq_front :: "IntPtr \<Rightarrow> 'a req_queue_list \<Rightarrow> 'a option" where
  "rq_front address m = do { q \<leftarrow> m address; nth_opt q 0 }"

definition rq_back :: "IntPtr \<Rightarrow> 'a req_queue_list \<Rightarrow> 'a option" where
  "rq_back address m = do { q \<leftarrow> m address; ensure (q \<noteq> []); Some (last q) }"

definition rq_size :: "IntPtr \<Rightarrow> 'a req_queue_list \<Rightarrow> nat" where
  "rq_size address m = (case m address of None \<Rightarrow> 0 | Some q \<Rightarrow> length q)"

definition rq_empty :: "IntPtr \<Rightarrow> 'a req_queue_list \<Rightarrow> bool" where
  "rq_empty address m \<longleftrightarrow> m address = None"

text \<open>Well-formed: a queue is removed from the map when it becomes empty.\<close>

definition rq_wf :: "'a req_queue_list \<Rightarrow> bool" where
  "rq_wf m \<longleftrightarrow> (\<forall>a. m a \<noteq> Some [])"

definition rq_contents :: "'a req_queue_list \<Rightarrow> IntPtr \<Rightarrow> 'a list" where
  "rq_contents m a = (case m a of None \<Rightarrow> [] | Some q \<Rightarrow> q)"

lemma rq_wf_empty: "rq_wf Map.empty"
  by (simp add: rq_wf_def)

lemma rq_wf_enqueue: "rq_wf m \<Longrightarrow> rq_wf (rq_enqueue a x m)"
  by (simp add: rq_wf_def rq_enqueue_def Let_def)

lemma rq_enqueue_contents: "rq_contents (rq_enqueue a x m) = (rq_contents m)(a := rq_contents m a @ [x])"
  by (auto simp: rq_contents_def rq_enqueue_def Let_def fun_eq_iff)

lemma rq_dequeue_contents:
  assumes "rq_wf m" and "rq_dequeue a m = Some (x, m')"
  shows "rq_wf m' \<and> rq_contents m a = x # rq_contents m' a \<and> (\<forall>b. b \<noteq> a \<longrightarrow> rq_contents m' b = rq_contents m b)"
proof -
  obtain rest where m: "m a = Some (x # rest)" and m': "m' = (if rest = [] then m(a := None) else m(a \<mapsto> rest))"
    using assms(2) by (cases "m a"; cases "the (m a)") (auto simp: rq_dequeue_def)
  show ?thesis
    using assms(1) m unfolding m' by (simp add: rq_wf_def rq_contents_def)
qed

lemma rq_dequeue_total: "rq_wf m \<Longrightarrow> rq_contents m a \<noteq> [] \<Longrightarrow> rq_dequeue a m \<noteq> None"
  by (auto simp: rq_dequeue_def rq_contents_def split: option.splits list.splits)

lemma rq_size_contents: "rq_size a m = length (rq_contents m a)"
  by (simp add: rq_size_def rq_contents_def split: option.splits)

lemma rq_empty_contents: "rq_wf m \<Longrightarrow> rq_empty a m \<longleftrightarrow> rq_contents m a = []"
  by (auto simp: rq_empty_def rq_contents_def rq_wf_def split: option.splits)

lemma rq_front_contents: "rq_front a m = (case rq_contents m a of [] \<Rightarrow> None | x # xs \<Rightarrow> Some x)"
  by (auto simp: rq_front_def rq_contents_def nth_opt_def split: option.splits list.splits)

interpretation req_queues: keyed_fifo rq_wf rq_contents "\<lambda>a x m. Some (rq_enqueue a x m)" rq_dequeue
proof (unfold_locales, goal_cases)
  case (1 q k x q')
  then have "q' = rq_enqueue k x q" by simp
  then show ?case using 1(1) by (simp add: rq_wf_enqueue rq_enqueue_contents)
next
  case (2 q k x q')
  then show ?case by (rule rq_dequeue_contents)
next
  case (3 q k)
  then show ?case by (rule rq_dequeue_total)
qed

section \<open>Circular queues\<close>

text \<open>The array holds one element more than the queue, and the queue is empty when both indices are equal.
  \<open>garbage\<close> is what the array holds before it is written.\<close>

record 'a CircularQueue =
  cq_size :: u32
  cq_first :: u32
  cq_last :: u32
  cq_queue :: "'a list"

definition CircularQueue_new :: "'a \<Rightarrow> u32 \<Rightarrow> 'a CircularQueue" where
  "CircularQueue_new garbage sz = \<lparr>cq_size = sz + 1, cq_first = 0, cq_last = 0,
     cq_queue = replicate (unat (sz + 1)) garbage\<rparr>"

definition cq_full :: "'a CircularQueue \<Rightarrow> bool" where
  "cq_full q \<longleftrightarrow> (cq_first q + 1) mod cq_size q = cq_last q"

definition cq_empty :: "'a CircularQueue \<Rightarrow> bool" where
  "cq_empty q \<longleftrightarrow> cq_first q = cq_last q"

definition cq_length :: "'a CircularQueue \<Rightarrow> u32" where
  "cq_length q = (cq_first q + cq_size q - cq_last q) mod cq_size q"

definition cq_push :: "'a \<Rightarrow> 'a CircularQueue \<Rightarrow> 'a CircularQueue option" where
  "cq_push t q = do {
     ensure (\<not> cq_full q);
     ensure (unat (cq_first q) < length (cq_queue q));
     Some (q\<lparr>cq_queue := (cq_queue q)[unat (cq_first q) := t], cq_first := (cq_first q + 1) mod cq_size q\<rparr>)
   }"

definition cq_pop :: "'a CircularQueue \<Rightarrow> ('a \<times> 'a CircularQueue) option" where
  "cq_pop q = do {
     ensure (\<not> cq_empty q);
     t \<leftarrow> nth_opt (cq_queue q) (unat (cq_last q));
     Some (t, q\<lparr>cq_last := (cq_last q + 1) mod cq_size q\<rparr>)
   }"

definition cq_pushCircular :: "'a \<Rightarrow> 'a CircularQueue \<Rightarrow> 'a CircularQueue option" where
  "cq_pushCircular t q = do {
     q' \<leftarrow> (if cq_full q then map_option snd (cq_pop q) else Some q);
     cq_push t q'
   }"

definition cq_front :: "'a CircularQueue \<Rightarrow> 'a option" where
  "cq_front q = do { ensure (\<not> cq_empty q); nth_opt (cq_queue q) (unat (cq_last q)) }"

definition cq_back :: "'a CircularQueue \<Rightarrow> 'a option" where
  "cq_back q = do {
     ensure (\<not> cq_empty q);
     nth_opt (cq_queue q) (unat ((cq_first q + cq_size q - 1) mod cq_size q))
   }"

definition cq_at :: "u32 \<Rightarrow> 'a CircularQueue \<Rightarrow> 'a option" where
  "cq_at idx q = do {
     ensure (idx < cq_length q);
     nth_opt (cq_queue q) (unat ((cq_last q + idx) mod cq_size q))
   }"

text \<open>Sums of two indices must not wrap around, so the array must have at most \<open>2 ^ 31\<close> elements.\<close>

definition cq_wf :: "'a CircularQueue \<Rightarrow> bool" where
  "cq_wf q \<longleftrightarrow> 0 < unat (cq_size q) \<and> unat (cq_size q) \<le> 2 ^ 31 \<and> length (cq_queue q) = unat (cq_size q) \<and>
     unat (cq_first q) < unat (cq_size q) \<and> unat (cq_last q) < unat (cq_size q)"

definition cq_contents :: "'a CircularQueue \<Rightarrow> 'a list" where
  "cq_contents q = map (\<lambda>i. cq_queue q ! ((unat (cq_last q) + i) mod unat (cq_size q))) [0..<unat (cq_length q)]"

lemma unat_plus_le31:
  fixes a b :: u32
  assumes "unat a < n" and "unat b \<le> n" and "n \<le> 2 ^ 31"
  shows "unat (a + b) = unat a + unat b"
  using assms by (subst unat_plus_if_size) (simp add: word_size)

lemma cq_next:
  assumes "cq_wf q" and "unat i < unat (cq_size q)"
  shows "unat ((i + 1) mod cq_size q) = Suc (unat i) mod unat (cq_size q)"
proof -
  have "unat (i + 1) = unat i + 1"
    using assms unat_plus_le31 [of i "unat (cq_size q)" 1] by (simp add: cq_wf_def)
  then show ?thesis
    by (simp add: unat_mod)
qed

lemma cq_length_nat:
  assumes "cq_wf q"
  shows "unat (cq_length q) = (unat (cq_first q) + unat (cq_size q) - unat (cq_last q)) mod unat (cq_size q)"
proof -
  have sum: "unat (cq_first q + cq_size q) = unat (cq_first q) + unat (cq_size q)"
    using assms unat_plus_le31 [of "cq_first q" "unat (cq_size q)" "cq_size q"] by (simp add: cq_wf_def)
  have "cq_last q \<le> cq_first q + cq_size q"
    using assms unfolding word_le_nat_alt sum by (simp add: cq_wf_def)
  then have "unat (cq_first q + cq_size q - cq_last q) = unat (cq_first q) + unat (cq_size q) - unat (cq_last q)"
    unfolding sum [symmetric] by (rule unat_sub)
  then show ?thesis
    by (simp add: cq_length_def unat_mod)
qed

text \<open>Distances on a ring of \<open>n\<close> positions.\<close>

definition ring_dist :: "nat \<Rightarrow> nat \<Rightarrow> nat \<Rightarrow> nat" where
  "ring_dist n f l = (f + n - l) mod n"

lemma ring_dist_if: "f < n \<Longrightarrow> l < n \<Longrightarrow> ring_dist n f l = (if l \<le> f then f - l else f + n - l)"
  by (auto simp: ring_dist_def mod_if)

lemma ring_Suc: "f < n \<Longrightarrow> Suc f mod n = (if Suc f = n then 0 else Suc f)"
  by (simp add: mod_if)

lemma ring_dist_push:
  "f < n \<Longrightarrow> l < n \<Longrightarrow> Suc f mod n \<noteq> l \<Longrightarrow> ring_dist n (Suc f mod n) l = Suc (ring_dist n f l)"
  by (auto simp: ring_dist_if ring_Suc)

lemma ring_dist_pop:
  "f < n \<Longrightarrow> l < n \<Longrightarrow> f \<noteq> l \<Longrightarrow> ring_dist n f l = Suc (ring_dist n f (Suc l mod n))"
  by (auto simp: ring_dist_if ring_Suc)

lemma ring_dist_full: "f < n \<Longrightarrow> l < n \<Longrightarrow> Suc f mod n = l \<longleftrightarrow> ring_dist n f l = n - 1"
  by (auto simp: ring_dist_if ring_Suc)

lemma ring_at_dist: "f < n \<Longrightarrow> l < n \<Longrightarrow> (l + ring_dist n f l) mod n = f"
  by (auto simp: ring_dist_if)

lemma ring_before:
  assumes "f < n" and "l < n" and "i < ring_dist n f l"
  shows "(l + i) mod n \<noteq> f"
proof -
  have i: "i < (if l \<le> f then f - l else f + n - l)"
    using assms by (simp add: ring_dist_if)
  have "(l + i) mod n = (if l + i < n then l + i else l + i - n)"
    using assms(1,2) i by (simp add: le_mod_geq split: if_splits)
  then show ?thesis
    using assms(1,2) i by (simp split: if_splits)
qed

lemma cq_contents_ring:
  "cq_wf q \<Longrightarrow> cq_contents q = map (\<lambda>i. cq_queue q ! ((unat (cq_last q) + i) mod unat (cq_size q)))
     [0..<ring_dist (unat (cq_size q)) (unat (cq_first q)) (unat (cq_last q))]"
  by (simp add: cq_contents_def cq_length_nat ring_dist_def)

lemma cq_full_nat:
  assumes "cq_wf q"
  shows "cq_full q \<longleftrightarrow> Suc (unat (cq_first q)) mod unat (cq_size q) = unat (cq_last q)"
  using cq_next [OF assms, of "cq_first q"] assms
  by (simp add: cq_full_def cq_wf_def word_unat_eq_iff)

lemma cq_full_contents: "cq_wf q \<Longrightarrow> cq_full q \<longleftrightarrow> Suc (length (cq_contents q)) = unat (cq_size q)"
  using ring_dist_full [of "unat (cq_first q)" "unat (cq_size q)" "unat (cq_last q)"]
  by (auto simp: cq_full_nat cq_contents_ring cq_wf_def)

lemma cq_push_law:
  assumes wf: "cq_wf q" and push: "cq_push t q = Some q'"
  shows "cq_wf q' \<and> cq_contents q' = cq_contents q @ [t]"
proof -
  let ?n = "unat (cq_size q)" and ?f = "unat (cq_first q)" and ?l = "unat (cq_last q)"
  have bounds: "?f < ?n" "?l < ?n" "length (cq_queue q) = ?n"
    using wf by (simp_all add: cq_wf_def)
  have nf: "Suc ?f mod ?n \<noteq> ?l"
    and q': "q' = q\<lparr>cq_queue := (cq_queue q)[?f := t], cq_first := (cq_first q + 1) mod cq_size q\<rparr>"
    using push cq_full_nat [OF wf] by (auto simp: cq_push_def)
  note next_f = cq_next [OF wf bounds(1)]
  have wf': "cq_wf q'"
    using wf next_f unfolding q' by (simp add: cq_wf_def)
  have "cq_contents q' = map (\<lambda>i. (cq_queue q)[?f := t] ! ((?l + i) mod ?n)) [0..<Suc (ring_dist ?n ?f ?l)]"
    using cq_contents_ring [OF wf'] ring_dist_push [OF bounds(1,2) nf] next_f unfolding q' by simp
  also have "\<dots> = cq_contents q @ [t]"
    using bounds ring_at_dist [OF bounds(1,2)] ring_before [OF bounds(1,2), THEN not_sym]
    by (simp add: cq_contents_ring [OF wf] nth_list_update_neq)
  finally show ?thesis
    using wf' by simp
qed

lemma cq_pop_law:
  assumes wf: "cq_wf q" and pop: "cq_pop q = Some (t, q')"
  shows "cq_wf q' \<and> cq_contents q = t # cq_contents q'"
proof -
  let ?n = "unat (cq_size q)" and ?f = "unat (cq_first q)" and ?l = "unat (cq_last q)"
  have bounds: "?f < ?n" "?l < ?n" "length (cq_queue q) = ?n"
    using wf by (simp_all add: cq_wf_def)
  have ne: "?f \<noteq> ?l" and t: "t = cq_queue q ! ?l" and q': "q' = q\<lparr>cq_last := (cq_last q + 1) mod cq_size q\<rparr>"
    using pop by (auto simp: cq_pop_def cq_empty_def abort_simps word_unat_eq_iff)
  note next_l = cq_next [OF wf bounds(2)]
  have wf': "cq_wf q'"
    using wf next_l unfolding q' by (simp add: cq_wf_def)
  have step: "(Suc ?l mod ?n + i) mod ?n = (?l + Suc i) mod ?n" for i
    by (simp add: mod_add_left_eq)
  have "cq_contents q = map (\<lambda>i. cq_queue q ! ((?l + i) mod ?n)) (0 # map Suc [0..<ring_dist ?n ?f (Suc ?l mod ?n)])"
    unfolding cq_contents_ring [OF wf] ring_dist_pop [OF bounds(1,2) ne] upt_conv_Cons [OF zero_less_Suc] map_Suc_upt ..
  also have "\<dots> = t # cq_contents q'"
    using cq_contents_ring [OF wf'] next_l step bounds unfolding q' t by (simp add: comp_def)
  finally show ?thesis
    using wf' by simp
qed

lemma cq_pop_total: "cq_wf q \<Longrightarrow> cq_contents q \<noteq> [] \<Longrightarrow> cq_pop q \<noteq> None"
  by (auto simp: cq_pop_def cq_empty_def cq_wf_def cq_contents_def cq_length_def abort_simps)

interpretation circular: keyed_fifo cq_wf "\<lambda>q (u :: unit). cq_contents q" "\<lambda>u. cq_push" "\<lambda>u. cq_pop"
  by unfold_locales (auto simp: fun_eq_iff dest: cq_push_law cq_pop_law cq_pop_total)

lemma circular_run_size:
  "queue_run (\<lambda>u. cq_push) (\<lambda>u. cq_pop) ops q = Some (out, q') \<Longrightarrow> cq_size q' = cq_size q"
proof (induction ops arbitrary: q out)
  case (Cons op ops)
  then show ?case
    by (cases op) (auto simp: abort_simps cq_push_def cq_pop_def)
qed simp

lemma CircularQueue_new_wf:
  assumes "sz < 2 ^ 31"
  shows "cq_wf (CircularQueue_new g sz) \<and> cq_contents (CircularQueue_new g sz) = []"
proof -
  have "unat sz < 2 ^ 31"
    using assms by (simp add: word_less_nat_alt)
  moreover have "unat (sz + 1) = Suc (unat sz)"
    using assms by (rule unat_plus_one)
  ultimately show ?thesis
    by (simp add: cq_wf_def CircularQueue_new_def cq_contents_def cq_length_def)
qed

section \<open>Properties\<close>

text \<open>C26. Requests for an address are served in the order in which they arrived: after any interleaving of
  arrivals and completions, over any addresses, the requests completed for an address followed by the ones
  that still wait are exactly the requests that arrived for it.\<close>

theorem requests_served_in_order:
  assumes "queue_run (\<lambda>a x m. Some (rq_enqueue a x m)) rq_dequeue ops Map.empty = Some (out, m)"
  shows "at_key a (pushes_of ops) = at_key a out @ rq_contents m a"
  using req_queues.run_order [OF rq_wf_empty assms, of a] by (simp add: rq_contents_def)

theorem requests_served_in_order_witness:
  "let ops = [Push 64 (1 :: nat), Push 128 2, Push 64 3, Pop 64, Push 64 4]
   in \<exists>out m. queue_run (\<lambda>a x m. Some (rq_enqueue a x m)) rq_dequeue ops Map.empty = Some (out, m) \<and>
        at_key 64 out = [1] \<and> rq_contents m 64 = [3, 4] \<and> rq_contents m 128 = [2]"
proof -
  let ?ops = "[Push 64 (1 :: nat), Push 128 2, Push 64 3, Pop 64, Push 64 4]"
  have "\<exists>m. queue_run (\<lambda>a x m. Some (rq_enqueue a x m)) rq_dequeue ?ops Map.empty = Some ([(64, 1)], m)"
    by (simp add: rq_enqueue_def rq_dequeue_def)
  then obtain m where m: "queue_run (\<lambda>a x m. Some (rq_enqueue a x m)) rq_dequeue ?ops Map.empty = Some ([(64, 1)], m)"
    by blast
  show ?thesis
    using m requests_served_in_order [OF m, of 64] requests_served_in_order [OF m, of 128] by auto
qed

text \<open>C27. The circular queue refines a bounded list. With a capacity below \<open>2 ^ 31\<close>, any sequence of insertions and
  removals gives the elements back in order; the queue never holds more than its capacity, and it
  refuses an element exactly when it is full.\<close>

theorem circular_queue_refines_list:
  fixes ops :: "(unit, 'a) queue_op list"
  assumes "sz < 2 ^ 31" and "queue_run (\<lambda>u. cq_push) (\<lambda>u. cq_pop) ops (CircularQueue_new g sz) = Some (out, q)"
  shows "map snd (pushes_of ops) = map snd out @ cq_contents q \<and> length (cq_contents q) \<le> unat sz \<and>
    (\<forall>x. cq_push x q = None \<longleftrightarrow> length (cq_contents q) = unat sz)"
proof -
  note init = CircularQueue_new_wf [OF assms(1), of g]
  have order: "cq_wf q" "at_key () (pushes_of ops) = at_key () out @ cq_contents q"
    using circular.run_order [OF conjunct1 [OF init] assms(2), of "()"] init by auto
  have size: "unat (cq_size q) = Suc (unat sz)"
    using circular_run_size [OF assms(2)] unat_plus_one [OF assms(1)] by (simp add: CircularQueue_new_def)
  have len: "length (cq_contents q) < unat (cq_size q)"
    using order(1) by (simp add: cq_contents_ring ring_dist_def cq_wf_def)
  have "cq_push x q = None \<longleftrightarrow> cq_full q" for x
    using order(1) by (cases "cq_full q") (simp_all add: cq_push_def cq_wf_def)
  then show ?thesis
    using order size len cq_full_contents [OF order(1)] by (auto simp: at_key_def)
qed

theorem circular_queue_refines_list_witness:
  "let ops = [Push () (7 :: nat), Push () 8, Pop (), Push () 9]
   in \<exists>q. queue_run (\<lambda>u. cq_push) (\<lambda>u. cq_pop) ops (CircularQueue_new 0 2) = Some ([((), 7)], q) \<and>
        cq_contents q = [8, 9] \<and> cq_push 10 q = None"
proof -
  let ?ops = "[Push () (7 :: nat), Push () 8, Pop (), Push () 9]"
  have "\<exists>q. queue_run (\<lambda>u. cq_push) (\<lambda>u. cq_pop) ?ops (CircularQueue_new 0 2) = Some ([((), 7)], q)"
    by (simp add: cq_push_def cq_pop_def cq_full_def cq_empty_def CircularQueue_new_def)
  then obtain q where q: "queue_run (\<lambda>u. cq_push) (\<lambda>u. cq_pop) ?ops (CircularQueue_new 0 2) = Some ([((), 7)], q)"
    by blast
  have "(2 :: u32) < 2 ^ 31" by simp
  note spec = circular_queue_refines_list [OF this q]
  have "cq_contents q = [8, 9]"
    using spec by simp
  moreover have "cq_push 10 q = None"
    using spec calculation by simp
  ultimately show ?thesis
    using q by auto
qed

end
