(* ===== verification/Shmem.thy ===== *)
theory Shmem
  imports CacheBlock
begin

text \<open>
  The messages of the coherence protocol, \<^verbatim>\<open>pr_l1_pr_l2_dram_directory_msi/shmem_msg.cc\<close>, the requests a
  directory keeps, \<^verbatim>\<open>shmem_req.cc\<close>, the places an access can hit, \<^verbatim>\<open>hit_where.cc\<close>, and the accounting of the
  time a request spends, \<^verbatim>\<open>shmem_perf.cc\<close>. A \<^verbatim>\<open>SubsecondTime\<close> is its 64-bit count of femtoseconds.
\<close>

section \<open>Places of a hit\<close>

type_synonym where_t = nat

abbreviation (input) HW_MISS :: where_t where "HW_MISS \<equiv> 7"
abbreviation (input) HW_NUCA_CACHE :: where_t where "HW_NUCA_CACHE \<equiv> 8"
abbreviation (input) HW_DRAM_CACHE :: where_t where "HW_DRAM_CACHE \<equiv> 9"
abbreviation (input) HW_DRAM :: where_t where "HW_DRAM \<equiv> 10"
abbreviation (input) HW_DRAM_LOCAL :: where_t where "HW_DRAM_LOCAL \<equiv> 11"
abbreviation (input) HW_DRAM_REMOTE :: where_t where "HW_DRAM_REMOTE \<equiv> 12"
abbreviation (input) HW_CACHE_REMOTE :: where_t where "HW_CACHE_REMOTE \<equiv> 13"
abbreviation (input) HW_SIBLING :: where_t where "HW_SIBLING \<equiv> 14"
abbreviation (input) HW_UNKNOWN :: where_t where "HW_UNKNOWN \<equiv> 21"
abbreviation (input) HW_PREDICATE_FALSE :: where_t where "HW_PREDICATE_FALSE \<equiv> 22"
abbreviation (input) HW_PREFETCH_NO_MAPPING :: where_t where "HW_PREFETCH_NO_MAPPING \<equiv> 23"

definition HitWhereString :: "where_t \<Rightarrow> string" where
  "HitWhereString w =
     (if w = L1_ICACHE then ''L1I''
      else if w = L1_DCACHE then ''L1''
      else if w = L2_CACHE then ''L2''
      else if w = L3_CACHE then ''L3''
      else if w = L4_CACHE then ''L4''
      else if w = L1_DCACHE + HW_SIBLING then ''L1_S''
      else if w = L2_CACHE + HW_SIBLING then ''L2_S''
      else if w = L3_CACHE + HW_SIBLING then ''L3_S''
      else if w = L4_CACHE + HW_SIBLING then ''L4_S''
      else if w = HW_MISS then ''miss''
      else if w = HW_NUCA_CACHE then ''nuca-cache''
      else if w = HW_DRAM_CACHE then ''dram-cache''
      else if w = HW_DRAM then ''dram''
      else if w = HW_DRAM_LOCAL then ''dram-local''
      else if w = HW_DRAM_REMOTE then ''dram-remote''
      else if w = HW_CACHE_REMOTE then ''cache-remote''
      else if w = HW_UNKNOWN then ''unknown''
      else if w = HW_PREDICATE_FALSE then ''predicate-false''
      else if w = HW_PREFETCH_NO_MAPPING then ''prefetch-no-mapping''
      else ''????'')"

definition HitWhereIsValid :: "where_t \<Rightarrow> bool" where
  "HitWhereIsValid w \<longleftrightarrow> hd (HitWhereString w) \<noteq> CHR ''?''"

section \<open>Messages\<close>

datatype msg_t = INVALID_MSG_TYPE
  | EX_REQ | SH_REQ | UPGRADE_REQ | INV_REQ | FLUSH_REQ | WB_REQ
  | EX_REP | SH_REP | UPGRADE_REP | INV_REP | FLUSH_REP | WB_REP | NULLIFY_REQ
  | DRAM_READ_REQ | DRAM_WRITE_REQ | DRAM_READ_REP

text \<open>The pointer to the performance counters of a request is not part of the model.\<close>

record ShmemMsg =
  sm_type :: msg_t
  sm_sender :: component_t
  sm_receiver :: component_t
  sm_requester :: core_id
  sm_where :: where_t
  sm_address :: IntPtr
  sm_data :: "u8 list option"
  sm_data_length :: u32

definition ShmemMsg_empty :: ShmemMsg where
  "ShmemMsg_empty = \<lparr>sm_type = INVALID_MSG_TYPE, sm_sender = INVALID_MEM_COMPONENT,
     sm_receiver = INVALID_MEM_COMPONENT, sm_requester = INVALID_CORE_ID, sm_where = HW_UNKNOWN,
     sm_address = INVALID_ADDRESS, sm_data = None, sm_data_length = 0\<rparr>"

definition ShmemMsg_new :: "msg_t \<Rightarrow> component_t \<Rightarrow> component_t \<Rightarrow> core_id \<Rightarrow> IntPtr \<Rightarrow> u8 list option \<Rightarrow> u32 \<Rightarrow> ShmemMsg" where
  "ShmemMsg_new t sender receiver requester address data len = \<lparr>sm_type = t, sm_sender = sender, sm_receiver = receiver,
     sm_requester = requester, sm_where = HW_UNKNOWN, sm_address = address, sm_data = data,
     sm_data_length = len\<rparr>"

text \<open>The copy constructor does not initialise \<^verbatim>\<open>m_where\<close>; \<open>garbage\<close> is the value it happens to have.\<close>

definition ShmemMsg_copy :: "where_t \<Rightarrow> ShmemMsg \<Rightarrow> ShmemMsg" where
  "ShmemMsg_copy garbage m = m\<lparr>sm_where := garbage\<rparr>"

text \<open>A message buffer: the bytes of the object, which carry all its fields, followed by the data. Reading
  data behind the end of a buffer is an abort.\<close>

type_synonym msg_buf = "ShmemMsg \<times> u8 list"

definition makeMsgBuf :: "ShmemMsg \<Rightarrow> msg_buf option" where
  "makeMsgBuf m =
     (if sm_data_length m > 0
      then do {
        d \<leftarrow> sm_data m;
        ensure (unat (sm_data_length m) \<le> length d);
        Some (m, take (unat (sm_data_length m)) d)
      }
      else Some (m, []))"

definition getShmemMsg :: "msg_buf \<Rightarrow> ShmemMsg option" where
  "getShmemMsg buf = (case buf of (m, payload) \<Rightarrow>
     (if sm_data_length m > 0
      then do {
        ensure (unat (sm_data_length m) \<le> length payload);
        Some (m\<lparr>sm_data := Some (take (unat (sm_data_length m)) payload)\<rparr>)
      }
      else Some m))"

definition getModeledLength :: "ShmemMsg \<Rightarrow> u32 option" where
  "getModeledLength m =
     (if sm_type m \<in> {EX_REQ, SH_REQ, INV_REQ, FLUSH_REQ, WB_REQ, UPGRADE_REP, UPGRADE_REQ, INV_REP, DRAM_READ_REQ}
      then Some (1 + 8)
      else if sm_type m \<in> {EX_REP, SH_REP, FLUSH_REP, WB_REP, DRAM_WRITE_REQ, DRAM_READ_REP}
      then Some (1 + 8 + sm_data_length m)
      else None)"

section \<open>Requests\<close>

text \<open>The simulated time of a request is not part of the model.\<close>

record ShmemReq =
  rq_msg :: ShmemMsg
  rq_wait_for_data :: bool
  rq_forwarding_from :: core_id

definition ShmemReq_new :: "where_t \<Rightarrow> ShmemMsg \<Rightarrow> ShmemReq option" where
  "ShmemReq_new garbage m = do {
     ensure (sm_data m = None);
     Some \<lparr>rq_msg = ShmemMsg_copy garbage m, rq_wait_for_data = False, rq_forwarding_from = INVALID_CORE_ID\<rparr>
   }"

definition isForwarding :: "ShmemReq \<Rightarrow> bool" where
  "isForwarding r \<longleftrightarrow> rq_forwarding_from r \<noteq> INVALID_CORE_ID"

section \<open>Time accounting\<close>

datatype shmem_times_type = NOC_BASE | NOC_QUEUE | TD_ACCESS | INV_IMBALANCE | REMOTE_CACHE_INV
  | REMOTE_CACHE_FWD | REMOTE_CACHE_WB | PENDING_HIT | NUCA_TAGS | NUCA_QUEUE | NUCA_BUS | NUCA_DATA
  | T_DRAM_CACHE | DRAM_CACHE_TAGS | DRAM_CACHE_QUEUE | DRAM_CACHE_BUS | DRAM_CACHE_DATA
  | T_DRAM | DRAM_QUEUE | DRAM_BUS | DRAM_DEVICE | T_UNKNOWN

definition shmem_reasons :: "shmem_times_type list" where
  "shmem_reasons = [NOC_BASE, NOC_QUEUE, TD_ACCESS, INV_IMBALANCE, REMOTE_CACHE_INV,
     REMOTE_CACHE_FWD, REMOTE_CACHE_WB, PENDING_HIT, NUCA_TAGS, NUCA_QUEUE, NUCA_BUS, NUCA_DATA,
     T_DRAM_CACHE, DRAM_CACHE_TAGS, DRAM_CACHE_QUEUE, DRAM_CACHE_BUS, DRAM_CACHE_DATA,
     T_DRAM, DRAM_QUEUE, DRAM_BUS, DRAM_DEVICE, T_UNKNOWN]"

definition shmem_reason_names :: "string list" where
  "shmem_reason_names = [''noc-base'', ''noc-queue'', ''td-access'', ''inv-imbalance'', ''remote-cache-inv'',
     ''remote-cache-fwd'', ''remote-cache-wb'', ''pending-hit'', ''nuca-tags'', ''nuca-bus'', ''nuca-queue'',
     ''nuca-data'', ''dram-cache'', ''dram-cache-tags'', ''dram-cache-queue'', ''dram-cache-bus'',
     ''dram-cache-data'', ''dram'', ''dram-queue'', ''dram-bus'', ''dram-device'', ''unknown'']"

definition ShmemReasonString :: "shmem_times_type \<Rightarrow> string option" where
  "ShmemReasonString reason = map_of (zip shmem_reasons shmem_reason_names) reason"

record ShmemPerf =
  sp_core_id :: core_id
  sp_time_begin :: u64
  sp_time_last :: u64
  sp_times :: "shmem_times_type \<Rightarrow> u64"

definition ShmemPerf_new :: ShmemPerf where
  "ShmemPerf_new = \<lparr>sp_core_id = INVALID_CORE_ID, sp_time_begin = 0, sp_time_last = 0, sp_times = (\<lambda>_. 0)\<rparr>"

definition sp_disable :: "ShmemPerf \<Rightarrow> ShmemPerf" where
  "sp_disable p = p\<lparr>sp_time_last := - 1\<rparr>"

definition sp_reset :: "u64 \<Rightarrow> core_id \<Rightarrow> ShmemPerf \<Rightarrow> ShmemPerf" where
  "sp_reset t core p = p\<lparr>sp_core_id := core, sp_time_begin := t, sp_time_last := t, sp_times := (\<lambda>_. 0)\<rparr>"

definition sp_updateTime :: "u64 \<Rightarrow> shmem_times_type \<Rightarrow> ShmemPerf \<Rightarrow> ShmemPerf" where
  "sp_updateTime t reason p =
     (if t > sp_time_last p
      then p\<lparr>sp_times := (sp_times p)(reason := sp_times p reason + (t - sp_time_last p)), sp_time_last := t\<rparr>
      else p)"

definition sp_updatePacket :: "u64 \<Rightarrow> u64 \<Rightarrow> ShmemPerf \<Rightarrow> ShmemPerf" where
  "sp_updatePacket packet_time queue_delay p =
     (if packet_time > sp_time_last p
      then sp_updateTime packet_time NOC_BASE
        (p\<lparr>sp_times := (sp_times p)(NOC_QUEUE := sp_times p NOC_QUEUE + queue_delay),
           sp_time_last := sp_time_last p + queue_delay\<rparr>)
      else p)"

definition sp_add :: "ShmemPerf \<Rightarrow> ShmemPerf \<Rightarrow> ShmemPerf" where
  "sp_add perf p = p\<lparr>sp_times := (\<lambda>r. sp_times p r + sp_times perf r)\<rparr>"

section \<open>Lemmas\<close>

lemma shmem_reasons_all: "r \<in> set shmem_reasons"
  by (cases r) (simp_all add: shmem_reasons_def)

lemma shmem_reasons_distinct: "distinct shmem_reasons"
  by (simp add: shmem_reasons_def)

text \<open>The time attributed to all reasons together.\<close>

definition sp_total :: "ShmemPerf \<Rightarrow> u64" where
  "sp_total p = sum_list (map (sp_times p) shmem_reasons)"

lemma sum_list_update_one:
  fixes f :: "'a \<Rightarrow> u64"
  assumes "distinct xs" and "r \<in> set xs"
  shows "sum_list (map (f(r := f r + d)) xs) = sum_list (map f xs) + d"
  using assms
proof (induction xs)
  case (Cons x xs)
  show ?case
  proof (cases "x = r")
    case True
    with Cons.prems have "map (f(r := f r + d)) xs = map f xs" by simp
    then show ?thesis using True by (simp only: list.map sum_list.Cons fun_upd_same) simp
  next
    case False
    with Cons show ?thesis by simp
  qed
qed simp

lemma sp_total_add:
  "sum_list (map ((sp_times p)(r := sp_times p r + d)) shmem_reasons) = sp_total p + d"
  unfolding sp_total_def
  by (rule sum_list_update_one [OF shmem_reasons_distinct shmem_reasons_all])

text \<open>The invariant: the time between the start of the request and its last update is accounted for.\<close>

definition sp_balanced :: "ShmemPerf \<Rightarrow> bool" where
  "sp_balanced p \<longleftrightarrow> sp_total p = sp_time_last p - sp_time_begin p"

lemma sp_balanced_reset: "sp_balanced (sp_reset t core p)"
  by (simp add: sp_balanced_def sp_total_def sp_reset_def shmem_reasons_def)

lemma sp_balanced_charge:
  assumes "sp_balanced p" and "t = sp_time_last p + d"
  shows "sp_balanced (p\<lparr>sp_times := (sp_times p)(r := sp_times p r + d), sp_time_last := t\<rparr>)"
  using assms sp_total_add [of p r d] by (simp add: sp_balanced_def sp_total_def)

lemma sp_balanced_updateTime: "sp_balanced p \<Longrightarrow> sp_balanced (sp_updateTime t r p)"
  by (simp add: sp_updateTime_def sp_balanced_charge)

lemma sp_balanced_updatePacket: "sp_balanced p \<Longrightarrow> sp_balanced (sp_updatePacket t d p)"
  by (simp add: sp_updatePacket_def sp_balanced_updateTime sp_balanced_charge)

text \<open>What the controllers on the path of a request do to its counters.\<close>

datatype perf_event = At u64 shmem_times_type | Packet u64 u64

fun perf_step :: "perf_event \<Rightarrow> ShmemPerf \<Rightarrow> ShmemPerf" where
  "perf_step (At t reason) p = sp_updateTime t reason p"
| "perf_step (Packet t queue_delay) p = sp_updatePacket t queue_delay p"

lemma sp_balanced_fold: "sp_balanced p \<Longrightarrow> sp_balanced (fold perf_step steps p)"
proof (induction steps arbitrary: p)
  case (Cons s steps)
  then show ?case
    by (cases s) (simp_all add: sp_balanced_updateTime sp_balanced_updatePacket)
qed simp

lemma perf_step_begin: "sp_time_begin (fold perf_step steps p) = sp_time_begin p"
proof (induction steps arbitrary: p)
  case (Cons s steps)
  then show ?case
    by (cases s) (simp_all add: sp_updateTime_def sp_updatePacket_def)
qed simp

lemma perf_step_disabled:
  assumes "sp_time_last p = - 1"
  shows "fold perf_step steps p = p"
  using assms
proof (induction steps)
  case (Cons s steps)
  then have "\<not> t > sp_time_last p" for t by (simp add: not_less)
  with Cons show ?case by (cases s) (simp_all add: sp_updateTime_def sp_updatePacket_def)
qed simp

section \<open>Properties\<close>



text \<open>The time of a request is accounted for exactly once: after \<^verbatim>\<open>reset\<close> and any sequence of updates and
  packets, the times of all reasons add up to the last time seen minus the start of the request; and after
  \<^verbatim>\<open>disable\<close> no update changes anything.\<close>

theorem shmem_perf_accounts_all_time:
  "sp_total (fold perf_step steps (sp_reset t core p))
     = sp_time_last (fold perf_step steps (sp_reset t core p)) - t
   \<and> fold perf_step steps (sp_disable p) = sp_disable p"
  using sp_balanced_fold [OF sp_balanced_reset, of steps t core p]
    perf_step_begin [of steps "sp_reset t core p"] perf_step_disabled [of "sp_disable p" steps]
  by (simp add: sp_balanced_def sp_reset_def sp_disable_def)

end
