(* ===== verification/Directory.thy ===== *)
theory Directory
  imports Shmem Util
begin

text \<open>
  The tag directory: the entries of \<^verbatim>\<open>directory_schemes/directory_entry*.h\<close> (full map, limited without
  broadcast, limitless), the table of \<^verbatim>\<open>directory.cc\<close> and the set-associative directory cache of
  \<^verbatim>\<open>dram_directory_cache.cc\<close>. Entries are objects that the table, the list of replaced entries and the
  controller share through pointers: they live in a heap, and a pointer is a natural number.
\<close>

section \<open>Entries\<close>

datatype dstate = D_UNCACHED | D_SHARED | D_OWNED | D_MODIFIED | D_EXCLUSIVE

text \<open>A limitless entry has a software trap flag and its penalty; the other kind has a random number
  generator.\<close>

datatype entry_kind = LimitedNoBroadcast u32 | Limitless bool u64

record DirectoryEntry =
  de_address :: IntPtr
  de_dstate :: dstate
  de_owner :: core_id
  de_forwarder :: core_id
  de_sharers :: "bool list"
  de_kind :: entry_kind

text \<open>\<open>garbage\<close> is the value of \<^verbatim>\<open>m_forwarder_id\<close>, which the constructor leaves uninitialised.\<close>

definition DirectoryEntry_new :: "core_id \<Rightarrow> nat \<Rightarrow> entry_kind \<Rightarrow> DirectoryEntry" where
  "DirectoryEntry_new garbage sharers_size kind = \<lparr>de_address = INVALID_ADDRESS, de_dstate = D_UNCACHED,
     de_owner = INVALID_CORE_ID, de_forwarder = garbage, de_sharers = replicate sharers_size False,
     de_kind = kind\<rparr>"

definition getNumSharers :: "DirectoryEntry \<Rightarrow> nat" where
  "getNumSharers e = length (filter (\<lambda>b. b) (de_sharers e))"

definition getSharersList :: "DirectoryEntry \<Rightarrow> bool \<times> core_id list" where
  "getSharersList e =
     (False, map int (filter (\<lambda>j. de_sharers e ! j) [0..<length (de_sharers e)]))"

definition hasSharer :: "core_id \<Rightarrow> DirectoryEntry \<Rightarrow> bool option" where
  "hasSharer sharer_id e = (if sharer_id < 0 then None else nth_opt (de_sharers e) (nat sharer_id))"

definition addSharer :: "core_id \<Rightarrow> u32 \<Rightarrow> DirectoryEntry \<Rightarrow> (bool \<times> DirectoryEntry) option" where
  "addSharer sharer_id max_hw_sharers e = do {
     has \<leftarrow> hasSharer sharer_id e;
     ensure (\<not> has);
     let e' = e\<lparr>de_sharers := (de_sharers e)[nat sharer_id := True]\<rparr>;
     case de_kind e of
       LimitedNoBroadcast seed \<Rightarrow>
         (if getNumSharers e \<ge> unat max_hw_sharers then Some (False, e) else Some (True, e'))
     | Limitless trap penalty \<Rightarrow>
         Some (True, if length (de_sharers e) = unat max_hw_sharers
                     then e'\<lparr>de_kind := Limitless True penalty\<rparr> else e')
   }"

definition removeSharer :: "core_id \<Rightarrow> bool \<Rightarrow> DirectoryEntry \<Rightarrow> DirectoryEntry option" where
  "removeSharer sharer_id reply_expected e = do {
     ensure (\<not> reply_expected);
     has \<leftarrow> hasSharer sharer_id e;
     ensure has;
     Some (e\<lparr>de_sharers := (de_sharers e)[nat sharer_id := False]\<rparr>)
   }"

definition setOwner :: "core_id \<Rightarrow> DirectoryEntry \<Rightarrow> DirectoryEntry option" where
  "setOwner owner_id e = do {
     has \<leftarrow> (if owner_id \<noteq> INVALID_CORE_ID then hasSharer owner_id e else Some True);
     ensure has;
     Some (e\<lparr>de_owner := owner_id\<rparr>)
   }"

definition getOneSharer :: "DirectoryEntry \<Rightarrow> (core_id \<times> DirectoryEntry) option" where
  "getOneSharer e = (case de_kind e of
       LimitedNoBroadcast seed \<Rightarrow> do {
         let (all, sharers) = getSharersList e;
         ensure (\<not> all \<and> length sharers > 0);
         let (index, seed') = random_next seed (of_nat (length sharers));
         ensure (sint index \<ge> 0);
         s \<leftarrow> nth_opt sharers (unat index);
         Some (s, e\<lparr>de_kind := LimitedNoBroadcast seed'\<rparr>)
       }
     | Limitless trap penalty \<Rightarrow> do {
         j \<leftarrow> List.find (\<lambda>j. de_sharers e ! j) [0..<length (de_sharers e)];
         Some (int j, e)
       })"

definition de_getLatency :: "DirectoryEntry \<Rightarrow> u64" where
  "de_getLatency e = (case de_kind e of
       LimitedNoBroadcast seed \<Rightarrow> 0
     | Limitless trap penalty \<Rightarrow> (if trap then penalty else 0))"

section \<open>The table\<close>

datatype directory_type = FULL_MAP | LIMITED_NO_BROADCAST | LIMITLESS

text \<open>\<open>dir_heap\<close> holds the live entries and \<open>dir_fresh\<close> the next address of an allocation;
  \<open>dir_garbage\<close> is what the memory of a new entry holds.\<close>

record Directory =
  dir_type :: directory_type
  dir_num_entries :: u32
  dir_num_entries_allocated :: u64
  dir_max_hw_sharers :: u32
  dir_use_max_hw_sharers :: u32
  dir_max_num_sharers :: u32
  dir_trap_penalty :: u64
  dir_list :: "nat option list"
  dir_heap :: "nat \<rightharpoonup> DirectoryEntry"
  dir_fresh :: nat
  dir_garbage :: core_id

definition parseDirectoryType :: "string \<Rightarrow> directory_type option" where
  "parseDirectoryType s =
     (if s = ''full_map'' then Some FULL_MAP
      else if s = ''limited_no_broadcast'' then Some LIMITED_NO_BROADCAST
      else if s = ''limitless'' then Some LIMITLESS
      else None)"

text \<open>\<open>cfg_penalty\<close> is the configured trap penalty in nanoseconds, \<open>None\<close> when it cannot be read; a
  nanosecond is 1000000 femtoseconds.\<close>

definition Directory_new :: "core_id \<Rightarrow> u64 option \<Rightarrow> string \<Rightarrow> u32 \<Rightarrow> u32 \<Rightarrow> u32 \<Rightarrow> Directory option" where
  "Directory_new garbage cfg_penalty type_str num_entries max_hw_sharers max_num_sharers = do {
     t \<leftarrow> parseDirectoryType type_str;
     penalty \<leftarrow> (if t = LIMITLESS then map_option (\<lambda>ns. 1000000 * ns) cfg_penalty else Some 0);
     Some \<lparr>dir_type = t, dir_num_entries = num_entries, dir_num_entries_allocated = 0,
       dir_max_hw_sharers = max_hw_sharers, dir_use_max_hw_sharers = max_hw_sharers,
       dir_max_num_sharers = max_num_sharers, dir_trap_penalty = penalty,
       dir_list = replicate (unat num_entries) None, dir_heap = Map.empty, dir_fresh = 0,
       dir_garbage = garbage\<rparr>
   }"

text \<open>The capacity of the container of the sharers: a bitset of 64, 128, 256 or 1024 bits, or a vector.\<close>

definition sharers_capacity :: "u32 \<Rightarrow> nat" where
  "sharers_capacity max_num_sharers =
     (if max_num_sharers \<le> 64 then 64
      else if max_num_sharers \<le> 128 then 128
      else if max_num_sharers \<le> 256 then 256
      else if max_num_sharers \<le> 1024 then 1024
      else unat max_num_sharers)"

definition createDirectoryEntrySized :: "nat \<Rightarrow> Directory \<Rightarrow> DirectoryEntry \<times> Directory" where
  "createDirectoryEntrySized capacity d = (case dir_type d of
       FULL_MAP \<Rightarrow>
         (DirectoryEntry_new (dir_garbage d) capacity (LimitedNoBroadcast 1),
          d\<lparr>dir_use_max_hw_sharers := dir_max_num_sharers d\<rparr>)
     | LIMITED_NO_BROADCAST \<Rightarrow> (DirectoryEntry_new (dir_garbage d) capacity (LimitedNoBroadcast 1), d)
     | LIMITLESS \<Rightarrow> (DirectoryEntry_new (dir_garbage d) capacity (Limitless False (dir_trap_penalty d)), d))"

definition createDirectoryEntry :: "Directory \<Rightarrow> nat \<times> Directory" where
  "createDirectoryEntry d =
     (let (e, d') = createDirectoryEntrySized (sharers_capacity (dir_max_num_sharers d)) d
      in (dir_fresh d', d'\<lparr>dir_heap := (dir_heap d')(dir_fresh d' \<mapsto> e), dir_fresh := Suc (dir_fresh d')\<rparr>))"

definition dir_getDirectoryEntry :: "u32 \<Rightarrow> Directory \<Rightarrow> (nat \<times> Directory) option" where
  "dir_getDirectoryEntry entry_num d = do {
     ensure (entry_num < dir_num_entries d);
     slot \<leftarrow> nth_opt (dir_list d) (unat entry_num);
     case slot of
       Some p \<Rightarrow> Some (p, d)
     | None \<Rightarrow>
         let (p, d') = createDirectoryEntry d
         in Some (p, d'\<lparr>dir_list := (dir_list d')[unat entry_num := Some p],
                       dir_num_entries_allocated := dir_num_entries_allocated d' + 1\<rparr>)
   }"

definition setDirectoryEntry :: "u32 \<Rightarrow> nat \<Rightarrow> Directory \<Rightarrow> Directory option" where
  "setDirectoryEntry entry_num p d = do {
     ensure (unat entry_num < length (dir_list d));
     Some (d\<lparr>dir_list := (dir_list d)[unat entry_num := Some p]\<rparr>)
   }"

section \<open>The directory cache\<close>

record DramDirectoryCache =
  dc_directory :: Directory
  dc_replacement_ptrs :: "u32 list"
  dc_replaced :: "nat list"
  dc_associativity :: u32
  dc_num_sets :: u32
  dc_log_num_sets :: nat
  dc_log_cache_block_size :: nat
  dc_access_time :: u64

text \<open>\<open>ptrs\<close> is what the array of replacement pointers holds before it is written: the constructor does not
  initialise it. Shifts by the logarithm of zero are undefined.\<close>

definition DramDirectoryCache_new :: "core_id \<Rightarrow> u64 option \<Rightarrow> u32 list \<Rightarrow> string \<Rightarrow> u32 \<Rightarrow> u32 \<Rightarrow> u32 \<Rightarrow> u32 \<Rightarrow> u32 \<Rightarrow> u64 \<Rightarrow>
    DramDirectoryCache option" where
  "DramDirectoryCache_new garbage cfg_penalty ptrs type_str total_entries associativity cache_block_size
     max_hw_sharers max_num_sharers access_time = do {
     ensure (associativity \<noteq> 0);
     let num_sets = total_entries div associativity;
     d \<leftarrow> Directory_new garbage cfg_penalty type_str total_entries max_hw_sharers max_num_sharers;
     ensure (length ptrs = unat num_sets \<and> num_sets \<noteq> 0 \<and> cache_block_size \<noteq> 0);
     Some \<lparr>dc_directory = d, dc_replacement_ptrs = ptrs, dc_replaced = [], dc_associativity = associativity,
       dc_num_sets = num_sets, dc_log_num_sets = nat (floorLog2 num_sets),
       dc_log_cache_block_size = nat (floorLog2 cache_block_size), dc_access_time = access_time\<rparr>
   }"

definition dc_splitAddress :: "DramDirectoryCache \<Rightarrow> IntPtr \<Rightarrow> IntPtr \<times> u32" where
  "dc_splitAddress c address =
     (let cache_block_address = drop_bit (dc_log_cache_block_size c) address
      in (drop_bit (dc_log_num_sets c) cache_block_address,
          (ucast cache_block_address :: u32) AND (dc_num_sets c - 1)))"

definition dc_slots :: "DramDirectoryCache \<Rightarrow> u32 \<Rightarrow> u32 list" where
  "dc_slots c set_index = map (\<lambda>i. set_index * dc_associativity c + of_nat i) [0..<unat (dc_associativity c)]"

text \<open>The loop over the ways of a set that stops at the first entry with property \<open>P\<close>.\<close>

fun find_entry :: "(DirectoryEntry \<Rightarrow> bool) \<Rightarrow> u32 list \<Rightarrow> Directory \<Rightarrow> ((u32 \<times> nat) option \<times> Directory) option" where
  "find_entry P [] d = Some (None, d)"
| "find_entry P (k # ks) d = do {
     (p, d1) \<leftarrow> dir_getDirectoryEntry k d;
     e \<leftarrow> dir_heap d1 p;
     if P e then Some (Some (k, p), d1) else find_entry P ks d1
   }"

text \<open>The search of the list of replaced entries; following a pointer to a deleted entry is an abort.\<close>

fun find_replaced :: "IntPtr \<Rightarrow> nat list \<Rightarrow> Directory \<Rightarrow> nat option option" where
  "find_replaced address [] d = Some None"
| "find_replaced address (p # ps) d = do {
     e \<leftarrow> dir_heap d p;
     if de_address e = address then Some (Some p) else find_replaced address ps d
   }"

definition update_entry :: "nat \<Rightarrow> (DirectoryEntry \<Rightarrow> DirectoryEntry) \<Rightarrow> Directory \<Rightarrow> Directory" where
  "update_entry p f d = d\<lparr>dir_heap := (dir_heap d)(p := map_option f (dir_heap d p))\<rparr>"

definition dc_getDirectoryEntry :: "IntPtr \<Rightarrow> DramDirectoryCache \<Rightarrow> (nat option \<times> DramDirectoryCache) option" where
  "dc_getDirectoryEntry address c = do {
     let (tag, set_index) = dc_splitAddress c address;
     (r1, d1) \<leftarrow> find_entry (\<lambda>e. de_address e = address) (dc_slots c set_index) (dc_directory c);
     case r1 of
       Some (k, p) \<Rightarrow> Some (Some p, c\<lparr>dc_directory := d1\<rparr>)
     | None \<Rightarrow> do {
         (r2, d2) \<leftarrow> find_entry (\<lambda>e. de_address e = INVALID_ADDRESS) (dc_slots c set_index) d1;
         case r2 of
           Some (k, p) \<Rightarrow>
             Some (Some p, c\<lparr>dc_directory := update_entry p (\<lambda>e. e\<lparr>de_address := address\<rparr>) d2\<rparr>)
         | None \<Rightarrow> do {
             r3 \<leftarrow> find_replaced address (dc_replaced c) d2;
             Some (r3, c\<lparr>dc_directory := d2\<rparr>)
           }
       }
   }"

text \<open>The latency of a modelled lookup: the access time, and the latency of the entry when it is found in the
  first loop.\<close>

definition dc_lookup_latency :: "IntPtr \<Rightarrow> DramDirectoryCache \<Rightarrow> u64 option" where
  "dc_lookup_latency address c = do {
     let (tag, set_index) = dc_splitAddress c address;
     (r1, d1) \<leftarrow> find_entry (\<lambda>e. de_address e = address) (dc_slots c set_index) (dc_directory c);
     Some (dc_access_time c + (case r1 of Some (k, p) \<Rightarrow> de_getLatency (the (dir_heap d1 p)) | None \<Rightarrow> 0))
   }"

fun get_entries :: "u32 list \<Rightarrow> Directory \<Rightarrow> (nat list \<times> Directory) option" where
  "get_entries [] d = Some ([], d)"
| "get_entries (k # ks) d = do {
     (p, d1) \<leftarrow> dir_getDirectoryEntry k d;
     (ps, d2) \<leftarrow> get_entries ks d1;
     Some (p # ps, d2)
   }"

definition getReplacementCandidates :: "IntPtr \<Rightarrow> DramDirectoryCache \<Rightarrow> (nat list \<times> DramDirectoryCache) option" where
  "getReplacementCandidates address c = do {
     (r, c1) \<leftarrow> dc_getDirectoryEntry address c;
     ensure (r = None);
     let (tag, set_index) = dc_splitAddress c1 address;
     ptr \<leftarrow> nth_opt (dc_replacement_ptrs c1) (unat set_index);
     (ps, d) \<leftarrow> get_entries
       (map (\<lambda>i. set_index * dc_associativity c1 + (of_nat i + ptr) mod dc_associativity c1)
         [0..<unat (dc_associativity c1)]) (dc_directory c1);
     Some (ps, c1\<lparr>dc_directory := d,
       dc_replacement_ptrs := (dc_replacement_ptrs c1)[unat set_index := ptr + 1]\<rparr>)
   }"

definition replaceDirectoryEntry :: "IntPtr \<Rightarrow> IntPtr \<Rightarrow> DramDirectoryCache \<Rightarrow> (nat \<times> DramDirectoryCache) option" where
  "replaceDirectoryEntry replaced_address address c = do {
     let (tag, set_index) = dc_splitAddress c replaced_address;
     (r, d1) \<leftarrow> find_entry (\<lambda>e. de_address e = replaced_address) (dc_slots c set_index) (dc_directory c);
     (k, p) \<leftarrow> r;
     let (q, d2) = createDirectoryEntry d1;
     d3 \<leftarrow> setDirectoryEntry k q (update_entry q (\<lambda>e. e\<lparr>de_address := address\<rparr>) d2);
     Some (q, c\<lparr>dc_directory := d3, dc_replaced := dc_replaced c @ [p]\<rparr>)
   }"

definition invalidateDirectoryEntry :: "IntPtr \<Rightarrow> DramDirectoryCache \<Rightarrow> DramDirectoryCache option" where
  "invalidateDirectoryEntry address c = do {
     r \<leftarrow> find_replaced address (dc_replaced c) (dc_directory c);
     p \<leftarrow> r;
     Some (c\<lparr>dc_directory := (dc_directory c)\<lparr>dir_heap := (dir_heap (dc_directory c))(p := None)\<rparr>,
             dc_replaced := remove1 p (dc_replaced c)\<rparr>)
   }"

definition getMaxHwSharers :: "DramDirectoryCache \<Rightarrow> u32" where
  "getMaxHwSharers c = dir_use_max_hw_sharers (dc_directory c)"

definition dc_entry :: "nat \<Rightarrow> DramDirectoryCache \<Rightarrow> DirectoryEntry option" where
  "dc_entry p c = dir_heap (dc_directory c) p"

definition dc_update :: "nat \<Rightarrow> DirectoryEntry \<Rightarrow> DramDirectoryCache \<Rightarrow> DramDirectoryCache" where
  "dc_update p e c = c\<lparr>dc_directory := (dc_directory c)\<lparr>dir_heap := (dir_heap (dc_directory c))(p \<mapsto> e)\<rparr>\<rparr>"

end
