(* ===== verification/DirectoryInv.thy ===== *)
theory DirectoryInv
  imports Directory
begin

text \<open>
  Invariants of the tag directory. Locale \<open>directory_invariant\<close> says what it takes for a predicate on the
  directory cache to be kept by everything a controller does with it; it is interpreted for the state of the
  entries (a modified or exclusive line has one sharer, its owner; a limited directory stays within its
  hardware sharers) and for the structure of the cache (one entry for a line).
\<close>

section \<open>Sharers\<close>

lemma getNumSharers_list: "getNumSharers e = length (snd (getSharersList e))"
proof -
  have "filter (\<lambda>b. b) xs = map (\<lambda>j. xs ! j) (filter (\<lambda>j. xs ! j) [0..<length xs])" for xs :: "bool list"
  proof -
    have "filter (\<lambda>b. b) xs = filter (\<lambda>b. b) (map ((!) xs) [0..<length xs])" by (simp add: map_nth)
    also have "\<dots> = map (\<lambda>j. xs ! j) (filter (\<lambda>j. xs ! j) [0..<length xs])" by (simp add: filter_map comp_def)
    finally show ?thesis .
  qed
  from this [of "de_sharers e"] show ?thesis by (simp add: getNumSharers_def getSharersList_def)
qed

lemma sharers_set: "j \<in> set (snd (getSharersList e)) \<longleftrightarrow> hasSharer j e = Some True"
proof -
  have "j \<in> set (snd (getSharersList e)) \<longleftrightarrow> (\<exists>k < length (de_sharers e). de_sharers e ! k \<and> j = int k)"
    by (auto simp: getSharersList_def)
  then show ?thesis
    by (cases "j < 0") (auto simp: hasSharer_def intro: exI [of _ "nat j"])
qed

lemma sharers_distinct: "distinct (snd (getSharersList e))"
  by (simp add: getSharersList_def distinct_map)

lemma num_sharers_card: "getNumSharers e = card {j. hasSharer j e = Some True}"
proof -
  have "{j. hasSharer j e = Some True} = set (snd (getSharersList e))" using sharers_set by blast
  then show ?thesis by (simp add: getNumSharers_list distinct_card [OF sharers_distinct])
qed

lemma sharers_finite: "finite {j. hasSharer j e = Some True}"
proof -
  have "{j. hasSharer j e = Some True} = set (snd (getSharersList e))" using sharers_set by blast
  then show ?thesis by simp
qed

text \<open>The set of the sharers is what the operations on an entry change.\<close>

definition sharer_set :: "DirectoryEntry \<Rightarrow> core_id set" where
  "sharer_set e = {j. hasSharer j e = Some True}"

lemma sharer_set_finite [simp]: "finite (sharer_set e)"
  by (simp add: sharer_set_def sharers_finite)

lemma num_sharers_set: "getNumSharers e = card (sharer_set e)"
  by (simp add: sharer_set_def num_sharers_card)

lemma sharer_set_frame [simp]:
  "sharer_set (e\<lparr>de_dstate := s\<rparr>) = sharer_set e" "sharer_set (e\<lparr>de_owner := r\<rparr>) = sharer_set e"
  "sharer_set (e\<lparr>de_forwarder := f\<rparr>) = sharer_set e" "sharer_set (e\<lparr>de_kind := k\<rparr>) = sharer_set e"
  "sharer_set (e\<lparr>de_address := a\<rparr>) = sharer_set e"
  by (simp_all add: sharer_set_def hasSharer_def)

lemma sharer_set_update:
  assumes "0 \<le> r" and "nat r < length (de_sharers e)"
  shows "sharer_set (e\<lparr>de_sharers := (de_sharers e)[nat r := b]\<rparr>)
    = (if b then insert r (sharer_set e) else sharer_set e - {r})"
proof -
  have "hasSharer j (e\<lparr>de_sharers := (de_sharers e)[nat r := b]\<rparr>) = (if j = r then Some b else hasSharer j e)" for j
    using assms by (auto simp: hasSharer_def nth_opt_def nth_list_update)
  then show ?thesis by (auto simp: sharer_set_def)
qed

lemma sharers_list_single: "sharer_set e = {r} \<longleftrightarrow> snd (getSharersList e) = [r]"
proof
  assume "sharer_set e = {r}"
  then have s: "set (snd (getSharersList e)) = {r}" and "length (snd (getSharersList e)) = 1"
    using sharers_set [of _ e] num_sharers_set [of e] by (auto simp: sharer_set_def getNumSharers_list)
  then show "snd (getSharersList e) = [r]" by (cases "snd (getSharersList e)") auto
next
  assume "snd (getSharersList e) = [r]"
  then show "sharer_set e = {r}" using sharers_set [of _ e] by (auto simp: sharer_set_def)
qed

section \<open>Operations on an entry\<close>

lemma addSharer_effect:
  assumes "addSharer r m e = Some (b, e')"
  shows "r \<notin> sharer_set e"
    and "b \<Longrightarrow> sharer_set e' = insert r (sharer_set e)" and "\<not> b \<Longrightarrow> e' = e"
    and "de_dstate e' = de_dstate e" and "de_owner e' = de_owner e" and "de_address e' = de_address e"
    and "de_forwarder e' = de_forwarder e"
    and "(\<exists>s. de_kind e' = LimitedNoBroadcast s) \<longleftrightarrow> (\<exists>s. de_kind e = LimitedNoBroadcast s)"
    and "b \<Longrightarrow> (\<exists>s. de_kind e = LimitedNoBroadcast s) \<Longrightarrow> getNumSharers e < unat m"
    and "\<not> b \<Longrightarrow> unat m \<le> getNumSharers e"
proof -
  have has: "hasSharer r e = Some False"
    using assms by (auto simp: addSharer_def abort_simps)
  then have in_range: "0 \<le> r" "nat r < length (de_sharers e)"
    by (auto simp: hasSharer_def split: if_splits)
  note upd = sharer_set_update [OF this, of True, simplified]
  show "r \<notin> sharer_set e" using has by (simp add: sharer_set_def)
  have alt: "\<not> b \<and> e' = e \<and> unat m \<le> getNumSharers e
    \<or> b \<and> (\<exists>s. de_kind e = LimitedNoBroadcast s) \<and> getNumSharers e < unat m
      \<and> e' = e\<lparr>de_sharers := (de_sharers e)[nat r := True]\<rparr>
    \<or> b \<and> (\<exists>t p. de_kind e = Limitless t p) \<and> e' = e\<lparr>de_sharers := (de_sharers e)[nat r := True]\<rparr>
    \<or> b \<and> (\<exists>t p. de_kind e = Limitless t p)
      \<and> (\<exists>p. e' = e\<lparr>de_sharers := (de_sharers e)[nat r := True], de_kind := Limitless True p\<rparr>)"
  proof (cases "de_kind e")
    case (LimitedNoBroadcast s)
    then show ?thesis
      using assms has by (cases "unat m \<le> getNumSharers e") (simp_all add: addSharer_def Let_def)
  next
    case (Limitless t p)
    then show ?thesis
      using assms has by (cases "length (de_sharers e) = unat m") (simp_all add: addSharer_def Let_def, blast+)
  qed
  consider (no) "\<not> b" "e' = e" "unat m \<le> getNumSharers e"
    | (lim) s where "b" "de_kind e = LimitedNoBroadcast s" "getNumSharers e < unat m"
        "e' = e\<lparr>de_sharers := (de_sharers e)[nat r := True]\<rparr>"
    | (less) t p where "b" "de_kind e = Limitless t p" "e' = e\<lparr>de_sharers := (de_sharers e)[nat r := True]\<rparr>"
    | (trap) t p q where "b" "de_kind e = Limitless t p"
        "e' = e\<lparr>de_sharers := (de_sharers e)[nat r := True], de_kind := Limitless True q\<rparr>"
    using alt by blast
  note alt_cases = this
  show "b \<Longrightarrow> sharer_set e' = insert r (sharer_set e)"
    using upd by (cases rule: alt_cases) simp_all
  show "\<not> b \<Longrightarrow> e' = e" "de_dstate e' = de_dstate e" "de_owner e' = de_owner e" "de_address e' = de_address e"
    "de_forwarder e' = de_forwarder e"
    "(\<exists>s. de_kind e' = LimitedNoBroadcast s) \<longleftrightarrow> (\<exists>s. de_kind e = LimitedNoBroadcast s)"
    "b \<Longrightarrow> (\<exists>s. de_kind e = LimitedNoBroadcast s) \<Longrightarrow> getNumSharers e < unat m"
    "\<not> b \<Longrightarrow> unat m \<le> getNumSharers e"
    by (cases rule: alt_cases; simp)+
qed

lemma removeSharer_effect:
  assumes "removeSharer r x e = Some e'"
  shows "r \<in> sharer_set e" and "sharer_set e' = sharer_set e - {r}" and "de_dstate e' = de_dstate e"
    and "de_owner e' = de_owner e" and "de_address e' = de_address e" and "de_kind e' = de_kind e"
proof -
  have has: "hasSharer r e = Some True" and e': "e' = e\<lparr>de_sharers := (de_sharers e)[nat r := False]\<rparr>"
    using assms by (auto simp: removeSharer_def abort_simps)
  then have "0 \<le> r" "nat r < length (de_sharers e)"
    by (auto simp: hasSharer_def split: if_splits)
  note upd = sharer_set_update [OF this, of False, simplified]
  show "r \<in> sharer_set e" using has by (simp add: sharer_set_def)
  show "sharer_set e' = sharer_set e - {r}" "de_dstate e' = de_dstate e"
    "de_owner e' = de_owner e" "de_address e' = de_address e" "de_kind e' = de_kind e"
    using e' upd by simp_all
qed

lemma setOwner_effect:
  assumes "setOwner r e = Some e'"
  shows "e' = e\<lparr>de_owner := r\<rparr>" and "r \<noteq> INVALID_CORE_ID \<Longrightarrow> r \<in> sharer_set e"
  using assms by (auto simp: setOwner_def sharer_set_def abort_simps split: if_splits)

lemma getOneSharer_effect:
  assumes "getOneSharer e = Some (r, e')"
  shows "r \<in> sharer_set e \<and> (\<exists>k. e' = e\<lparr>de_kind := k\<rparr> \<and>
     ((\<exists>s. k = LimitedNoBroadcast s) \<longleftrightarrow> (\<exists>s. de_kind e = LimitedNoBroadcast s)))"
proof (cases "de_kind e")
  case (LimitedNoBroadcast seed)
  then have "r \<in> set (snd (getSharersList e))" "\<exists>s. e' = e\<lparr>de_kind := LimitedNoBroadcast s\<rparr>"
    using assms by (auto simp: getOneSharer_def Let_def abort_simps split: prod.splits)
  then show ?thesis using LimitedNoBroadcast by (auto simp: sharer_set_def sharers_set)
next
  case (Limitless t p)
  then obtain j where j: "List.find (\<lambda>j. de_sharers e ! j) [0..<length (de_sharers e)] = Some j"
    and "r = int j" and "e' = e"
    using assms by (auto simp: getOneSharer_def abort_simps)
  moreover have "hasSharer (int j) e = Some True"
    using find_set_Some [OF j] by (simp add: hasSharer_def)
  ultimately show ?thesis using Limitless by (auto simp: sharer_set_def intro!: exI [of _ "de_kind e"])
qed

section \<open>The state of an entry\<close>

definition entry_ok :: "u32 \<Rightarrow> DirectoryEntry \<Rightarrow> bool" where
  "entry_ok m e \<longleftrightarrow>
     (de_dstate e = D_UNCACHED \<longleftrightarrow> sharer_set e = {}) \<and> de_dstate e \<noteq> D_OWNED \<and>
     (de_dstate e = D_MODIFIED \<or> de_dstate e = D_EXCLUSIVE \<longrightarrow> sharer_set e = {de_owner e}) \<and>
     ((\<exists>s. de_kind e = LimitedNoBroadcast s) \<longrightarrow> getNumSharers e \<le> unat m)"

text \<open>A change to an entry that is harmless: it keeps the address, and the state when that is good.\<close>

definition evolves :: "u32 \<Rightarrow> DirectoryEntry \<Rightarrow> DirectoryEntry \<Rightarrow> bool" where
  "evolves m e e' \<longleftrightarrow> de_address e' = de_address e \<and> (entry_ok m e \<longrightarrow> entry_ok m e')"

lemma evolves_refl [simp]: "evolves m e e"
  by (simp add: evolves_def)

lemma evolves_trans: "evolves m e1 e2 \<Longrightarrow> evolves m e2 e3 \<Longrightarrow> evolves m e1 e3"
  by (simp add: evolves_def)

lemma evolves_forwarder [simp]: "evolves m e (e\<lparr>de_forwarder := f\<rparr>)"
  by (simp add: evolves_def entry_ok_def num_sharers_set)

lemma evolves_modified:
  "de_dstate e = D_MODIFIED \<or> de_dstate e = D_EXCLUSIVE \<Longrightarrow> evolves m e (e\<lparr>de_dstate := D_MODIFIED\<rparr>)"
  by (auto simp: evolves_def entry_ok_def num_sharers_set)

lemma evolves_grant:
  assumes "de_dstate e = D_UNCACHED" and "addSharer r m e = Some (True, e1)" and "setOwner r e1 = Some e2"
    and "s \<in> {D_SHARED, D_MODIFIED, D_EXCLUSIVE}"
  shows "evolves m e (e2\<lparr>de_dstate := s\<rparr>)"
proof -
  note a = addSharer_effect [OF assms(2)]
  have e2: "e2 = e1\<lparr>de_owner := r\<rparr>" using setOwner_effect(1) [OF assms(3)] .
  show ?thesis
    using assms(1,4) a unfolding e2 by (auto simp: evolves_def entry_ok_def num_sharers_set)
qed

lemma evolves_add:
  assumes "de_dstate e = D_SHARED" and "addSharer r m e = Some (b, e1)"
  shows "evolves m e e1"
proof (cases b)
  case True
  note a = addSharer_effect [OF assms(2)]
  have "sharer_set e1 = insert r (sharer_set e)" and "de_dstate e1 = D_SHARED" and "de_address e1 = de_address e"
    using a(2,4,6) True assms(1) by simp_all
  moreover have "getNumSharers e1 \<le> unat m" if "\<exists>s. de_kind e1 = LimitedNoBroadcast s"
    using a(1,8) a(9) [OF True] that calculation(1) by (simp add: num_sharers_set)
  ultimately show ?thesis by (simp add: evolves_def entry_ok_def)
next
  case False
  then show ?thesis using addSharer_effect(3) [OF assms(2)] by simp
qed

lemma evolves_one_sharer: "getOneSharer e = Some (r, e') \<Longrightarrow> evolves m e e'"
  by (drule getOneSharer_effect) (auto simp: evolves_def entry_ok_def num_sharers_set)

lemma evolves_remove:
  assumes "removeSharer r x e = Some e1" and "getNumSharers e1 = 0 \<or> de_dstate e = D_SHARED"
  shows "evolves m e (if getNumSharers e1 = 0 then e1\<lparr>de_forwarder := f, de_owner := w, de_dstate := D_UNCACHED\<rparr>
     else e1\<lparr>de_forwarder := f, de_owner := w\<rparr>)"
proof -
  note a = removeSharer_effect [OF assms(1)]
  have le: "getNumSharers e1 \<le> getNumSharers e" using a(2) by (simp add: num_sharers_set card_mono)
  show ?thesis
  proof (cases "getNumSharers e1 = 0")
    case True
    then have "sharer_set e1 = {}" by (simp add: num_sharers_set)
    then show ?thesis using True a(5) by (simp add: evolves_def entry_ok_def num_sharers_set)
  next
    case False
    then have "sharer_set e1 \<noteq> {}" and "de_dstate e1 = D_SHARED"
      using assms(2) a(3) by (auto simp: num_sharers_set)
    moreover have "getNumSharers e1 \<le> unat m" if "entry_ok m e" "\<exists>s. de_kind e1 = LimitedNoBroadcast s"
      using that le a(6) unfolding entry_ok_def by (metis le_trans)
    ultimately show ?thesis using False a(5) by (simp add: evolves_def entry_ok_def [of m "_\<lparr>de_forwarder := _, de_owner := _\<rparr>"] num_sharers_set)
  qed
qed

lemma evolves_share:
  assumes "hasSharer r e = Some True"
  shows "evolves m e (e\<lparr>de_owner := INVALID_CORE_ID, de_dstate := D_SHARED\<rparr>)"
  using assms by (auto simp: evolves_def entry_ok_def num_sharers_set sharer_set_def [of e] split: dstate.splits)

lemma evolves_take:
  assumes "de_dstate e = D_SHARED" and "snd (getSharersList e) = [r]"
  shows "evolves m e (e\<lparr>de_owner := r, de_dstate := D_MODIFIED\<rparr>)"
  using assms sharers_list_single [of e r] by (auto simp: evolves_def entry_ok_def num_sharers_set)

section \<open>The interface of an invariant\<close>

text \<open>\<open>ok\<close> restricts the addresses of the requests.\<close>

locale directory_invariant =
  fixes ok :: "IntPtr \<Rightarrow> bool" and I :: "DramDirectoryCache \<Rightarrow> bool"
  assumes get_law: "I c \<Longrightarrow> ok a \<Longrightarrow> dc_getDirectoryEntry a c = Some (r, c') \<Longrightarrow> I c'"
    and replace_law: "I c \<Longrightarrow> ok a \<Longrightarrow> getReplacementCandidates a c = Some (ps, c1) \<Longrightarrow> p \<in> set ps \<Longrightarrow>
      dc_entry p c1 = Some e \<Longrightarrow> replaceDirectoryEntry (de_address e) a c1 = Some (q, c2) \<Longrightarrow>
      I c2 \<and> ok (de_address e)"
    and invalidate_law: "I c \<Longrightarrow> invalidateDirectoryEntry a c = Some c' \<Longrightarrow> I c'"
    and update_law: "I c \<Longrightarrow> dc_entry p c = Some e \<Longrightarrow> evolves (getMaxHwSharers c) e e' \<Longrightarrow> I (dc_update p e' c)"

section \<open>Good entries\<close>

definition dir_limit :: "Directory \<Rightarrow> u32" where
  "dir_limit d = (if dir_type d = FULL_MAP then dir_max_num_sharers d else dir_max_hw_sharers d)"

lemma dir_limit_frame [simp]:
  "dir_limit (d\<lparr>dir_heap := h\<rparr>) = dir_limit d" "dir_limit (d\<lparr>dir_fresh := n\<rparr>) = dir_limit d"
  "dir_limit (d\<lparr>dir_list := l\<rparr>) = dir_limit d" "dir_limit (d\<lparr>dir_num_entries_allocated := k\<rparr>) = dir_limit d"
  "dir_limit (d\<lparr>dir_use_max_hw_sharers := m\<rparr>) = dir_limit d"
  by (simp_all add: dir_limit_def)

definition dir_ok :: "Directory \<Rightarrow> bool" where
  "dir_ok d \<longleftrightarrow> (\<forall>e \<in> ran (dir_heap d). entry_ok (dir_use_max_hw_sharers d) e) \<and>
     (dir_heap d = Map.empty \<or> dir_use_max_hw_sharers d = dir_limit d) \<and>
     (dir_type d \<noteq> FULL_MAP \<longrightarrow> dir_use_max_hw_sharers d = dir_limit d)"

lemma entry_ok_new [simp]: "entry_ok m (DirectoryEntry_new g n k)"
proof -
  have "sharer_set (DirectoryEntry_new g n k) = {}"
    by (auto simp: sharer_set_def hasSharer_def DirectoryEntry_new_def nth_opt_def split: if_splits)
  then show ?thesis by (simp add: entry_ok_def num_sharers_set DirectoryEntry_new_def)
qed

lemma entry_ok_address [simp]: "entry_ok m (e\<lparr>de_address := a\<rparr>) = entry_ok m e"
  by (simp add: entry_ok_def num_sharers_set)

lemma ran_upd_subset: "ran (m(p \<mapsto> x)) \<subseteq> insert x (ran m)"
  by (auto simp: ran_def)

lemma create_ok:
  assumes "dir_ok d" and "createDirectoryEntry d = (p, d')"
  shows "dir_ok d'"
proof -
  define cap where "cap = sharers_capacity (dir_max_num_sharers d)"
  obtain e d1 where e: "createDirectoryEntrySized cap d = (e, d1)" by fastforce
  have d': "d' = d1\<lparr>dir_heap := (dir_heap d1)(dir_fresh d1 \<mapsto> e), dir_fresh := Suc (dir_fresh d1)\<rparr>"
    using assms(2) e by (auto simp: createDirectoryEntry_def Let_def cap_def)
  have h: "dir_heap d1 = dir_heap d" and use: "dir_use_max_hw_sharers d1 = dir_limit d" and lim: "dir_limit d1 = dir_limit d"
    and eok: "\<And>m. entry_ok m e"
    using e assms(1) by (auto simp: createDirectoryEntrySized_def dir_ok_def dir_limit_def split: directory_type.splits)
  have "\<forall>x \<in> ran (dir_heap d). entry_ok (dir_limit d) x"
    using assms(1) by (cases "dir_heap d = Map.empty") (auto simp: dir_ok_def)
  then have "\<forall>x \<in> ran ((dir_heap d)(dir_fresh d1 \<mapsto> e)). entry_ok (dir_limit d) x"
    using eok ran_upd_subset [of "dir_heap d" "dir_fresh d1" e] by blast
  then show ?thesis
    using h use lim unfolding d' by (simp add: dir_ok_def)
qed

lemma dir_ok_list [simp]: "dir_ok (d\<lparr>dir_list := l\<rparr>) = dir_ok d"
  "dir_ok (d\<lparr>dir_list := l, dir_num_entries_allocated := n\<rparr>) = dir_ok d"
  by (simp_all add: dir_ok_def)

lemma dir_get_ok:
  assumes "dir_ok d" and "dir_getDirectoryEntry k d = Some (p, d')"
  shows "dir_ok d'"
proof -
  obtain q d1 where c: "createDirectoryEntry d = (q, d1)" by fastforce
  show ?thesis
    using assms create_ok [OF assms(1) c] c
    by (auto simp: dir_getDirectoryEntry_def abort_simps Let_def split: option.splits)
qed

lemma find_entry_ok: "dir_ok d \<Longrightarrow> find_entry P ks d = Some (r, d') \<Longrightarrow> dir_ok d'"
proof (induction ks arbitrary: d)
  case (Cons k ks)
  then show ?case using dir_get_ok by (fastforce simp: abort_simps split: if_splits)
qed simp

lemma get_entries_ok: "dir_ok d \<Longrightarrow> get_entries ks d = Some (ps, d') \<Longrightarrow> dir_ok d'"
proof (induction ks arbitrary: d ps)
  case (Cons k ks)
  then show ?case using dir_get_ok by (fastforce simp: abort_simps)
qed simp

lemma dir_ok_update:
  assumes "dir_ok d" and "dir_heap d p = Some e" and "entry_ok (dir_use_max_hw_sharers d) e'"
  shows "dir_ok (d\<lparr>dir_heap := (dir_heap d)(p \<mapsto> e')\<rparr>)"
proof -
  have "\<forall>x \<in> ran ((dir_heap d)(p \<mapsto> e')). entry_ok (dir_use_max_hw_sharers d) x"
    using assms(1,3) ran_upd_subset [of "dir_heap d" p e'] unfolding dir_ok_def by blast
  then show ?thesis using assms by (auto simp: dir_ok_def)
qed

lemma dir_ok_set_address:
  assumes "dir_ok d" and "dir_heap d p = Some e"
  shows "dir_ok (update_entry p (\<lambda>e. e\<lparr>de_address := a\<rparr>) d)"
proof -
  have "entry_ok (dir_use_max_hw_sharers d) e" using assms by (auto simp: dir_ok_def ran_def)
  then show ?thesis using dir_ok_update [OF assms, of "e\<lparr>de_address := a\<rparr>"] assms(2) by (simp add: update_entry_def)
qed

lemma find_entry_Some:
  assumes "find_entry P ks d = Some (Some (k, p), d')"
  shows "\<exists>e. dir_heap d' p = Some e \<and> P e"
  using assms
proof (induction ks arbitrary: d)
  case (Cons k ks)
  then show ?case by (auto simp: abort_simps split: if_splits)
qed simp

text \<open>The three ways a lookup ends.\<close>

lemma dc_get_cases:
  assumes "dc_getDirectoryEntry a c = Some (r, c')"
  obtains (found) k p d1 where "find_entry (\<lambda>e. de_address e = a) (dc_slots c (snd (dc_splitAddress c a))) (dc_directory c)
        = Some (Some (k, p), d1)" "r = Some p" "c' = c\<lparr>dc_directory := d1\<rparr>"
  | (free) k p d1 d2 where "find_entry (\<lambda>e. de_address e = a) (dc_slots c (snd (dc_splitAddress c a))) (dc_directory c)
        = Some (None, d1)"
      "find_entry (\<lambda>e. de_address e = INVALID_ADDRESS) (dc_slots c (snd (dc_splitAddress c a))) d1 = Some (Some (k, p), d2)"
      "r = Some p" "c' = c\<lparr>dc_directory := update_entry p (\<lambda>e. e\<lparr>de_address := a\<rparr>) d2\<rparr>"
  | (full) d1 d2 where "find_entry (\<lambda>e. de_address e = a) (dc_slots c (snd (dc_splitAddress c a))) (dc_directory c)
        = Some (None, d1)"
      "find_entry (\<lambda>e. de_address e = INVALID_ADDRESS) (dc_slots c (snd (dc_splitAddress c a))) d1 = Some (None, d2)"
      "find_replaced a (dc_replaced c) d2 = Some r" "c' = c\<lparr>dc_directory := d2\<rparr>"
proof -
  obtain tag i where s: "dc_splitAddress c a = (tag, i)" by fastforce
  obtain r1 d1 where 1: "find_entry (\<lambda>e. de_address e = a) (dc_slots c i) (dc_directory c) = Some (r1, d1)"
    using assms s by (auto simp: dc_getDirectoryEntry_def abort_simps)
  show thesis
  proof (cases r1)
    case (Some kp)
    obtain k p where kp: "kp = (k, p)" by fastforce
    show thesis
      by (rule found [of k p d1]) (use assms s 1 Some kp in \<open>simp_all add: dc_getDirectoryEntry_def\<close>)
  next
    case None
    obtain r2 d2 where 2: "find_entry (\<lambda>e. de_address e = INVALID_ADDRESS) (dc_slots c i) d1 = Some (r2, d2)"
      using assms s 1 None by (auto simp: dc_getDirectoryEntry_def abort_simps)
    show thesis
    proof (cases r2)
      case (Some kp)
      obtain k p where kp: "kp = (k, p)" by fastforce
      show thesis
        by (rule free [of d1 k p d2]) (use assms s 1 None 2 Some kp in \<open>simp_all add: dc_getDirectoryEntry_def\<close>)
    next
      case None2: None
      obtain r3 where "find_replaced a (dc_replaced c) d2 = Some r3"
        using assms s 1 None 2 None2 by (auto simp: dc_getDirectoryEntry_def abort_simps)
      then show thesis
        by (intro full [of d1 d2]) (use assms s 1 None 2 None2 in \<open>simp_all add: dc_getDirectoryEntry_def\<close>)
    qed
  qed
qed

lemma dc_get_ok:
  assumes "dir_ok (dc_directory c)" and "dc_getDirectoryEntry a c = Some (r, c')"
  shows "dir_ok (dc_directory c')"
  using assms(2)
proof (cases rule: dc_get_cases)
  case (found k p d1)
  then show ?thesis using find_entry_ok [OF assms(1)] by simp
next
  case (free k p d1 d2)
  have "dir_ok d2" using find_entry_ok [OF find_entry_ok [OF assms(1) free(1)] free(2)] .
  then show ?thesis using find_entry_Some [OF free(2)] dir_ok_set_address free(4) by auto
next
  case (full d1 d2)
  then show ?thesis using find_entry_ok [OF find_entry_ok [OF assms(1) full(1)] full(2)] by simp
qed

lemma candidates_cases:
  assumes "getReplacementCandidates a c = Some (ps, c')"
  obtains c1 ks d ptrs where "dc_getDirectoryEntry a c = Some (None, c1)" "get_entries ks (dc_directory c1) = Some (ps, d)"
    "c' = c1\<lparr>dc_directory := d, dc_replacement_ptrs := ptrs\<rparr>"
    "set ks \<subseteq> {snd (dc_splitAddress c1 a) * dc_associativity c1 + x mod dc_associativity c1 | x. True}"
proof -
  obtain r c1 where 1: "dc_getDirectoryEntry a c = Some (r, c1)"
    using assms by (auto simp: getReplacementCandidates_def abort_simps)
  obtain tag i where s: "dc_splitAddress c1 a = (tag, i)" by fastforce
  have r: "r = None" using assms 1 by (simp add: getReplacementCandidates_def)
  obtain ptr d where 2: "get_entries (map (\<lambda>j. i * dc_associativity c1 + (of_nat j + ptr) mod dc_associativity c1)
         [0..<unat (dc_associativity c1)]) (dc_directory c1) = Some (ps, d)"
    and 3: "c' = c1\<lparr>dc_directory := d, dc_replacement_ptrs := (dc_replacement_ptrs c1)[unat i := ptr + 1]\<rparr>"
    using assms 1 s r by (auto simp: getReplacementCandidates_def abort_simps)
  note 1 = 1 [unfolded r]
  show thesis by (rule that [OF 1 2 3]) (auto simp: s)
qed

lemma replace_cases:
  assumes "replaceDirectoryEntry ra a c = Some (q, c')"
  obtains k p d1 d2 where
    "find_entry (\<lambda>e. de_address e = ra) (dc_slots c (snd (dc_splitAddress c ra))) (dc_directory c) = Some (Some (k, p), d1)"
    "createDirectoryEntry d1 = (q, d2)" "unat k < length (dir_list d2)"
    "c' = c\<lparr>dc_directory := (update_entry q (\<lambda>e. e\<lparr>de_address := a\<rparr>) d2)\<lparr>dir_list := (dir_list d2)[unat k := Some q]\<rparr>,
       dc_replaced := dc_replaced c @ [p]\<rparr>"
proof -
  obtain tag i where s: "dc_splitAddress c ra = (tag, i)" by fastforce
  obtain k p d1 where 1: "find_entry (\<lambda>e. de_address e = ra) (dc_slots c i) (dc_directory c) = Some (Some (k, p), d1)"
    using assms s by (auto simp: replaceDirectoryEntry_def abort_simps)
  obtain q' d2 where 2: "createDirectoryEntry d1 = (q', d2)" by fastforce
  show thesis
    by (rule that [of k p d1 d2])
      (use assms s 1 2 in \<open>auto simp: replaceDirectoryEntry_def setDirectoryEntry_def update_entry_def\<close>)
qed

lemma create_heap: "createDirectoryEntry d = (q, d') \<Longrightarrow> \<exists>e. dir_heap d' q = Some e \<and> de_address e = INVALID_ADDRESS"
  by (auto simp: createDirectoryEntry_def createDirectoryEntrySized_def DirectoryEntry_new_def Let_def
      split: directory_type.splits prod.splits)

interpretation entries: directory_invariant "\<lambda>_. True" "\<lambda>c. dir_ok (dc_directory c)"
proof (unfold_locales, goal_cases)
  case (1 c a r c')
  show ?case by (rule dc_get_ok [OF 1(1) 1(3)])
next
  case (2 c a ps c1 p e q c2)
  obtain c0 ks d where 0: "dc_getDirectoryEntry a c = Some (None, c0)" "get_entries ks (dc_directory c0) = Some (ps, d)"
    "dc_directory c1 = d"
    using 2(3) by (elim candidates_cases) simp
  have ok1: "dir_ok (dc_directory c1)"
    using get_entries_ok [OF dc_get_ok [OF 2(1) 0(1)] 0(2)] 0(3) by simp
  show ?case
    using 2(6)
  proof (cases rule: replace_cases)
    case (1 k p d1 d2)
    have "dir_ok d2" using create_ok [OF find_entry_ok [OF ok1 1(1)] 1(2)] .
    then show ?thesis using create_heap [OF 1(2)] dir_ok_set_address 1(4) by auto
  qed
next
  case (3 c a c')
  then obtain p where "c' = c\<lparr>dc_directory := (dc_directory c)\<lparr>dir_heap := (dir_heap (dc_directory c))(p := None)\<rparr>,
       dc_replaced := remove1 p (dc_replaced c)\<rparr>"
    by (auto simp: invalidateDirectoryEntry_def abort_simps)
  moreover have "ran ((dir_heap (dc_directory c))(p := None)) \<subseteq> ran (dir_heap (dc_directory c))"
    by (auto simp: ran_def)
  ultimately show ?case using 3(1) by (auto simp: dir_ok_def)
next
  case (4 c p e e')
  have "entry_ok (getMaxHwSharers c) e"
    using 4(1,2) by (auto simp: dir_ok_def ran_def dc_entry_def getMaxHwSharers_def)
  then show ?case
    using 4 dir_ok_update [of "dc_directory c" p e e']
    by (simp add: evolves_def dc_update_def dc_entry_def getMaxHwSharers_def)
qed

end
