(* ===== verification/DirectoryStruct.thy ===== *)
theory DirectoryStruct
  imports DirectoryInv
begin

text \<open>
  The structure of the directory cache: the pointers in the table and in the list of replaced entries are
  different objects, every entry stands in the set of its address, there is at most one entry for an address,
  and a set that has a replaced entry has no free slot. The structure is stated on the table, the list of
  replaced entries and the map from pointers to addresses, and every operation of \<^verbatim>\<open>DramDirectoryCache\<close>
  makes a few of the steps below.
\<close>

section \<open>Tables of pointers\<close>

definition live :: "nat option list \<Rightarrow> nat list \<Rightarrow> nat \<Rightarrow> bool" where
  "live L R p \<longleftrightarrow> (\<exists>i < length L. L ! i = Some p) \<or> p \<in> set R"

definition slots_distinct :: "nat option list \<Rightarrow> bool" where
  "slots_distinct L \<longleftrightarrow> (\<forall>i < length L. \<forall>j < length L. \<forall>p. L ! i = Some p \<longrightarrow> L ! j = Some p \<longrightarrow> i = j)"

definition replaced_apart :: "nat option list \<Rightarrow> nat list \<Rightarrow> bool" where
  "replaced_apart L R \<longleftrightarrow> distinct R \<and> (\<forall>p \<in> set R. \<forall>i < length L. L ! i \<noteq> Some p)"

definition pointers_valid :: "nat option list \<Rightarrow> nat list \<Rightarrow> (nat \<rightharpoonup> IntPtr) \<Rightarrow> nat \<Rightarrow> bool" where
  "pointers_valid L R A f \<longleftrightarrow> (\<forall>p. live L R p \<longrightarrow> A p \<noteq> None) \<and> (\<forall>p. A p \<noteq> None \<longrightarrow> p < f)"

definition placed :: "nat \<Rightarrow> (IntPtr \<Rightarrow> nat) \<Rightarrow> nat option list \<Rightarrow> (nat \<rightharpoonup> IntPtr) \<Rightarrow> bool" where
  "placed n sf L A \<longleftrightarrow> (\<forall>i < length L. \<forall>p a. L ! i = Some p \<longrightarrow> A p = Some a \<longrightarrow> a \<noteq> INVALID_ADDRESS \<longrightarrow> i div n = sf a)"

definition unique :: "nat option list \<Rightarrow> nat list \<Rightarrow> (nat \<rightharpoonup> IntPtr) \<Rightarrow> bool" where
  "unique L R A \<longleftrightarrow> (\<forall>p q a. live L R p \<longrightarrow> live L R q \<longrightarrow> A p = Some a \<longrightarrow> A q = Some a \<longrightarrow>
     a \<noteq> INVALID_ADDRESS \<longrightarrow> p = q)"

definition full_set :: "nat \<Rightarrow> nat \<Rightarrow> nat option list \<Rightarrow> (nat \<rightharpoonup> IntPtr) \<Rightarrow> bool" where
  "full_set n s L A \<longleftrightarrow> (\<forall>i < length L. i div n = s \<longrightarrow> (\<exists>q b. L ! i = Some q \<and> A q = Some b \<and> b \<noteq> INVALID_ADDRESS))"

definition replaced_full :: "nat \<Rightarrow> (IntPtr \<Rightarrow> nat) \<Rightarrow> nat option list \<Rightarrow> nat list \<Rightarrow> (nat \<rightharpoonup> IntPtr) \<Rightarrow> bool" where
  "replaced_full n sf L R A \<longleftrightarrow> (\<forall>p \<in> set R. \<forall>a. A p = Some a \<longrightarrow> a \<noteq> INVALID_ADDRESS \<and> full_set n (sf a) L A)"

definition struct_wf :: "nat \<Rightarrow> (IntPtr \<Rightarrow> nat) \<Rightarrow> nat option list \<Rightarrow> nat list \<Rightarrow> (nat \<rightharpoonup> IntPtr) \<Rightarrow> nat \<Rightarrow> bool" where
  "struct_wf n sf L R A f \<longleftrightarrow> slots_distinct L \<and> replaced_apart L R \<and> pointers_valid L R A f \<and>
     placed n sf L A \<and> unique L R A \<and> replaced_full n sf L R A"

lemmas struct_defs = struct_wf_def slots_distinct_def replaced_apart_def pointers_valid_def placed_def unique_def
  replaced_full_def

text \<open>A slot receives a new object; \<open>R'\<close> gains what was in the slot.\<close>

lemma live_put:
  assumes "k < length L"
  shows "live (L[k := Some f]) R p \<longleftrightarrow> p = f \<or> (\<exists>i < length L. i \<noteq> k \<and> L ! i = Some p) \<or> p \<in> set R"
  using assms by (auto simp: live_def nth_list_update)

lemma full_set_put:
  assumes "full_set n s L A" and "A f = None" and "k div n = s \<longrightarrow> a \<noteq> INVALID_ADDRESS"
  shows "full_set n s (L[k := Some f]) (A(f \<mapsto> a))"
  unfolding full_set_def
proof (intro allI impI)
  fix i
  assume i: "i < length (L[k := Some f])" "i div n = s"
  show "\<exists>q b. L[k := Some f] ! i = Some q \<and> (A(f \<mapsto> a)) q = Some b \<and> b \<noteq> INVALID_ADDRESS"
  proof (cases "i = k")
    case True
    then show ?thesis using i assms(3) by simp
  next
    case False
    obtain q b where q: "L ! i = Some q" "A q = Some b" "b \<noteq> INVALID_ADDRESS"
      using assms(1) i unfolding full_set_def by fastforce
    moreover have "q \<noteq> f" using q(2) assms(2) by auto
    ultimately show ?thesis using False by simp
  qed
qed

lemma struct_create:
  assumes "struct_wf n sf L R A f" and "k < length L" and "L ! k = None"
  shows "struct_wf n sf (L[k := Some f]) R (A(f \<mapsto> INVALID_ADDRESS)) (Suc f)"
proof -
  have new: "A f = None" using assms(1) unfolding struct_wf_def pointers_valid_def by blast
  have dead: "\<not> live L R f" using assms(1) new unfolding struct_wf_def pointers_valid_def by blast
  have lv: "live (L[k := Some f]) R p \<longleftrightarrow> p = f \<or> live L R p" for p
    unfolding live_put [OF assms(2)] unfolding live_def using assms(3) by force
  have "slots_distinct (L[k := Some f])"
    using assms dead unfolding struct_defs live_def by (auto simp: nth_list_update)
  moreover have "replaced_apart (L[k := Some f]) R"
    using assms dead unfolding struct_defs live_def by (auto simp: nth_list_update)
  moreover have "pointers_valid (L[k := Some f]) R (A(f \<mapsto> INVALID_ADDRESS)) (Suc f)"
    using assms(1) unfolding struct_wf_def pointers_valid_def lv by (auto simp: less_Suc_eq)
  moreover have "placed n sf (L[k := Some f]) (A(f \<mapsto> INVALID_ADDRESS))"
    using assms(1,2) unfolding struct_wf_def placed_def by (auto simp: nth_list_update split: if_splits)
  moreover have "unique (L[k := Some f]) R (A(f \<mapsto> INVALID_ADDRESS))"
    using assms(1) unfolding struct_wf_def unique_def lv by auto
  moreover have "replaced_full n sf (L[k := Some f]) R (A(f \<mapsto> INVALID_ADDRESS))"
  proof -
    have "full_set n s (L[k := Some f]) (A(f \<mapsto> INVALID_ADDRESS))" if "full_set n s L A" for s
    proof -
      have "k div n \<noteq> s" using that assms(2,3) unfolding full_set_def by force
      then show ?thesis using full_set_put [OF that, of f k] new by simp
    qed
    then show ?thesis
      using assms(1) dead unfolding struct_wf_def replaced_full_def live_def by auto
  qed
  ultimately show ?thesis by (simp add: struct_wf_def)
qed

text \<open>A free slot receives an address that no entry has.\<close>

lemma struct_claim:
  assumes "struct_wf n sf L R A f" and "k < length L" and "L ! k = Some p" and "A p = Some INVALID_ADDRESS"
    and "k div n = sf a" and "a \<noteq> INVALID_ADDRESS" and "\<And>q. live L R q \<Longrightarrow> A q \<noteq> Some a"
  shows "struct_wf n sf L R (A(p \<mapsto> a)) f"
proof -
  have p: "p \<notin> set R" using assms(1,2,3) unfolding struct_defs by blast
  have "pointers_valid L R (A(p \<mapsto> a)) f"
    using assms(1,4) unfolding struct_wf_def pointers_valid_def by auto
  moreover have "placed n sf L (A(p \<mapsto> a))"
    using assms unfolding struct_defs by (auto split: if_splits)
  moreover have "unique L R (A(p \<mapsto> a))"
    using assms(1,7) unfolding struct_wf_def unique_def by (auto split: if_splits)
  moreover have "full_set n s L (A(p \<mapsto> a))" if "full_set n s L A" for s
    using that assms(6) unfolding full_set_def by (metis fun_upd_other fun_upd_same)
  then have "replaced_full n sf L R (A(p \<mapsto> a))"
    using assms(1) p unfolding struct_wf_def replaced_full_def by auto
  ultimately show ?thesis using assms(1) by (simp add: struct_wf_def)
qed

text \<open>The object in a slot moves to the list of replaced entries, and a new object with another address takes
  its place.\<close>

lemma struct_replace:
  assumes "struct_wf n sf L R A f" and "k < length L" and "L ! k = Some p" and "A p = Some b"
    and "k div n = sf a" and "a \<noteq> INVALID_ADDRESS" and "\<And>q. live L R q \<Longrightarrow> A q \<noteq> Some a"
    and full: "full_set n (sf a) L A"
  shows "struct_wf n sf (L[k := Some f]) (R @ [p]) (A(f \<mapsto> a)) (Suc f)"
proof -
  have new: "A f = None" using assms(1) unfolding struct_wf_def pointers_valid_def by blast
  have dead: "\<not> live L R f" using assms(1) new unfolding struct_wf_def pointers_valid_def by blast
  have pf: "p \<noteq> f" using new assms(4) by auto
  have b: "b \<noteq> INVALID_ADDRESS" using full assms(2-5) unfolding full_set_def by force
  have sb: "sf b = sf a" using assms(1-5) b unfolding struct_defs by metis
  have lv: "live (L[k := Some f]) (R @ [p]) q \<longleftrightarrow> q = f \<or> live L R q" for q
    unfolding live_put [OF assms(2)] unfolding live_def using assms(2,3) by auto
  have lp: "live L R p" using assms(2,3) by (auto simp: live_def)
  have dist: "slots_distinct L" using assms(1) by (simp add: struct_wf_def)
  have apart: "replaced_apart L R" using assms(1) by (simp add: struct_wf_def)
  have fL: "L ! i \<noteq> Some f" if "i < length L" for i using dead that by (auto simp: live_def)
  have "slots_distinct (L[k := Some f])"
    using dist fL assms(2) unfolding slots_distinct_def by (auto simp: nth_list_update)
  moreover have "replaced_apart (L[k := Some f]) (R @ [p])"
  proof -
    have "p \<notin> set R" using apart assms(2,3) unfolding replaced_apart_def by blast
    moreover have "L[k := Some f] ! i \<noteq> Some p" if "i < length L" for i
      using dist that assms(2,3) pf unfolding slots_distinct_def by (auto simp: nth_list_update)
    moreover have "L[k := Some f] ! i \<noteq> Some q" if "q \<in> set R" "i < length L" for i q
      using apart that dead assms(2) unfolding replaced_apart_def live_def by (auto simp: nth_list_update)
    ultimately show ?thesis using apart unfolding replaced_apart_def by auto
  qed
  moreover have "pointers_valid (L[k := Some f]) (R @ [p]) (A(f \<mapsto> a)) (Suc f)"
    using assms(1) unfolding struct_wf_def pointers_valid_def lv by (auto simp: less_Suc_eq)
  moreover have "placed n sf (L[k := Some f]) (A(f \<mapsto> a))"
    using assms(1,2,5) fL unfolding struct_wf_def placed_def by (auto simp: nth_list_update split: if_splits)
  moreover have "unique (L[k := Some f]) (R @ [p]) (A(f \<mapsto> a))"
    using assms(1,7) unfolding struct_wf_def unique_def lv by (auto split: if_splits)
  moreover have "replaced_full n sf (L[k := Some f]) (R @ [p]) (A(f \<mapsto> a))"
  proof -
    have "full_set n s (L[k := Some f]) (A(f \<mapsto> a))" if "full_set n s L A" for s
      using full_set_put [OF that, of f k a] new assms(6) by simp
    then show ?thesis
      using assms(1,4) full b sb new dead pf unfolding struct_wf_def replaced_full_def live_def by auto
  qed
  ultimately show ?thesis by (simp add: struct_wf_def)
qed

text \<open>A replaced object is deleted.\<close>

lemma struct_delete:
  assumes "struct_wf n sf L R A f" and "p \<in> set R"
  shows "struct_wf n sf L (remove1 p R) (A(p := None)) f"
proof -
  have dist: "distinct R" and pL: "\<And>i. i < length L \<Longrightarrow> L ! i \<noteq> Some p"
    using assms unfolding struct_defs by auto
  then have R: "set (remove1 p R) = set R - {p}" by simp
  have lv: "live L (remove1 p R) q \<longleftrightarrow> live L R q \<and> q \<noteq> p" for q
    using R pL by (auto simp: live_def)
  have "replaced_apart L (remove1 p R)"
    using assms(1) R unfolding struct_wf_def replaced_apart_def by (simp add: distinct_remove1)
  moreover have "pointers_valid L (remove1 p R) (A(p := None)) f"
    using assms(1) unfolding struct_wf_def pointers_valid_def lv by auto
  moreover have "placed n sf L (A(p := None))"
    using assms(1) unfolding struct_wf_def placed_def by (auto split: if_splits)
  moreover have "unique L (remove1 p R) (A(p := None))"
    using assms(1) unfolding struct_wf_def unique_def lv by auto
  moreover have "full_set n s L (A(p := None))" if "full_set n s L A" for s
    using that pL unfolding full_set_def by (metis fun_upd_other)
  then have "replaced_full n sf L (remove1 p R) (A(p := None))"
    using assms(1) R unfolding struct_wf_def replaced_full_def by auto
  ultimately show ?thesis using assms(1) by (simp add: struct_wf_def)
qed

section \<open>The table of a directory\<close>

definition dir_addr :: "Directory \<Rightarrow> nat \<rightharpoonup> IntPtr" where
  "dir_addr d p = map_option de_address (dir_heap d p)"

definition dir_wf :: "nat \<Rightarrow> (IntPtr \<Rightarrow> nat) \<Rightarrow> nat list \<Rightarrow> Directory \<Rightarrow> bool" where
  "dir_wf n sf R d \<longleftrightarrow> struct_wf n sf (dir_list d) R (dir_addr d) (dir_fresh d)"

text \<open>A lookup only adds free entries.\<close>

definition extends :: "Directory \<Rightarrow> Directory \<Rightarrow> bool" where
  "extends d d' \<longleftrightarrow> length (dir_list d') = length (dir_list d) \<and> dir_num_entries d' = dir_num_entries d \<and>
     (\<forall>i < length (dir_list d). \<forall>p. dir_list d ! i = Some p \<longrightarrow> dir_list d' ! i = Some p) \<and>
     (\<forall>p a. dir_addr d p = Some a \<longrightarrow> dir_addr d' p = Some a)"

lemma extends_refl: "extends d d"
  by (simp add: extends_def)

lemma extends_trans: "extends d d' \<Longrightarrow> extends d' d'' \<Longrightarrow> extends d d''"
  by (simp add: extends_def)

lemma create_effect:
  assumes "createDirectoryEntry d = (p, d')"
  shows "p = dir_fresh d" and "dir_list d' = dir_list d" and "dir_addr d' = (dir_addr d)(p \<mapsto> INVALID_ADDRESS)"
    and "dir_fresh d' = Suc (dir_fresh d)" and "dir_num_entries d' = dir_num_entries d"
  using assms by (auto simp: createDirectoryEntry_def createDirectoryEntrySized_def DirectoryEntry_new_def Let_def
      dir_addr_def fun_eq_iff split: directory_type.splits prod.splits)

lemma dir_get_wf:
  assumes "dir_wf n sf R d" and "dir_getDirectoryEntry k d = Some (p, d')"
  shows "dir_wf n sf R d' \<and> extends d d' \<and> unat k < length (dir_list d) \<and> dir_list d' ! unat k = Some p"
proof (cases "dir_list d ! unat k")
  case (Some q)
  then show ?thesis
    using assms by (auto simp: dir_getDirectoryEntry_def extends_refl abort_simps)
next
  case None
  obtain q d1 where c: "createDirectoryEntry d = (q, d1)" by fastforce
  note ce = create_effect [OF c]
  have k: "unat k < length (dir_list d)"
    and d': "d' = d1\<lparr>dir_list := (dir_list d1)[unat k := Some q], dir_num_entries_allocated := dir_num_entries_allocated d1 + 1\<rparr>"
    and p: "p = q"
    using assms(2) None c by (auto simp: dir_getDirectoryEntry_def Let_def abort_simps)
  have a: "dir_addr d' = (dir_addr d)(q \<mapsto> INVALID_ADDRESS)" using ce(3) by (simp add: d' dir_addr_def fun_eq_iff)
  have l: "dir_list d' = (dir_list d)[unat k := Some q]" by (simp add: d' ce(2))
  have new: "dir_addr d q = None"
    using assms(1) ce(1) unfolding dir_wf_def struct_wf_def pointers_valid_def by blast
  have "dir_wf n sf R d'"
    using struct_create [OF assms(1) [unfolded dir_wf_def] k None] by (simp add: dir_wf_def a l ce(1)) (simp add: d' ce(4))
  moreover have "extends d d'"
    using None new k ce(5) unfolding extends_def a l by (auto simp: d' nth_list_update)
  ultimately show ?thesis using k l p by simp
qed

lemma find_entry_ConsE:
  assumes "find_entry P (k # ks) d = Some (r, d')"
  obtains (hit) p e where "dir_getDirectoryEntry k d = Some (p, d')" "dir_heap d' p = Some e" "P e" "r = Some (k, p)"
  | (skip) p d1 e where "dir_getDirectoryEntry k d = Some (p, d1)" "dir_heap d1 p = Some e" "\<not> P e"
      "find_entry P ks d1 = Some (r, d')"
proof -
  obtain p d1 where g: "dir_getDirectoryEntry k d = Some (p, d1)"
    using assms by (auto simp: abort_simps)
  moreover obtain e where e: "dir_heap d1 p = Some e"
    using assms g by (auto simp: abort_simps)
  ultimately show thesis
    using assms hit [of p e] skip [of p d1 e] by (cases "P e") auto
qed

lemma find_entry_wf:
  assumes "dir_wf n sf R d" and "find_entry P ks d = Some (r, d')"
  shows "dir_wf n sf R d' \<and> extends d d'"
  using assms
proof (induction ks arbitrary: d)
  case Nil
  then show ?case by (simp add: extends_refl)
next
  case (Cons k ks)
  from Cons.prems(2) show ?case
  proof (cases rule: find_entry_ConsE)
    case (hit p e)
    then show ?thesis using dir_get_wf [OF Cons.prems(1)] by blast
  next
    case (skip p d1 e)
    then show ?thesis using dir_get_wf [OF Cons.prems(1)] Cons.IH [of d1] extends_trans by blast
  qed
qed

lemma find_entry_found:
  assumes "dir_wf n sf R d" and "find_entry P ks d = Some (Some (k, p), d')"
  shows "k \<in> set ks \<and> unat k < length (dir_list d') \<and> dir_list d' ! unat k = Some p \<and> (\<exists>e. dir_heap d' p = Some e \<and> P e)"
  using assms
proof (induction ks arbitrary: d)
  case (Cons j ks)
  from Cons.prems(2) show ?case
  proof (cases rule: find_entry_ConsE)
    case (hit q e)
    then show ?thesis using dir_get_wf [OF Cons.prems(1)] by (auto simp: extends_def)
  next
    case (skip q d1 e)
    then show ?thesis using dir_get_wf [OF Cons.prems(1) skip(1)] Cons.IH [of d1] by auto
  qed
qed simp

lemma find_entry_missing:
  assumes "dir_wf n sf R d" and "find_entry (\<lambda>e. de_address e = x) ks d = Some (None, d')" and "k \<in> set ks"
  shows "\<exists>p b. unat k < length (dir_list d') \<and> dir_list d' ! unat k = Some p \<and> dir_addr d' p = Some b \<and> b \<noteq> x"
  using assms
proof (induction ks arbitrary: d)
  case (Cons j ks)
  from Cons.prems(2) show ?case
  proof (cases rule: find_entry_ConsE)
    case (skip q d1 e)
    note w = dir_get_wf [OF Cons.prems(1) skip(1)]
    show ?thesis
    proof (cases "k = j")
      case True
      have "extends d1 d'" using find_entry_wf [OF conjunct1 [OF w] skip(4)] by simp
      moreover have "dir_addr d1 q = Some (de_address e)" using skip(2) by (simp add: dir_addr_def)
      moreover have "dir_list d1 ! unat k = Some q" "unat k < length (dir_list d1)"
        using w True by (simp_all add: extends_def)
      ultimately show ?thesis using skip(3) by (auto simp: extends_def)
    next
      case False
      then show ?thesis using w skip(4) Cons.IH [of d1] Cons.prems(3) by auto
    qed
  qed simp
qed simp

lemma get_entries_wf:
  assumes "dir_wf n sf R d" and "get_entries ks d = Some (ps, d')"
  shows "dir_wf n sf R d' \<and> extends d d' \<and>
    (\<forall>p \<in> set ps. \<exists>k \<in> set ks. unat k < length (dir_list d') \<and> dir_list d' ! unat k = Some p)"
  using assms
proof (induction ks arbitrary: d ps)
  case Nil
  then show ?case by (simp add: extends_refl)
next
  case (Cons k ks)
  obtain p d1 qs where g: "dir_getDirectoryEntry k d = Some (p, d1)" and r: "get_entries ks d1 = Some (qs, d')"
    and ps: "ps = p # qs"
    using Cons.prems(2) by (auto simp: abort_simps)
  note w = dir_get_wf [OF Cons.prems(1) g]
  have ih: "dir_wf n sf R d' \<and> extends d1 d' \<and>
    (\<forall>p \<in> set qs. \<exists>k \<in> set ks. unat k < length (dir_list d') \<and> dir_list d' ! unat k = Some p)"
    using Cons.IH [OF _ r] w by blast
  moreover have "dir_list d' ! unat k = Some p" "unat k < length (dir_list d')"
    using w ih by (auto simp: extends_def)
  ultimately show ?case using w extends_trans [of d d1 d'] by (auto simp: ps)
qed

section \<open>The directory cache\<close>

definition dc_set :: "DramDirectoryCache \<Rightarrow> IntPtr \<Rightarrow> nat" where
  "dc_set c a = unat (snd (dc_splitAddress c a))"

definition dc_geometry :: "DramDirectoryCache \<Rightarrow> bool" where
  "dc_geometry c \<longleftrightarrow> 0 < unat (dc_associativity c) \<and> dc_num_sets c \<noteq> 0 \<and>
     length (dir_list (dc_directory c)) = unat (dir_num_entries (dc_directory c)) \<and>
     unat (dc_num_sets c) * unat (dc_associativity c) \<le> length (dir_list (dc_directory c))"

definition dc_wf :: "DramDirectoryCache \<Rightarrow> bool" where
  "dc_wf c \<longleftrightarrow> dc_geometry c \<and>
     dir_wf (unat (dc_associativity c)) (dc_set c) (dc_replaced c) (dc_directory c)"

lemma dc_set_frame [simp]:
  "dc_set (c\<lparr>dc_directory := d\<rparr>) = dc_set c" "dc_set (c\<lparr>dc_replaced := R\<rparr>) = dc_set c"
  "dc_set (c\<lparr>dc_replacement_ptrs := P\<rparr>) = dc_set c"
  by (simp_all add: dc_set_def dc_splitAddress_def Let_def fun_eq_iff)

lemma dc_set_range:
  assumes "dc_geometry c"
  shows "dc_set c a < unat (dc_num_sets c)"
proof -
  have "dc_num_sets c \<noteq> 0" using assms by (simp add: dc_geometry_def)
  then have "unat (dc_num_sets c - 1) < unat (dc_num_sets c)"
    by (simp add: unat_minus_one unat_gt_0)
  moreover have "snd (dc_splitAddress c a) \<le> dc_num_sets c - 1"
    by (simp add: dc_splitAddress_def Let_def word_and_le1)
  ultimately show ?thesis by (simp add: dc_set_def word_le_nat_alt)
qed

lemma slot_unat:
  assumes "dc_geometry c" and "j < unat (dc_associativity c)"
  shows "unat (snd (dc_splitAddress c a) * dc_associativity c + of_nat j)
    = dc_set c a * unat (dc_associativity c) + j"
proof -
  have lt: "(dc_set c a + 1) * unat (dc_associativity c) \<le> unat (dc_num_sets c) * unat (dc_associativity c)"
    using dc_set_range [OF assms(1), of a] by (intro mult_le_mono) simp_all
  have bound: "dc_set c a * unat (dc_associativity c) + j < 2 ^ 32"
    using lt assms unat_lt2p [of "dir_num_entries (dc_directory c)"] unfolding dc_geometry_def by simp
  have "snd (dc_splitAddress c a) * dc_associativity c + of_nat j
      = of_nat (dc_set c a * unat (dc_associativity c) + j)"
    by (simp add: dc_set_def)
  then show ?thesis using bound by (simp only: unat_of_nat) simp
qed

lemma slot_in_set:
  assumes "dc_geometry c" and "k \<in> set (dc_slots c (snd (dc_splitAddress c a)))"
  shows "unat k div unat (dc_associativity c) = dc_set c a"
proof -
  obtain j where "j < unat (dc_associativity c)" and "k = snd (dc_splitAddress c a) * dc_associativity c + of_nat j"
    using assms(2) by (auto simp: dc_slots_def)
  then show ?thesis using slot_unat [OF assms(1)] by simp
qed

lemma set_in_slots:
  assumes "dc_geometry c" and "i < length (dir_list (dc_directory c))" and "i div unat (dc_associativity c) = dc_set c a"
  shows "\<exists>k \<in> set (dc_slots c (snd (dc_splitAddress c a))). unat k = i"
proof -
  define j where "j = i mod unat (dc_associativity c)"
  have j: "j < unat (dc_associativity c)" using assms(1) by (simp add: j_def dc_geometry_def)
  have "i = dc_set c a * unat (dc_associativity c) + j"
    using assms(3) by (metis div_mult_mod_eq j_def)
  then show ?thesis
    using slot_unat [OF assms(1) j, of a] j unfolding dc_slots_def by (intro bexI) auto
qed

lemma geometry_extends:
  "dc_geometry c \<Longrightarrow> extends (dc_directory c) d \<Longrightarrow> dc_geometry (c\<lparr>dc_directory := d\<rparr>)"
  by (simp add: dc_geometry_def extends_def)

text \<open>After an unsuccessful search of a set no entry of the table has the address.\<close>

lemma missing_everywhere:
  assumes g: "dc_geometry c" and wf: "dir_wf (unat (dc_associativity c)) (dc_set c) R d" and ext: "extends (dc_directory c) d"
    and "a \<noteq> INVALID_ADDRESS"
    and none: "\<And>k. k \<in> set (dc_slots c (snd (dc_splitAddress c a))) \<Longrightarrow>
      \<exists>p b. dir_list d ! unat k = Some p \<and> dir_addr d p = Some b \<and> b \<noteq> a"
    and i: "i < length (dir_list d)" "dir_list d ! i = Some p"
  shows "dir_addr d p \<noteq> Some a"
proof
  assume a: "dir_addr d p = Some a"
  then have "i div unat (dc_associativity c) = dc_set c a"
    using wf i assms(4) unfolding dir_wf_def struct_wf_def placed_def by blast
  moreover have "i < length (dir_list (dc_directory c))" using i ext by (simp add: extends_def)
  ultimately obtain k where "k \<in> set (dc_slots c (snd (dc_splitAddress c a)))" "unat k = i"
    using set_in_slots [OF g] by blast
  then show False using none [of k] i a by auto
qed

lemma search_full:
  assumes g: "dc_geometry c" and ext: "extends (dc_directory c) d"
    and none: "\<And>k. k \<in> set (dc_slots c (snd (dc_splitAddress c a))) \<Longrightarrow>
      \<exists>p b. dir_list d ! unat k = Some p \<and> dir_addr d p = Some b \<and> b \<noteq> INVALID_ADDRESS"
  shows "full_set (unat (dc_associativity c)) (dc_set c a) (dir_list d) (dir_addr d)"
  unfolding full_set_def
proof (intro allI impI)
  fix i
  assume i: "i < length (dir_list d)" "i div unat (dc_associativity c) = dc_set c a"
  then obtain k where "k \<in> set (dc_slots c (snd (dc_splitAddress c a)))" "unat k = i"
    using set_in_slots [OF g] ext by (auto simp: extends_def)
  then show "\<exists>q b. dir_list d ! i = Some q \<and> dir_addr d q = Some b \<and> b \<noteq> INVALID_ADDRESS"
    using none [of k] by auto
qed

text \<open>What a lookup establishes; when it finds nothing, the set is full and no live entry has the address.\<close>

definition absent :: "IntPtr \<Rightarrow> DramDirectoryCache \<Rightarrow> bool" where
  "absent a c \<longleftrightarrow> full_set (unat (dc_associativity c)) (dc_set c a) (dir_list (dc_directory c)) (dir_addr (dc_directory c)) \<and>
     (\<forall>q. live (dir_list (dc_directory c)) (dc_replaced c) q \<longrightarrow> dir_addr (dc_directory c) q \<noteq> Some a)"

lemma find_replaced_None:
  "find_replaced a ps d = Some None \<Longrightarrow> p \<in> set ps \<Longrightarrow> dir_addr d p \<noteq> Some a"
  by (induction ps) (auto simp: abort_simps dir_addr_def split: if_splits)

lemma find_replaced_Some:
  "find_replaced a ps d = Some (Some p) \<Longrightarrow> p \<in> set ps \<and> dir_addr d p = Some a"
  by (induction ps) (auto simp: abort_simps dir_addr_def split: if_splits)

lemma set_address_addr:
  "dir_heap d p = Some e \<Longrightarrow> dir_addr (update_entry p (\<lambda>e. e\<lparr>de_address := a\<rparr>) d) = (dir_addr d)(p \<mapsto> a)"
  by (simp add: update_entry_def dir_addr_def fun_eq_iff)

lemma dc_get_wf:
  assumes wf: "dc_wf c" and a: "a \<noteq> INVALID_ADDRESS" and get: "dc_getDirectoryEntry a c = Some (r, c')"
  shows "dc_wf c' \<and> (case r of None \<Rightarrow> absent a c' | Some p \<Rightarrow>
     live (dir_list (dc_directory c')) (dc_replaced c') p \<and> dir_addr (dc_directory c') p = Some a)"
proof -
  let ?n = "unat (dc_associativity c)" and ?ks = "dc_slots c (snd (dc_splitAddress c a))"
  have g: "dc_geometry c" and w0: "dir_wf ?n (dc_set c) (dc_replaced c) (dc_directory c)"
    using wf by (auto simp: dc_wf_def)
  from get show ?thesis
  proof (cases rule: dc_get_cases)
    case (found k p d1)
    note w = find_entry_wf [OF w0 found(1)]
    show ?thesis
      using find_entry_found [OF w0 found(1)] w geometry_extends [OF g]
      by (auto simp: found dc_wf_def live_def dir_addr_def)
  next
    case (free k p d1 d2)
    note w1 = find_entry_wf [OF w0 free(1)]
    note w2 = find_entry_wf [OF conjunct1 [OF w1] free(2)]
    have ext: "extends (dc_directory c) d2" using w1 w2 extends_trans by blast
    obtain e where e: "dir_heap d2 p = Some e" "de_address e = INVALID_ADDRESS"
      and k: "k \<in> set ?ks" "unat k < length (dir_list d2)" "dir_list d2 ! unat k = Some p"
      using find_entry_found [OF conjunct1 [OF w1] free(2)] by blast
    have none: "\<exists>p b. dir_list d2 ! unat k = Some p \<and> dir_addr d2 p = Some b \<and> b \<noteq> a" if "k \<in> set ?ks" for k
      using find_entry_missing [OF w0 free(1) that] w2 by (auto simp: extends_def)
    have pa: "dir_addr d2 p = Some INVALID_ADDRESS" using e by (simp add: dir_addr_def)
    have "dir_addr d2 q \<noteq> Some a" if "live (dir_list d2) (dc_replaced c) q" for q
    proof (cases "q \<in> set (dc_replaced c)")
      case True
      show ?thesis
      proof
        assume "dir_addr d2 q = Some a"
        then have "full_set ?n (dc_set c a) (dir_list d2) (dir_addr d2)"
          using w2 True unfolding dir_wf_def struct_wf_def replaced_full_def by blast
        then show False
          using k slot_in_set [OF g k(1)] pa unfolding full_set_def by force
      qed
    next
      case False
      then show ?thesis
        using that missing_everywhere [OF g conjunct1 [OF w2] ext a none] by (auto simp: live_def)
    qed
    then have "struct_wf ?n (dc_set c) (dir_list d2) (dc_replaced c) ((dir_addr d2)(p \<mapsto> a)) (dir_fresh d2)"
      using struct_claim [OF conjunct1 [OF w2, unfolded dir_wf_def] k(2,3) pa slot_in_set [OF g k(1)] a] by blast
    moreover have "dc_geometry c'" using geometry_extends [OF g ext] by (simp add: free dc_geometry_def update_entry_def)
    ultimately have "dc_wf c'"
      using set_address_addr [OF e(1), of a] by (simp add: free(4) dc_wf_def dir_wf_def) (simp add: update_entry_def)
    moreover have "live (dir_list (dc_directory c')) (dc_replaced c') p"
      using k by (auto simp: free live_def update_entry_def)
    moreover have "dir_addr (dc_directory c') p = Some a"
      using set_address_addr [OF e(1), of a] by (simp add: free)
    ultimately show ?thesis using free(3) by simp
  next
    case (full d1 d2)
    note w1 = find_entry_wf [OF w0 full(1)]
    note w2 = find_entry_wf [OF conjunct1 [OF w1] full(2)]
    have ext: "extends (dc_directory c) d2" using w1 w2 extends_trans by blast
    have wf': "dc_wf c'" using w2 geometry_extends [OF g ext] by (simp add: full dc_wf_def)
    show ?thesis
    proof (cases r)
      case None
      have none: "\<exists>p b. dir_list d2 ! unat k = Some p \<and> dir_addr d2 p = Some b \<and> b \<noteq> a" if "k \<in> set ?ks" for k
        using find_entry_missing [OF w0 full(1) that] w2 by (auto simp: extends_def)
      have "dir_addr d2 q \<noteq> Some a" if "live (dir_list d2) (dc_replaced c) q" for q
        using that missing_everywhere [OF g conjunct1 [OF w2] ext a none]
          find_replaced_None [OF full(3) [unfolded None]] by (auto simp: live_def)
      moreover have "full_set ?n (dc_set c a) (dir_list d2) (dir_addr d2)"
        using search_full [OF g ext] find_entry_missing [OF conjunct1 [OF w1] full(2)] by blast
      ultimately show ?thesis using wf' None by (simp add: absent_def full)
    next
      case (Some p)
      then show ?thesis
        using wf' find_replaced_Some [of a "dc_replaced c" d2 p] full by (auto simp: live_def)
    qed
  qed
qed

lemma full_set_extends:
  assumes "full_set n s (dir_list d) (dir_addr d)" and "extends d d'"
  shows "full_set n s (dir_list d') (dir_addr d')"
  using assms unfolding full_set_def extends_def by metis

lemma absent_extends:
  assumes "dc_wf c" and "absent a c" and "a \<noteq> INVALID_ADDRESS" and ext: "extends (dc_directory c) d"
    and wf': "dc_wf (c\<lparr>dc_directory := d\<rparr>)"
  shows "absent a (c\<lparr>dc_directory := d\<rparr>)"
proof -
  have full: "full_set (unat (dc_associativity c)) (dc_set c a) (dir_list (dc_directory c)) (dir_addr (dc_directory c))"
    and no: "\<And>q. live (dir_list (dc_directory c)) (dc_replaced c) q \<Longrightarrow> dir_addr (dc_directory c) q \<noteq> Some a"
    using assms(2) by (auto simp: absent_def)
  have known: "dir_addr d q \<noteq> Some a" if l: "live (dir_list (dc_directory c)) (dc_replaced c) q" for q
  proof -
    obtain b where "dir_addr (dc_directory c) q = Some b"
      using assms(1) l unfolding dc_wf_def dir_wf_def struct_wf_def pointers_valid_def by blast
    then show ?thesis using no [OF l] ext by (auto simp: extends_def)
  qed
  have "dir_addr d q \<noteq> Some a" if l: "live (dir_list d) (dc_replaced c) q" for q
  proof
    assume q: "dir_addr d q = Some a"
    show False
    proof (cases "q \<in> set (dc_replaced c)")
      case True
      then show False using known [of q] q by (simp add: live_def)
    next
      case False
      then obtain i where i: "i < length (dir_list d)" "dir_list d ! i = Some q" using l by (auto simp: live_def)
      then have "i div unat (dc_associativity c) = dc_set c a"
        using wf' q assms(3) unfolding dc_wf_def dir_wf_def struct_wf_def placed_def by simp
      moreover have "i < length (dir_list (dc_directory c))" using i ext by (simp add: extends_def)
      ultimately obtain q' where "dir_list (dc_directory c) ! i = Some q'"
        using full unfolding full_set_def by blast
      then have "live (dir_list (dc_directory c)) (dc_replaced c) q"
        using i ext unfolding extends_def live_def by auto
      then show False using known q by blast
    qed
  qed
  then show ?thesis using full_set_extends [OF full ext] by (simp add: absent_def)
qed

lemma candidates_wf:
  assumes "dc_wf c" and a: "a \<noteq> INVALID_ADDRESS" and "getReplacementCandidates a c = Some (ps, c1)"
  shows "dc_wf c1 \<and> absent a c1 \<and> (\<forall>p \<in> set ps. \<exists>b. dir_addr (dc_directory c1) p = Some b \<and>
     b \<noteq> INVALID_ADDRESS \<and> dc_set c1 b = dc_set c1 a)"
proof -
  obtain c0 ks d ptrs where 0: "dc_getDirectoryEntry a c = Some (None, c0)" and ge: "get_entries ks (dc_directory c0) = Some (ps, d)"
    and c1: "c1 = c0\<lparr>dc_directory := d, dc_replacement_ptrs := ptrs\<rparr>"
    and ks: "set ks \<subseteq> {snd (dc_splitAddress c0 a) * dc_associativity c0 + x mod dc_associativity c0 | x. True}"
    using assms(3) by (rule candidates_cases)
  let ?n = "unat (dc_associativity c0)"
  have wf0: "dc_wf c0" and ab0: "absent a c0" using dc_get_wf [OF assms(1) a 0] by auto
  have g: "dc_geometry c0" using wf0 by (simp add: dc_wf_def)
  have w: "dir_wf ?n (dc_set c0) (dc_replaced c0) d" and ext: "extends (dc_directory c0) d"
    and slots: "\<And>p. p \<in> set ps \<Longrightarrow> \<exists>k \<in> set ks. unat k < length (dir_list d) \<and> dir_list d ! unat k = Some p"
    using get_entries_wf [OF _ ge] wf0 by (auto simp: dc_wf_def)
  have wf1: "dc_wf (c0\<lparr>dc_directory := d\<rparr>)" using w geometry_extends [OF g ext] by (simp add: dc_wf_def)
  have ab1: "absent a (c0\<lparr>dc_directory := d\<rparr>)" using absent_extends [OF wf0 ab0 a ext wf1] .
  have "\<exists>b. dir_addr d p = Some b \<and> b \<noteq> INVALID_ADDRESS \<and> dc_set c0 b = dc_set c0 a" if p: "p \<in> set ps" for p
  proof -
    obtain k x where k: "unat k < length (dir_list d)" "dir_list d ! unat k = Some p"
      and kx: "k = snd (dc_splitAddress c0 a) * dc_associativity c0 + x mod dc_associativity c0"
      using slots [OF p] ks by blast
    have pos: "0 < ?n" using g by (simp add: dc_geometry_def)
    then have lt: "unat (x mod dc_associativity c0) < ?n" by (simp add: unat_mod)
    have kd: "unat k div ?n = dc_set c0 a"
      using slot_unat [OF g lt, of a] lt by (simp add: kx)
    then obtain b where b: "dir_addr d p = Some b" "b \<noteq> INVALID_ADDRESS"
      using ab1 k unfolding absent_def full_set_def by force
    moreover have "dc_set c0 b = dc_set c0 a"
      using w k b kd unfolding dir_wf_def struct_wf_def placed_def by metis
    ultimately show ?thesis by blast
  qed
  then show ?thesis using wf1 ab1 by (simp add: c1 dc_wf_def dc_geometry_def absent_def)
qed

lemma replace_wf:
  assumes wf: "dc_wf c" and ab: "absent a c" and a: "a \<noteq> INVALID_ADDRESS" and same: "dc_set c ra = dc_set c a"
    and "replaceDirectoryEntry ra a c = Some (q, c')"
  shows "dc_wf c'"
proof -
  let ?n = "unat (dc_associativity c)"
  obtain k p d1 d2 where
    fe: "find_entry (\<lambda>e. de_address e = ra) (dc_slots c (snd (dc_splitAddress c ra))) (dc_directory c) = Some (Some (k, p), d1)"
    and cr: "createDirectoryEntry d1 = (q, d2)"
    and c': "c' = c\<lparr>dc_directory := (update_entry q (\<lambda>e. e\<lparr>de_address := a\<rparr>) d2)\<lparr>dir_list := (dir_list d2)[unat k := Some q]\<rparr>,
       dc_replaced := dc_replaced c @ [p]\<rparr>"
    using assms(5) by (rule replace_cases)
  have g: "dc_geometry c" and w0: "dir_wf ?n (dc_set c) (dc_replaced c) (dc_directory c)" using wf by (auto simp: dc_wf_def)
  note w1 = find_entry_wf [OF w0 fe]
  note ce = create_effect [OF cr]
  have wf1: "dc_wf (c\<lparr>dc_directory := d1\<rparr>)" using w1 geometry_extends [OF g] by (simp add: dc_wf_def)
  have ab1: "absent a (c\<lparr>dc_directory := d1\<rparr>)" using absent_extends [OF wf ab a] w1 wf1 by blast
  obtain e where k: "k \<in> set (dc_slots c (snd (dc_splitAddress c ra)))" "unat k < length (dir_list d1)"
    "dir_list d1 ! unat k = Some p" and e: "dir_heap d1 p = Some e"
    using find_entry_found [OF w0 fe] by blast
  have pa: "dir_addr d1 p = Some (de_address e)" using e by (simp add: dir_addr_def)
  have kd: "unat k div ?n = dc_set c a" using slot_in_set [OF g k(1)] same by simp
  have s: "struct_wf ?n (dc_set c) ((dir_list d1)[unat k := Some (dir_fresh d1)]) (dc_replaced c @ [p])
      ((dir_addr d1)(dir_fresh d1 \<mapsto> a)) (Suc (dir_fresh d1))"
    using struct_replace [OF conjunct1 [OF w1, unfolded dir_wf_def] k(2,3) pa kd a] ab1 by (simp add: absent_def)
  have d: "dir_addr (dc_directory c') = (dir_addr d1)(q \<mapsto> a)"
  proof -
    obtain e2 where "dir_heap d2 q = Some e2" using create_heap [OF cr] by blast
    then show ?thesis using set_address_addr [of d2 q e2 a] ce(3)
      by (simp add: c' dir_addr_def fun_eq_iff)
  qed
  moreover have "dir_list (dc_directory c') = (dir_list d1)[unat k := Some q]" using ce(2) by (simp add: c')
  moreover have "dir_fresh (dc_directory c') = Suc (dir_fresh d1)" using ce(4) by (simp add: c' update_entry_def)
  moreover have "dc_geometry c'"
    using wf1 ce(2,5) by (simp add: c' dc_wf_def dc_geometry_def update_entry_def)
  moreover have "dc_replaced c' = dc_replaced c @ [p]" "dc_associativity c' = dc_associativity c" "dc_set c' = dc_set c"
    by (simp_all add: c')
  ultimately show ?thesis using s unfolding dc_wf_def dir_wf_def ce(1) by simp
qed

interpretation one_entry: directory_invariant "\<lambda>a. a \<noteq> INVALID_ADDRESS" dc_wf
proof (unfold_locales, goal_cases)
  case (1 c a r c')
  then show ?case using dc_get_wf by blast
next
  case (2 c a ps c1 p e q c2)
  have w: "dc_wf c1" "absent a c1" and b: "\<exists>b. dir_addr (dc_directory c1) p = Some b \<and>
     b \<noteq> INVALID_ADDRESS \<and> dc_set c1 b = dc_set c1 a"
    using candidates_wf [OF 2(1-3)] 2(4) by auto
  moreover have "dir_addr (dc_directory c1) p = Some (de_address e)" using 2(5) by (simp add: dir_addr_def dc_entry_def)
  ultimately show ?case using replace_wf [OF w 2(2) _ 2(6)] by auto
next
  case (3 c a c')
  then obtain p where p: "find_replaced a (dc_replaced c) (dc_directory c) = Some (Some p)"
    and c': "c' = c\<lparr>dc_directory := (dc_directory c)\<lparr>dir_heap := (dir_heap (dc_directory c))(p := None)\<rparr>,
       dc_replaced := remove1 p (dc_replaced c)\<rparr>"
    by (auto simp: invalidateDirectoryEntry_def abort_simps)
  have "dir_addr (dc_directory c') = (dir_addr (dc_directory c))(p := None)"
    by (simp add: c' dir_addr_def fun_eq_iff)
  then show ?case
    using struct_delete [of _ _ _ "dc_replaced c" _ _ p] find_replaced_Some [OF p] 3(1)
    by (simp add: dc_wf_def dir_wf_def) (simp add: c' dc_geometry_def)
next
  case (4 c p e e')
  have "dir_addr (dc_directory (dc_update p e' c)) = dir_addr (dc_directory c)"
    using 4(2,3) by (auto simp: dir_addr_def dc_update_def dc_entry_def evolves_def fun_eq_iff)
  then show ?case
    using 4(1) by (simp add: dc_wf_def dir_wf_def) (simp add: dc_update_def dc_geometry_def)
qed

lemma DramDirectoryCache_new_wf:
  assumes "DramDirectoryCache_new garbage cfg_penalty ptrs type_str total_entries associativity cache_block_size
     max_hw_sharers max_num_sharers access_time = Some c"
  shows "dc_wf c \<and> dir_ok (dc_directory c)"
proof -
  obtain d where d: "Directory_new garbage cfg_penalty type_str total_entries max_hw_sharers max_num_sharers = Some d"
    and assoc: "associativity \<noteq> 0" and sets: "total_entries div associativity \<noteq> 0"
    and c: "dc_directory c = d" "dc_associativity c = associativity" "dc_num_sets c = total_entries div associativity"
      "dc_replaced c = []"
    using assms by (auto simp: DramDirectoryCache_new_def Let_def abort_simps)
  have l: "dir_list d = replicate (unat total_entries) None" "dir_num_entries d = total_entries" "dir_heap d = Map.empty"
    "dir_use_max_hw_sharers d = max_hw_sharers" "dir_max_hw_sharers d = max_hw_sharers"
    using d by (auto simp: Directory_new_def abort_simps)
  have "unat (total_entries div associativity) * unat associativity \<le> unat total_entries"
    by (simp add: unat_div)
  moreover have "0 < unat associativity" using assoc by (simp add: unat_gt_0)
  ultimately have "dc_geometry c" using sets by (simp add: dc_geometry_def c l)
  moreover have "dir_wf n sf [] d" for n sf
    by (simp add: dir_wf_def struct_defs live_def l dir_addr_def)
  moreover have "dir_ok d" by (simp add: dir_ok_def dir_limit_def l)
  ultimately show ?thesis by (simp add: dc_wf_def c)
qed

end
