(* ===== verification/Nuca.thy ===== *)
theory Nuca
  imports Caches Shmem
begin

text \<open>
  The last-level cache in front of the DRAM, \<^verbatim>\<open>parametric_dram_directory_msi/nuca_cache.cc\<close>, which a
  directory controller may have. Its data array is a \<^verbatim>\<open>Cache\<close>; latencies are not modelled.
\<close>

text \<open>What uninitialised local variables of the controllers hold.\<close>

record uninit =
  un_flag :: bool
  un_address :: IntPtr
  un_buf :: "u8 list"
  un_where :: where_t

record NucaCache =
  nc_cache :: Cache
  nc_cache_block_size :: u32
  nc_reads :: u64
  nc_writes :: u64
  nc_read_misses :: u64
  nc_write_misses :: u64

definition NucaCache_new :: "cache_config \<Rightarrow> u32 \<Rightarrow> u32 \<Rightarrow> u32 \<Rightarrow> string \<Rightarrow> string \<Rightarrow> AddressHomeLookup option \<Rightarrow> NucaCache option" where
  "NucaCache_new cfg num_sets associativity cache_block_size policy_name hash_function home_lookup = do {
     hash \<leftarrow> parseAddressHash hash_function;
     c \<leftarrow> Cache_new cfg num_sets associativity cache_block_size policy_name PR_L1_CACHE hash home_lookup;
     Some \<lparr>nc_cache = c, nc_cache_block_size = cache_block_size, nc_reads = 0, nc_writes = 0, nc_read_misses = 0,
       nc_write_misses = 0\<rparr>
   }"

text \<open>The result of a read: where it hit, and the contents of the buffer.\<close>

definition nuca_read :: "uninit \<Rightarrow> IntPtr \<Rightarrow> bool \<Rightarrow> NucaCache \<Rightarrow> (where_t \<times> u8 list \<times> NucaCache) option" where
  "nuca_read u address count n = do {
     block_info \<leftarrow> peekSingleLine address (nc_cache n);
     (hit_where, data, n1) \<leftarrow> (case block_info of
         Some p \<Rightarrow> do {
           (pos, data, c) \<leftarrow> accessSingleLine address LOAD None (unat (nc_cache_block_size n)) True (nc_cache n);
           Some (HW_NUCA_CACHE, case data of Some d \<Rightarrow> d | None \<Rightarrow> un_buf u, n\<lparr>nc_cache := c\<rparr>)
         }
       | None \<Rightarrow> Some (HW_MISS, un_buf u, if count then n\<lparr>nc_read_misses := nc_read_misses n + 1\<rparr> else n));
     Some (hit_where, data, if count then n1\<lparr>nc_reads := nc_reads n1 + 1\<rparr> else n1)
   }"

record nuca_write_result =
  nw_where :: where_t
  nw_eviction :: bool
  nw_evict_address :: IntPtr
  nw_evict_buf :: "u8 list"

text \<open>On a hit the three output parameters are not assigned.\<close>

definition nuca_write :: "uninit \<Rightarrow> IntPtr \<Rightarrow> u8 list option \<Rightarrow> bool \<Rightarrow> NucaCache \<Rightarrow> (nuca_write_result \<times> NucaCache) option" where
  "nuca_write u address data_buf count n = do {
     block_info \<leftarrow> peekSingleLine address (nc_cache n);
     (r, n1) \<leftarrow> (case block_info of
         Some p \<Rightarrow> do {
           (pos, d, c) \<leftarrow> accessSingleLine address STORE data_buf (unat (nc_cache_block_size n)) True
             (update_line p (\<lambda>b. b\<lparr>bi_cstate := MODIFIED\<rparr>) (nc_cache n));
           Some (\<lparr>nw_where = HW_NUCA_CACHE, nw_eviction = un_flag u, nw_evict_address = un_address u,
             nw_evict_buf = un_buf u\<rparr>, n\<lparr>nc_cache := c\<rparr>)
         }
       | None \<Rightarrow> do {
           (i, evict_address, c) \<leftarrow> insertSingleLine address data_buf
             (CacheBlockInfo_new (- 1) INVALID 0 (PrL1Block False)) None (nc_cache n);
           Some (\<lparr>nw_where = HW_MISS,
             nw_eviction = (ins_eviction i \<and> bi_cstate (ins_evict_info i) = MODIFIED),
             nw_evict_address = (if ins_eviction i then evict_address else un_address u),
             nw_evict_buf = (case ins_evict_buff i of Some d \<Rightarrow> d | None \<Rightarrow> un_buf u)\<rparr>,
             n\<lparr>nc_cache := c, nc_write_misses := (if count then nc_write_misses n + 1 else nc_write_misses n)\<rparr>)
         });
     Some (r, if count then n1\<lparr>nc_writes := nc_writes n1 + 1\<rparr> else n1)
   }"

section \<open>Lines of the cache\<close>

lemma peek_abs:
  assumes "cache_wf c" and "cache_key c a = Some (i, tag)" and "peekSingleLine a c = Some r"
  shows "(r = None \<longleftrightarrow> cache_abs c (i, tag) = None)"
proof -
  obtain s where sp: "splitAddress (ca_base c) a = Some (tag, s)" and i: "i = unat s"
    using assms(2) by (auto simp: cache_key_def)
  then have len: "i < length (ca_sets c)" and r: "r = map_option (\<lambda>j. (i, j)) (cs_find tag (ca_sets c ! i))"
    using assms(3) by (auto simp: peekSingleLine_def abort_simps)
  have "tag \<noteq> - 1" using tag_not_invalid [OF sp] assms(1) by (simp add: cache_wf_def)
  then show ?thesis using r len by (simp add: cache_abs_def set_abs_def)
qed

text \<open>A write that misses: the line is inserted in state \<open>INVALID\<close>, and the caller is told to write the victim
  back exactly when the victim is \<open>MODIFIED\<close>.\<close>

lemma nuca_write_miss:
  assumes wf: "cache_wf (nc_cache n)" and key: "cache_key (nc_cache n) a = Some (i, tag)"
    and w: "nuca_write u a d count n = Some (r, n')" and "nw_where r = HW_MISS"
  obtains line :: CacheBlockInfo and ins :: insert_result where "cache_wf (nc_cache n')" "ca_base (nc_cache n') = ca_base (nc_cache n)"
    "bi_cstate line = INVALID"
    "cache_abs (nc_cache n') = (if ins_eviction ins then (cache_abs (nc_cache n))((i, bi_tag (ins_evict_info ins)) := None)
        else cache_abs (nc_cache n))((i, tag) \<mapsto> line)"
    "nw_eviction r \<longleftrightarrow> ins_eviction ins \<and> bi_cstate (ins_evict_info ins) = MODIFIED"
    "ins_eviction ins \<Longrightarrow> \<exists>old. cache_abs (nc_cache n) (i, bi_tag (ins_evict_info ins)) = Some old \<and>
       bi_cstate (ins_evict_info ins) = bi_cstate old"
proof -
  obtain p where p: "peekSingleLine a (nc_cache n) = Some p"
    using w by (auto simp: nuca_write_def abort_simps)
  have none: "p = None"
  proof (rule ccontr)
    assume "p \<noteq> None"
    then obtain q where "p = Some q" by blast
    then have "nw_where r = HW_NUCA_CACHE" using w p by (auto simp: nuca_write_def abort_simps)
    then show False using assms(4) by simp
  qed
  then obtain ins ev c where ins: "insertSingleLine a d (CacheBlockInfo_new (- 1) INVALID 0 (PrL1Block False)) None (nc_cache n)
      = Some (ins, ev, c)"
    and c: "nc_cache n' = c" and e: "nw_eviction r \<longleftrightarrow> ins_eviction ins \<and> bi_cstate (ins_evict_info ins) = MODIFIED"
    using w p by (auto simp: nuca_write_def abort_simps)
  have fresh: "cache_abs (nc_cache n) (i, tag) = None" using peek_abs [OF wf key p] none by simp
  obtain line where "cache_wf c \<and> ca_base c = ca_base (nc_cache n) \<and> bi_cstate line = INVALID \<and>
      cache_abs c = (if ins_eviction ins then (cache_abs (nc_cache n))((i, bi_tag (ins_evict_info ins)) := None)
        else cache_abs (nc_cache n))((i, tag) \<mapsto> line)"
    using insert_effect [OF wf key fresh ins] by blast
  then show thesis
    using that [of line ins] e evicted_state(2) [OF wf key ins] c by blast
qed

section \<open>Properties\<close>

text \<open>C24. Data is lost in the NUCA cache: a block that is written once, on a miss, is inserted as a clean line.
  When the write of another block then replaces it, the caller is told that there is nothing to write back.\<close>

theorem nuca_block_written_once_is_dropped:
  assumes "cache_wf (nc_cache n)" and "cache_key (nc_cache n) a = Some (i, s)" and "cache_key (nc_cache n) b = Some (i, t)"
    and "nuca_write u a x count n = Some (r1, n1)" and "nw_where r1 = HW_MISS"
    and "nuca_write u b y count n1 = Some (r2, n2)" and "nw_where r2 = HW_MISS"
    and "cache_abs (nc_cache n2) (i, s) = None"
  shows "\<not> nw_eviction r2"
proof
  assume ev: "nw_eviction r2"
  obtain line where 1: "cache_wf (nc_cache n1)" "ca_base (nc_cache n1) = ca_base (nc_cache n)" "bi_cstate line = INVALID"
    "cache_abs (nc_cache n1) (i, s) = Some line"
    by (rule nuca_write_miss [OF assms(1,2,4,5)]) (auto split: if_splits)
  have key: "cache_key (nc_cache n1) b = Some (i, t)"
    using assms(3) cache_key_base [OF 1(2)] by simp
  obtain line2 and ins2 :: insert_result where 2: "cache_abs (nc_cache n2) = (if ins_eviction ins2
        then (cache_abs (nc_cache n1))((i, bi_tag (ins_evict_info ins2)) := None)
        else cache_abs (nc_cache n1))((i, t) \<mapsto> line2)"
    "nw_eviction r2 \<longleftrightarrow> ins_eviction ins2 \<and> bi_cstate (ins_evict_info ins2) = MODIFIED"
    "ins_eviction ins2 \<Longrightarrow> \<exists>old. cache_abs (nc_cache n1) (i, bi_tag (ins_evict_info ins2)) = Some old \<and>
       bi_cstate (ins_evict_info ins2) = bi_cstate old"
    by (rule nuca_write_miss [OF 1(1) key assms(6,7)]) blast
  have "bi_tag (ins_evict_info ins2) = s"
    using 2(1,2) ev assms(8) 1(4) by (auto split: if_splits)
  then show False using 2(2,3) ev 1(3,4) by auto
qed

theorem nuca_block_written_once_is_dropped_witness:
  "\<exists>u n r1 n1 r2 n2. nuca_write u 0 (Some [1]) True n = Some (r1, n1) \<and>
    nuca_write u 64 (Some [2]) True n1 = Some (r2, n2) \<and>
    cache_abs (nc_cache n1) (0, 0) \<noteq> None \<and> cache_abs (nc_cache n2) (0, 0) = None \<and> \<not> nw_eviction r2"
proof -
  let ?cfg = "\<lparr>cfg_fault_injection = False, cfg_qbs_attempts = 1, cfg_srrip_bits = 2, cfg_time = 0\<rparr>"
  let ?u = "\<lparr>un_flag = False, un_address = 0, un_buf = [], un_where = 0\<rparr>"
  let ?n = "the (NucaCache_new ?cfg 1 1 64 ''lru'' ''mask'' None)"
  let ?w1 = "the (nuca_write ?u 0 (Some [1]) True ?n)"
  let ?w2 = "the (nuca_write ?u 64 (Some [2]) True (snd ?w1))"
  have wf: "cache_wf (nc_cache ?n)" by code_simp
  have keys: "cache_key (nc_cache ?n) 0 = Some (0, 0)" "cache_key (nc_cache ?n) 64 = Some (0, 1)"
    by code_simp+
  have ne: "nuca_write ?u 0 (Some [1]) True ?n \<noteq> None" "nuca_write ?u 64 (Some [2]) True (snd ?w1) \<noteq> None"
    by code_simp+
  have 1: "nuca_write ?u 0 (Some [1]) True ?n = Some (fst ?w1, snd ?w1)"
    and 2: "nuca_write ?u 64 (Some [2]) True (snd ?w1) = Some (fst ?w2, snd ?w2)"
    using ne by simp_all
  have miss: "nw_where (fst ?w1) = HW_MISS" "nw_where (fst ?w2) = HW_MISS"
    by code_simp+
  have p1: "cache_abs (nc_cache (snd ?w1)) (0, 0) \<noteq> None" by code_simp
  have p2: "cache_abs (nc_cache (snd ?w2)) (0, 0) = None" by code_simp
  show ?thesis
    using nuca_block_written_once_is_dropped [OF wf keys 1 miss(1) 2 miss(2) p2] 1 2 p1 p2 by blast
qed

end
