(* ===== verification/DramDirectory.thy ===== *)
theory DramDirectory
  imports DirectoryStruct Nuca Queues
begin

text \<open>
  The controller of the tag directory, \<^verbatim>\<open>pr_l1_pr_l2_dram_directory_msi/dram_directory_cntlr.cc\<close>: the MSI,
  MESI and MESIF protocols at the home node of a line. The state is the directory cache, one queue of requests
  for every address, the optional NUCA cache and the counters; the messages the controller hands to the
  network are appended to \<open>dd_out\<close>. Simulated time and the accounting of it are not part of the model.

  The handlers call \<^verbatim>\<open>processNextReqFromL2Cache\<close>, which calls them again for the next request of the
  address. The handlers take it as the argument \<open>next\<close>; \<open>processNextReqFromL2Cache\<close> closes the recursion
  with a bound on its depth, the number of requests queued for the address, which is shown to be enough.
\<close>

section \<open>State\<close>

datatype protocol = MSI | MESI | MESIF

text \<open>\<open>dd_uninit\<close> is what uninitialised variables hold and \<open>dd_freed\<close> what is read from a data buffer after it
  has been deleted.\<close>

record DramDirectoryCntlr =
  dd_cache :: DramDirectoryCache
  dd_queue :: "ShmemReq req_queue_list"
  dd_nuca :: "NucaCache option"
  dd_home :: AddressHomeLookup
  dd_core_id :: core_id
  dd_cache_block_size :: u32
  dd_protocol :: protocol
  dd_evict :: "dstate \<Rightarrow> u64"
  dd_forward :: u64
  dd_forward_failed :: u64
  dd_uninit :: uninit
  dd_freed :: "u8 list \<Rightarrow> u8 list"
  dd_out :: "(core_id \<times> ShmemMsg) list"

type_synonym dd_state = DramDirectoryCntlr

definition DStateString :: "dstate \<Rightarrow> char" where
  "DStateString state = (case state of
       D_UNCACHED \<Rightarrow> CHR ''U'' | D_SHARED \<Rightarrow> CHR ''S'' | D_EXCLUSIVE \<Rightarrow> CHR ''E'' | D_OWNED \<Rightarrow> CHR ''O''
     | D_MODIFIED \<Rightarrow> CHR ''M'')"

definition parse_protocol :: "string \<Rightarrow> protocol option" where
  "parse_protocol s =
     (if s = ''msi'' then Some MSI else if s = ''mesi'' then Some MESI else if s = ''mesif'' then Some MESIF else None)"

definition DramDirectoryCntlr_new :: "uninit \<Rightarrow> (u8 list \<Rightarrow> u8 list) \<Rightarrow> (dstate \<Rightarrow> u64) \<Rightarrow> core_id \<Rightarrow> u64 option \<Rightarrow> u32 list \<Rightarrow>
    core_id \<Rightarrow> AddressHomeLookup \<Rightarrow> NucaCache option \<Rightarrow> u32 \<Rightarrow> u32 \<Rightarrow> u32 \<Rightarrow> u32 \<Rightarrow> u32 \<Rightarrow> string \<Rightarrow> u64 \<Rightarrow> string \<Rightarrow> dd_state option" where
  "DramDirectoryCntlr_new u freed evict0 garbage cfg_penalty ptrs core_id home nuca total_entries associativity
     cache_block_size max_num_sharers max_hw_sharers type_str access_time variant = do {
     c \<leftarrow> DramDirectoryCache_new garbage cfg_penalty ptrs type_str total_entries associativity cache_block_size
       max_hw_sharers max_num_sharers access_time;
     protocol \<leftarrow> parse_protocol variant;
     Some \<lparr>dd_cache = c, dd_queue = Map.empty, dd_nuca = nuca, dd_home = home, dd_core_id = core_id,
       dd_cache_block_size = cache_block_size, dd_protocol = protocol,
       dd_evict = (\<lambda>st. if st = D_UNCACHED then evict0 st else 0), dd_forward = 0, dd_forward_failed = 0,
       dd_uninit = u, dd_freed = freed, dd_out = []\<rparr>
   }"

section \<open>Access to the components\<close>

text \<open>\<^verbatim>\<open>MemoryManager::sendMsg\<close>: the message is packed into a buffer and handed to the network.\<close>

definition sendMsg :: "msg_t \<Rightarrow> component_t \<Rightarrow> component_t \<Rightarrow> core_id \<Rightarrow> core_id \<Rightarrow> IntPtr \<Rightarrow> u8 list option \<Rightarrow> u32 \<Rightarrow> where_t \<Rightarrow>
    dd_state \<Rightarrow> dd_state option" where
  "sendMsg msg_type sender_mem_component receiver_mem_component requester receiver address data_buf data_length hit_where s = do {
     ensure ((data_buf = None) = (data_length = 0));
     let shmem_msg = (ShmemMsg_new msg_type sender_mem_component receiver_mem_component requester address data_buf
       data_length)\<lparr>sm_where := hit_where\<rparr>;
     msg_buf \<leftarrow> makeMsgBuf shmem_msg;
     Some (s\<lparr>dd_out := dd_out s @ [(receiver, shmem_msg)]\<rparr>)
   }"

definition dd_getDirectoryEntry :: "IntPtr \<Rightarrow> dd_state \<Rightarrow> (nat option \<times> dd_state) option" where
  "dd_getDirectoryEntry address s = do {
     (r, c) \<leftarrow> dc_getDirectoryEntry address (dd_cache s);
     Some (r, s\<lparr>dd_cache := c\<rparr>)
   }"

definition dd_put :: "nat \<Rightarrow> DirectoryEntry \<Rightarrow> dd_state \<Rightarrow> dd_state" where
  "dd_put p e s = s\<lparr>dd_cache := dc_update p e (dd_cache s)\<rparr>"

text \<open>The request at the front of a queue is an object that the handlers change in place.\<close>

definition set_front :: "IntPtr \<Rightarrow> ShmemReq \<Rightarrow> dd_state \<Rightarrow> dd_state" where
  "set_front address req s = s\<lparr>dd_queue := (dd_queue s)(address \<mapsto> req # tl (rq_contents (dd_queue s) address))\<rparr>"

section \<open>Data\<close>

definition sendDataToNUCA :: "IntPtr \<Rightarrow> u8 list option \<Rightarrow> bool \<Rightarrow> dd_state \<Rightarrow> dd_state option" where
  "sendDataToNUCA address data_buf count s = (case dd_nuca s of
       None \<Rightarrow> Some s
     | Some n \<Rightarrow> do {
         (w, n') \<leftarrow> nuca_write (dd_uninit s) address data_buf count n;
         let s1 = s\<lparr>dd_nuca := Some n'\<rparr>;
         if nw_eviction w
         then do {
           dram_node \<leftarrow> getHome (dd_home s) (nw_evict_address w);
           sendMsg DRAM_WRITE_REQ TAG_DIR DRAM (dd_core_id s) dram_node (nw_evict_address w) (Some (nw_evict_buf w))
             (dd_cache_block_size s) HW_UNKNOWN s1
         }
         else Some s1
       })"

definition sendDataToDram :: "IntPtr \<Rightarrow> core_id \<Rightarrow> u8 list option \<Rightarrow> dd_state \<Rightarrow> dd_state option" where
  "sendDataToDram address requester data_buf s =
     (if dd_nuca s \<noteq> None
      then sendDataToNUCA address data_buf True s
      else do {
        dram_node \<leftarrow> getHome (dd_home s) address;
        sendMsg DRAM_WRITE_REQ TAG_DIR DRAM requester dram_node address data_buf (dd_cache_block_size s) HW_UNKNOWN s
      })"

text \<open>The part of \<^verbatim>\<open>retrieveDataAndSendToL2Cache\<close> behind the NUCA cache: ask the forwarder, or the DRAM.\<close>

definition retrieve_remote :: "nat \<Rightarrow> core_id \<Rightarrow> IntPtr \<Rightarrow> dd_state \<Rightarrow> dd_state option" where
  "retrieve_remote p receiver address s = do {
     ensure (rq_size address (dd_queue s) > 0);
     shmem_req \<leftarrow> rq_front address (dd_queue s);
     e \<leftarrow> dc_entry p (dd_cache s);
     if dd_protocol s = MESIF \<and> rq_forwarding_from shmem_req = INVALID_CORE_ID \<and> de_dstate e = D_SHARED \<and>
        de_forwarder e \<noteq> INVALID_CORE_ID
     then sendMsg WB_REQ TAG_DIR L2_CACHE receiver (de_forwarder e) address None 0 HW_UNKNOWN
       (set_front address (shmem_req\<lparr>rq_forwarding_from := de_forwarder e\<rparr>) s)
     else do {
       let s1 = set_front address (shmem_req\<lparr>rq_wait_for_data := True\<rparr>) s;
       dram_node \<leftarrow> getHome (dd_home s) address;
       sendMsg DRAM_READ_REQ TAG_DIR DRAM receiver dram_node address None 0 HW_UNKNOWN s1
     }
   }"

definition retrieveDataAndSendToL2Cache :: "(IntPtr \<Rightarrow> dd_state \<Rightarrow> dd_state option) \<Rightarrow> msg_t \<Rightarrow> core_id \<Rightarrow> IntPtr \<Rightarrow>
    u8 list option \<Rightarrow> dd_state \<Rightarrow> dd_state option" where
  "retrieveDataAndSendToL2Cache next reply_msg_type receiver address cached_data_buf s0 = do {
     (r, s) \<leftarrow> dd_getDirectoryEntry address s0;
     p \<leftarrow> r;
     e \<leftarrow> dc_entry p (dd_cache s);
     case cached_data_buf of
       Some d \<Rightarrow> do {
         s1 \<leftarrow> sendMsg reply_msg_type TAG_DIR L2_CACHE receiver receiver address (Some d) (dd_cache_block_size s)
           HW_CACHE_REMOTE (dd_put p (e\<lparr>de_forwarder := receiver\<rparr>) s);
         next address s1
       }
     | None \<Rightarrow> (case dd_nuca s of
           None \<Rightarrow> retrieve_remote p receiver address s
         | Some n \<Rightarrow> do {
             (hit_where, nuca_data_buf, n') \<leftarrow> nuca_read (dd_uninit s) address True n;
             let s1 = s\<lparr>dd_nuca := Some n'\<rparr>;
             if hit_where \<noteq> HW_MISS
             then do {
               s2 \<leftarrow> sendMsg reply_msg_type TAG_DIR L2_CACHE receiver receiver address (Some nuca_data_buf)
                 (dd_cache_block_size s) HW_NUCA_CACHE s1;
               next address s2
             }
             else retrieve_remote p receiver address s1
           })
   }"

section \<open>Requests\<close>

text \<open>The message to every sharer. A directory entry never asks for a broadcast; \<^verbatim>\<open>broadcastMsg\<close> would
  dereference the null pointer it is given for the performance counters.\<close>

definition invalidate_sharers :: "core_id \<Rightarrow> IntPtr \<Rightarrow> DirectoryEntry \<Rightarrow> dd_state \<Rightarrow> dd_state option" where
  "invalidate_sharers requester address e s =
     (let (all, sharers) = getSharersList e
      in if all then None
         else fold_opt (\<lambda>r. sendMsg INV_REQ TAG_DIR L2_CACHE requester r address None 0 HW_UNKNOWN) sharers s)"

definition processNullifyReq :: "(IntPtr \<Rightarrow> dd_state \<Rightarrow> dd_state option) \<Rightarrow> ShmemReq \<Rightarrow> dd_state \<Rightarrow> dd_state option" where
  "processNullifyReq next shmem_req s0 = do {
     let address = sm_address (rq_msg shmem_req);
     let requester = sm_requester (rq_msg shmem_req);
     (r, s) \<leftarrow> dd_getDirectoryEntry address s0;
     p \<leftarrow> r;
     e \<leftarrow> dc_entry p (dd_cache s);
     case de_dstate e of
       D_EXCLUSIVE \<Rightarrow> sendMsg FLUSH_REQ TAG_DIR L2_CACHE requester (de_owner e) address None 0 HW_UNKNOWN s
     | D_MODIFIED \<Rightarrow> sendMsg FLUSH_REQ TAG_DIR L2_CACHE requester (de_owner e) address None 0 HW_UNKNOWN s
     | D_SHARED \<Rightarrow> invalidate_sharers requester address e s
     | D_UNCACHED \<Rightarrow> do {
         c \<leftarrow> invalidateDirectoryEntry address (dd_cache s);
         next address (s\<lparr>dd_cache := c\<rparr>)
       }
     | D_OWNED \<Rightarrow> None
   }"

text \<open>The loop that selects the entry to replace: the fewest sharers among those without requests.\<close>

fun pick_candidate :: "(nat \<rightharpoonup> DirectoryEntry) \<Rightarrow> (IntPtr \<Rightarrow> nat) \<Rightarrow> nat list \<Rightarrow> nat option \<Rightarrow> nat option option" where
  "pick_candidate entry queued [] best = Some best"
| "pick_candidate entry queued (p # ps) best = do {
     e \<leftarrow> entry p;
     better \<leftarrow> (case best of
         None \<Rightarrow> Some True
       | Some b \<Rightarrow> do { eb \<leftarrow> entry b; Some (getNumSharers eb > getNumSharers e) });
     pick_candidate entry queued ps (if better \<and> queued (de_address e) = 0 then Some p else best)
   }"

definition processDirectoryEntryAllocationReq :: "(IntPtr \<Rightarrow> dd_state \<Rightarrow> dd_state option) \<Rightarrow> ShmemReq \<Rightarrow> dd_state \<Rightarrow>
    (nat \<times> dd_state) option" where
  "processDirectoryEntryAllocationReq next shmem_req s = do {
     let address = sm_address (rq_msg shmem_req);
     let requester = sm_requester (rq_msg shmem_req);
     (candidates, c1) \<leftarrow> getReplacementCandidates address (dd_cache s);
     best \<leftarrow> pick_candidate (\<lambda>p. dc_entry p c1) (\<lambda>a. rq_size a (dd_queue s)) candidates None;
     b \<leftarrow> best;
     e \<leftarrow> dc_entry b c1;
     let replaced_address = de_address e;
     (q, c2) \<leftarrow> replaceDirectoryEntry replaced_address address c1;
     nullify_req \<leftarrow> ShmemReq_new (un_where (dd_uninit s))
       (ShmemMsg_new NULLIFY_REQ TAG_DIR TAG_DIR requester replaced_address None 0);
     let s1 = s\<lparr>dd_cache := c2, dd_evict := (dd_evict s)(de_dstate e := dd_evict s (de_dstate e) + 1),
       dd_queue := rq_enqueue replaced_address nullify_req (dd_queue s)\<rparr>;
     ensure (rq_size replaced_address (dd_queue s1) = 1);
     s2 \<leftarrow> processNullifyReq next nullify_req s1;
     Some (q, s2)
   }"

text \<open>The entry of an address, allocated when there is none.\<close>

definition get_or_allocate :: "(IntPtr \<Rightarrow> dd_state \<Rightarrow> dd_state option) \<Rightarrow> ShmemReq \<Rightarrow> dd_state \<Rightarrow> (nat \<times> dd_state) option" where
  "get_or_allocate next shmem_req s = do {
     (r, s1) \<leftarrow> dd_getDirectoryEntry (sm_address (rq_msg shmem_req)) s;
     case r of
       Some p \<Rightarrow> Some (p, s1)
     | None \<Rightarrow> processDirectoryEntryAllocationReq next shmem_req s1
   }"

definition processExReqFromL2Cache :: "(IntPtr \<Rightarrow> dd_state \<Rightarrow> dd_state option) \<Rightarrow> ShmemReq \<Rightarrow> u8 list option \<Rightarrow> dd_state \<Rightarrow>
    dd_state option" where
  "processExReqFromL2Cache next shmem_req cached_data_buf s0 = do {
     let address = sm_address (rq_msg shmem_req);
     let requester = sm_requester (rq_msg shmem_req);
     (p, s) \<leftarrow> get_or_allocate next shmem_req s0;
     e \<leftarrow> dc_entry p (dd_cache s);
     case de_dstate e of
       D_EXCLUSIVE \<Rightarrow> do {
         ensure (cached_data_buf = None);
         sendMsg FLUSH_REQ TAG_DIR L2_CACHE requester (de_owner e) address None 0 HW_UNKNOWN s
       }
     | D_MODIFIED \<Rightarrow> do {
         ensure (cached_data_buf = None);
         sendMsg FLUSH_REQ TAG_DIR L2_CACHE requester (de_owner e) address None 0 HW_UNKNOWN s
       }
     | D_SHARED \<Rightarrow> do {
         ensure (cached_data_buf = None);
         invalidate_sharers requester address e s
       }
     | D_UNCACHED \<Rightarrow> do {
         (add_result, e1) \<leftarrow> addSharer requester (getMaxHwSharers (dd_cache s)) e;
         ensure add_result;
         e2 \<leftarrow> setOwner requester e1;
         retrieveDataAndSendToL2Cache next EX_REP requester address cached_data_buf
           (dd_put p (e2\<lparr>de_dstate := D_MODIFIED\<rparr>) s)
       }
     | D_OWNED \<Rightarrow> None
   }"

definition processShReqFromL2Cache :: "(IntPtr \<Rightarrow> dd_state \<Rightarrow> dd_state option) \<Rightarrow> ShmemReq \<Rightarrow> u8 list option \<Rightarrow> dd_state \<Rightarrow>
    dd_state option" where
  "processShReqFromL2Cache next shmem_req cached_data_buf s0 = do {
     let address = sm_address (rq_msg shmem_req);
     let requester = sm_requester (rq_msg shmem_req);
     (p, s) \<leftarrow> get_or_allocate next shmem_req s0;
     e \<leftarrow> dc_entry p (dd_cache s);
     case de_dstate e of
       D_EXCLUSIVE \<Rightarrow> do {
         ensure (requester \<noteq> de_owner e);
         ensure (cached_data_buf = None);
         sendMsg WB_REQ TAG_DIR L2_CACHE requester (de_owner e) address None 0 HW_UNKNOWN s
       }
     | D_MODIFIED \<Rightarrow> do {
         ensure (cached_data_buf = None);
         sendMsg WB_REQ TAG_DIR L2_CACHE requester (de_owner e) address None 0 HW_UNKNOWN s
       }
     | D_SHARED \<Rightarrow> do {
         has \<leftarrow> hasSharer requester e;
         if has
         then retrieveDataAndSendToL2Cache next SH_REP requester address cached_data_buf
           (s\<lparr>dd_forward := dd_forward s + 1,
              dd_forward_failed := (if cached_data_buf = None then dd_forward_failed s + 1 else dd_forward_failed s)\<rparr>)
         else do {
           (add_result, e1) \<leftarrow> addSharer requester (getMaxHwSharers (dd_cache s)) e;
           if \<not> add_result
           then do {
             (sharer_id, e2) \<leftarrow> getOneSharer e1;
             sendMsg INV_REQ TAG_DIR L2_CACHE requester sharer_id address None 0 HW_UNKNOWN (dd_put p e2 s)
           }
           else retrieveDataAndSendToL2Cache next SH_REP requester address cached_data_buf (dd_put p e1 s)
         }
       }
     | D_UNCACHED \<Rightarrow> do {
         (add_result, e1) \<leftarrow> addSharer requester (getMaxHwSharers (dd_cache s)) e;
         ensure add_result;
         e2 \<leftarrow> setOwner requester e1;
         if dd_protocol s = MSI
         then retrieveDataAndSendToL2Cache next SH_REP requester address cached_data_buf
           (dd_put p (e2\<lparr>de_dstate := D_SHARED\<rparr>) s)
         else retrieveDataAndSendToL2Cache next EX_REP requester address cached_data_buf
           (dd_put p (e2\<lparr>de_dstate := D_EXCLUSIVE\<rparr>) s)
       }
     | D_OWNED \<Rightarrow> None
   }"

text \<open>The messages of an upgrade request to the other sharers; \<open>i\<close> is the position in the list.\<close>

fun upgrade_invalidations :: "bool \<Rightarrow> core_id \<Rightarrow> IntPtr \<Rightarrow> nat \<Rightarrow> core_id list \<Rightarrow> dd_state \<Rightarrow> dd_state option" where
  "upgrade_invalidations requesterHasCopy requester address i [] s = Some s"
| "upgrade_invalidations requesterHasCopy requester address i (r # rs) s = do {
     s1 \<leftarrow> (if r \<noteq> requester
       then sendMsg (if \<not> requesterHasCopy \<and> i = 0 then FLUSH_REQ else INV_REQ) TAG_DIR L2_CACHE requester r address
         None 0 HW_UNKNOWN s
       else Some s);
     upgrade_invalidations requesterHasCopy requester address (Suc i) rs s1
   }"

definition processUpgradeReqFromL2Cache :: "(IntPtr \<Rightarrow> dd_state \<Rightarrow> dd_state option) \<Rightarrow> ShmemReq \<Rightarrow> u8 list option \<Rightarrow> dd_state \<Rightarrow>
    dd_state option" where
  "processUpgradeReqFromL2Cache next shmem_req cached_data_buf s0 = do {
     let address = sm_address (rq_msg shmem_req);
     let requester = sm_requester (rq_msg shmem_req);
     (p, s) \<leftarrow> get_or_allocate next shmem_req s0;
     e \<leftarrow> dc_entry p (dd_cache s);
     let (all, sharers) = getSharersList e;
     (if de_dstate e = D_EXCLUSIVE \<or> de_dstate e = D_MODIFIED
      then do {
        first \<leftarrow> nth_opt sharers 0;
        if first = requester
        then do {
          ensure (de_owner e = requester);
          s1 \<leftarrow> sendMsg UPGRADE_REP TAG_DIR L2_CACHE requester requester address None 0 HW_UNKNOWN s;
          next address (dd_put p (e\<lparr>de_dstate := D_MODIFIED\<rparr>) s1)
        }
        else sendMsg FLUSH_REQ TAG_DIR L2_CACHE requester (de_owner e) address None 0 HW_UNKNOWN s
      }
      else if de_dstate e = D_SHARED
      then (if length sharers = 1 \<and> sharers ! 0 = requester
        then do {
          e1 \<leftarrow> setOwner requester e;
          s1 \<leftarrow> sendMsg UPGRADE_REP TAG_DIR L2_CACHE requester requester address None 0 HW_UNKNOWN
            (dd_put p (e1\<lparr>de_dstate := D_MODIFIED\<rparr>) s);
          next address s1
        }
        else do {
          requesterHasCopy \<leftarrow> hasSharer requester e;
          if all then None else upgrade_invalidations requesterHasCopy requester address 0 sharers s
        })
      else if de_dstate e = D_UNCACHED
      then do {
        ensure (length sharers = 0);
        (add_result, e1) \<leftarrow> addSharer requester (getMaxHwSharers (dd_cache s)) e;
        ensure add_result;
        e2 \<leftarrow> setOwner requester e1;
        retrieveDataAndSendToL2Cache next EX_REP requester address
          (if cached_data_buf = None then sm_data (rq_msg shmem_req) else cached_data_buf)
          (dd_put p (e2\<lparr>de_dstate := D_MODIFIED\<rparr>) s)
      }
      else None)
   }"

section \<open>Replies\<close>

definition processDRAMReply :: "(IntPtr \<Rightarrow> dd_state \<Rightarrow> dd_state option) \<Rightarrow> core_id \<Rightarrow> ShmemMsg \<Rightarrow> dd_state \<Rightarrow> dd_state option" where
  "processDRAMReply next sender shmem_msg s0 = do {
     let address = sm_address shmem_msg;
     ensure (rq_size address (dd_queue s0) \<ge> 1);
     shmem_req \<leftarrow> rq_front address (dd_queue s0);
     (r, s) \<leftarrow> dd_getDirectoryEntry address s0;
     p \<leftarrow> r;
     e \<leftarrow> dc_entry p (dd_cache s);
     reply_msg_type \<leftarrow> (case sm_type (rq_msg shmem_req) of
         SH_REQ \<Rightarrow> do {
           ensure (de_dstate e = D_SHARED \<or> de_dstate e = D_EXCLUSIVE);
           Some (if de_dstate e = D_EXCLUSIVE then EX_REP else SH_REP)
         }
       | EX_REQ \<Rightarrow> do {
           ensure (de_dstate e = D_MODIFIED);
           Some EX_REP
         }
       | UPGRADE_REQ \<Rightarrow> Some EX_REP
       | _ \<Rightarrow> None);
     let hit_where = (if sm_where shmem_msg = HW_DRAM
       then (if sender = sm_requester shmem_msg then HW_DRAM_LOCAL else HW_DRAM_REMOTE)
       else sm_where shmem_msg);
     s1 \<leftarrow> sendMsg reply_msg_type TAG_DIR L2_CACHE (sm_requester (rq_msg shmem_req)) (sm_requester (rq_msg shmem_req))
       address (sm_data shmem_msg) (dd_cache_block_size s) hit_where s;
     s2 \<leftarrow> sendDataToNUCA address (sm_data shmem_msg) False s1;
     next address s2
   }"

definition processInvRepFromL2Cache :: "(IntPtr \<Rightarrow> dd_state \<Rightarrow> dd_state option) \<Rightarrow> core_id \<Rightarrow> ShmemMsg \<Rightarrow> dd_state \<Rightarrow>
    dd_state option" where
  "processInvRepFromL2Cache next sender shmem_msg s0 = do {
     let address = sm_address shmem_msg;
     (r, s) \<leftarrow> dd_getDirectoryEntry address s0;
     p \<leftarrow> r;
     e \<leftarrow> dc_entry p (dd_cache s);
     ensure (de_dstate e = D_SHARED \<or> de_dstate e = D_EXCLUSIVE);
     e1 \<leftarrow> removeSharer sender False e;
     let e2 = (if de_forwarder e1 = sender then e1\<lparr>de_forwarder := INVALID_CORE_ID\<rparr> else e1);
     let e3 = (if getNumSharers e2 = 0 then e2\<lparr>de_dstate := D_UNCACHED\<rparr> else e2);
     let s1 = dd_put p e3 s;
     if rq_size address (dd_queue s1) > 0
     then do {
       shmem_req \<leftarrow> rq_front address (dd_queue s1);
       if sm_type (rq_msg shmem_req) = EX_REQ
       then (if de_dstate e3 = D_UNCACHED then processExReqFromL2Cache next shmem_req None s1 else Some s1)
       else if sm_type (rq_msg shmem_req) = UPGRADE_REQ
       then (if getNumSharers e3 = 1
         then do {
           has \<leftarrow> hasSharer (sm_requester (rq_msg shmem_req)) e3;
           if has then processUpgradeReqFromL2Cache next shmem_req None s1 else Some s1
         }
         else if getNumSharers e3 = 0
         then processUpgradeReqFromL2Cache next shmem_req None (dd_put p (e3\<lparr>de_dstate := D_UNCACHED\<rparr>) s1)
         else Some s1)
       else if sm_type (rq_msg shmem_req) = SH_REQ
       then (if rq_wait_for_data shmem_req then Some s1
         else if isForwarding shmem_req \<and> sender \<noteq> rq_forwarding_from shmem_req then Some s1
         else processShReqFromL2Cache next shmem_req None s1)
       else (if de_dstate e3 = D_UNCACHED then processNullifyReq next shmem_req s1 else Some s1)
     }
     else Some s1
   }"

definition processFlushRepFromL2Cache :: "(IntPtr \<Rightarrow> dd_state \<Rightarrow> dd_state option) \<Rightarrow> core_id \<Rightarrow> ShmemMsg \<Rightarrow> dd_state \<Rightarrow>
    dd_state option" where
  "processFlushRepFromL2Cache next sender shmem_msg s0 = do {
     let address = sm_address shmem_msg;
     (r, s) \<leftarrow> dd_getDirectoryEntry address s0;
     p \<leftarrow> r;
     e \<leftarrow> dc_entry p (dd_cache s);
     has \<leftarrow> hasSharer sender e;
     ensure has;
     e1 \<leftarrow> removeSharer sender False e;
     e2 \<leftarrow> setOwner INVALID_CORE_ID (e1\<lparr>de_forwarder := INVALID_CORE_ID\<rparr>);
     e3 \<leftarrow> (if getNumSharers e2 = 0 then Some (e2\<lparr>de_dstate := D_UNCACHED\<rparr>)
       else do { ensure (de_dstate e2 = D_SHARED); Some e2 });
     let s1 = dd_put p e3 s;
     if rq_size address (dd_queue s1) \<noteq> 0
     then do {
       shmem_req \<leftarrow> rq_front address (dd_queue s1);
       if sm_type (rq_msg shmem_req) = EX_REQ
       then processExReqFromL2Cache next shmem_req (sm_data shmem_msg) s1
       else if sm_type (rq_msg shmem_req) = SH_REQ
       then do {
         s2 \<leftarrow> sendDataToDram address (sm_requester shmem_msg) (sm_data shmem_msg) s1;
         processShReqFromL2Cache next shmem_req (sm_data shmem_msg) s2
       }
       else if sm_type (rq_msg shmem_req) = UPGRADE_REQ
       then (if getNumSharers e3 = 0
         then processUpgradeReqFromL2Cache next shmem_req (sm_data shmem_msg) (dd_put p (e3\<lparr>de_dstate := D_UNCACHED\<rparr>) s1)
         else Some (set_front address (shmem_req\<lparr>rq_msg := (rq_msg shmem_req)\<lparr>sm_data :=
           map_option (dd_freed s1) (sm_data shmem_msg)\<rparr>\<rparr>) s1))
       else do {
         s2 \<leftarrow> sendDataToDram address (sm_requester shmem_msg) (sm_data shmem_msg) s1;
         processNullifyReq next shmem_req s2
       }
     }
     else sendDataToDram address (sm_requester shmem_msg) (sm_data shmem_msg) s1
   }"

definition processWbRepFromL2Cache :: "(IntPtr \<Rightarrow> dd_state \<Rightarrow> dd_state option) \<Rightarrow> core_id \<Rightarrow> ShmemMsg \<Rightarrow> dd_state \<Rightarrow>
    dd_state option" where
  "processWbRepFromL2Cache next sender shmem_msg s0 = do {
     let address = sm_address shmem_msg;
     (r, s) \<leftarrow> dd_getDirectoryEntry address s0;
     p \<leftarrow> r;
     e \<leftarrow> dc_entry p (dd_cache s);
     has \<leftarrow> hasSharer sender e;
     ensure has;
     e1 \<leftarrow> setOwner INVALID_CORE_ID e;
     let s1 = dd_put p (e1\<lparr>de_dstate := D_SHARED\<rparr>) s;
     if rq_size address (dd_queue s1) \<noteq> 0
     then do {
       shmem_req \<leftarrow> rq_front address (dd_queue s1);
       ensure (sm_type (rq_msg shmem_req) = SH_REQ);
       processShReqFromL2Cache next shmem_req (sm_data shmem_msg) s1
     }
     else None
   }"

section \<open>The queues\<close>

fun processNextReqFromL2Cache :: "nat \<Rightarrow> IntPtr \<Rightarrow> dd_state \<Rightarrow> dd_state option" where
  "processNextReqFromL2Cache 0 address s = None"
| "processNextReqFromL2Cache (Suc depth) address s = do {
     ensure (rq_size address (dd_queue s) \<ge> 1);
     (completed_shmem_req, q) \<leftarrow> rq_dequeue address (dd_queue s);
     let s1 = s\<lparr>dd_queue := q\<rparr>;
     if \<not> rq_empty address q
     then do {
       shmem_req \<leftarrow> rq_front address q;
       (if sm_type (rq_msg shmem_req) = EX_REQ
        then processExReqFromL2Cache (processNextReqFromL2Cache depth) shmem_req None s1
        else if sm_type (rq_msg shmem_req) = SH_REQ
        then processShReqFromL2Cache (processNextReqFromL2Cache depth) shmem_req None s1
        else if sm_type (rq_msg shmem_req) = UPGRADE_REQ
        then processUpgradeReqFromL2Cache (processNextReqFromL2Cache depth) shmem_req None s1
        else None)
     }
     else Some s1
   }"

text \<open>The three requests: the request is queued, and processed when it is the only one.\<close>

definition enqueue_request :: "(ShmemReq \<Rightarrow> dd_state \<Rightarrow> dd_state option) \<Rightarrow> ShmemMsg \<Rightarrow> dd_state \<Rightarrow> dd_state option" where
  "enqueue_request process shmem_msg s = do {
     shmem_req \<leftarrow> ShmemReq_new (un_where (dd_uninit s)) shmem_msg;
     let s1 = s\<lparr>dd_queue := rq_enqueue (sm_address shmem_msg) shmem_req (dd_queue s)\<rparr>;
     if rq_size (sm_address shmem_msg) (dd_queue s1) = 1 then process shmem_req s1 else Some s1
   }"

definition dispatchMsgFromL2Cache :: "(IntPtr \<Rightarrow> dd_state \<Rightarrow> dd_state option) \<Rightarrow> core_id \<Rightarrow> ShmemMsg \<Rightarrow> dd_state \<Rightarrow> dd_state option" where
  "dispatchMsgFromL2Cache next sender shmem_msg s0 = do {
     (r, s) \<leftarrow> dd_getDirectoryEntry (sm_address shmem_msg) s0;
     case sm_type shmem_msg of
       EX_REQ \<Rightarrow> enqueue_request (\<lambda>req. processExReqFromL2Cache next req None) shmem_msg s
     | SH_REQ \<Rightarrow> enqueue_request (\<lambda>req. processShReqFromL2Cache next req None) shmem_msg s
     | INV_REP \<Rightarrow> processInvRepFromL2Cache next sender shmem_msg s
     | FLUSH_REP \<Rightarrow> processFlushRepFromL2Cache next sender shmem_msg s
     | WB_REP \<Rightarrow> processWbRepFromL2Cache next sender shmem_msg s
     | UPGRADE_REQ \<Rightarrow> enqueue_request (\<lambda>req. processUpgradeReqFromL2Cache next req None) shmem_msg s
     | _ \<Rightarrow> None
   }"

definition dispatchMsgFromDRAM :: "(IntPtr \<Rightarrow> dd_state \<Rightarrow> dd_state option) \<Rightarrow> core_id \<Rightarrow> ShmemMsg \<Rightarrow> dd_state \<Rightarrow> dd_state option" where
  "dispatchMsgFromDRAM next sender shmem_msg s = (case sm_type shmem_msg of
       DRAM_READ_REP \<Rightarrow> processDRAMReply next sender shmem_msg s
     | _ \<Rightarrow> None)"

text \<open>The depth of the recursion: the requests queued for the address, and the new one.\<close>

definition handleMsgFromL2Cache :: "core_id \<Rightarrow> ShmemMsg \<Rightarrow> dd_state \<Rightarrow> dd_state option" where
  "handleMsgFromL2Cache sender shmem_msg s =
     dispatchMsgFromL2Cache (processNextReqFromL2Cache (Suc (rq_size (sm_address shmem_msg) (dd_queue s)))) sender shmem_msg s"

definition handleMsgFromDRAM :: "core_id \<Rightarrow> ShmemMsg \<Rightarrow> dd_state \<Rightarrow> dd_state option" where
  "handleMsgFromDRAM sender shmem_msg s =
     dispatchMsgFromDRAM (processNextReqFromL2Cache (Suc (rq_size (sm_address shmem_msg) (dd_queue s)))) sender shmem_msg s"

end
