(* ===== verification/DramDirectoryInv.thy ===== *)
theory DramDirectoryInv
  imports DramDirectory
begin

text \<open>
  Correctness of the directory controller: for every sequence of messages, the directory keeps a modified or
  exclusive line with one sharer, has one entry for a line, and answers the requests for a line exactly once
  and in the order of their arrival.
\<close>

section \<open>Results that satisfy a condition\<close>

definition yields :: "'a option \<Rightarrow> ('a \<Rightarrow> bool) \<Rightarrow> bool" where
  "yields x Q \<longleftrightarrow> (\<forall>r. x = Some r \<longrightarrow> Q r)"

lemma yields_simps [simp]:
  "yields None Q" "yields (Some r) Q = Q r" "yields (ensure b) P = (b \<longrightarrow> P ())"
  by (simp_all add: yields_def)

lemma yields_bind: "yields x (\<lambda>r. yields (f r) Q) \<Longrightarrow> yields (Option.bind x f) Q"
  by (cases x) (simp_all add: yields_def)

lemma yields_mono: "yields x P \<Longrightarrow> (\<And>r. P r \<Longrightarrow> Q r) \<Longrightarrow> yields x Q"
  by (simp add: yields_def)

lemma yields_bind_mono: "yields x P \<Longrightarrow> (\<And>r. P r \<Longrightarrow> yields (f r) Q) \<Longrightarrow> yields (Option.bind x f) Q"
  by (rule yields_bind) (rule yields_mono)

lemma yields_ensure: "(b \<Longrightarrow> yields (f ()) Q) \<Longrightarrow> yields (Option.bind (ensure b) f) Q"
  by (cases b) simp_all

lemma yields_opt: "(\<And>r. x = Some r \<Longrightarrow> yields (f r) Q) \<Longrightarrow> yields (Option.bind x f) Q"
  by (cases x) simp_all

lemma yields_if: "(b \<Longrightarrow> yields x Q) \<Longrightarrow> (\<not> b \<Longrightarrow> yields y Q) \<Longrightarrow> yields (if b then x else y) Q"
  by simp

section \<open>Requests and their replies\<close>

definition is_request :: "msg_t \<Rightarrow> bool" where
  "is_request t \<longleftrightarrow> t \<in> {EX_REQ, SH_REQ, UPGRADE_REQ}"

definition is_reply :: "msg_t \<Rightarrow> bool" where
  "is_reply t \<longleftrightarrow> t \<in> {EX_REP, SH_REP, UPGRADE_REP}"

text \<open>The requesters that have been answered for an address, in order, and those that wait in a queue.\<close>

definition replies :: "(core_id \<times> ShmemMsg) list \<Rightarrow> IntPtr \<Rightarrow> core_id list" where
  "replies out b = map fst (filter (\<lambda>(r, m). is_reply (sm_type m) \<and> sm_address m = b) out)"

definition waiting :: "ShmemReq list \<Rightarrow> core_id list" where
  "waiting q = map (\<lambda>req. sm_requester (rq_msg req)) (filter (\<lambda>req. is_request (sm_type (rq_msg req))) q)"

definition history :: "dd_state \<Rightarrow> IntPtr \<Rightarrow> core_id list" where
  "history s b = replies (dd_out s) b @ waiting (rq_contents (dd_queue s) b)"

lemma history_cong: "dd_queue s' = dd_queue s \<Longrightarrow> dd_out s' = dd_out s \<Longrightarrow> history s' = history s"
  by (rule ext) (simp add: history_def)

lemma replies_snoc: "replies (out @ [(r, m)]) b
    = replies out b @ (if is_reply (sm_type m) \<and> sm_address m = b then [r] else [])"
  by (simp add: replies_def)

lemma waiting_simps [simp]:
  "waiting [] = []"
  "waiting (req # q) = (if is_request (sm_type (rq_msg req)) then [sm_requester (rq_msg req)] else []) @ waiting q"
  "waiting (q @ q') = waiting q @ waiting q'"
  by (simp_all add: waiting_def)

text \<open>Well-formed queues: a request stands in the queue of its address, its address is admissible, and it is
  either a request of a cache or the removal of an entry.\<close>

definition queue_ok :: "(IntPtr \<Rightarrow> bool) \<Rightarrow> ShmemReq req_queue_list \<Rightarrow> bool" where
  "queue_ok ok q \<longleftrightarrow> rq_wf q \<and> (\<forall>a. \<forall>req \<in> set (rq_contents q a). sm_address (rq_msg req) = a \<and> ok a \<and>
     (is_request (sm_type (rq_msg req)) \<or> sm_type (rq_msg req) = NULLIFY_REQ))"

lemma queue_ok_contents:
  assumes "queue_ok ok q" and "rq_wf q'" and "\<And>a. set (rq_contents q' a) \<subseteq> set (rq_contents q a)"
  shows "queue_ok ok q'"
  using assms unfolding queue_ok_def by blast

lemma queue_ok_enqueue:
  assumes "queue_ok ok q" and "ok (sm_address (rq_msg req))"
    and "is_request (sm_type (rq_msg req)) \<or> sm_type (rq_msg req) = NULLIFY_REQ"
  shows "queue_ok ok (rq_enqueue (sm_address (rq_msg req)) req q)"
  using assms by (auto simp: queue_ok_def rq_enqueue_contents rq_wf_enqueue)

text \<open>Only the head of a queue that is being worked on changes, and only in its flags and data.\<close>

definition same_request :: "ShmemReq \<Rightarrow> ShmemReq \<Rightarrow> bool" where
  "same_request r r' \<longleftrightarrow> sm_address (rq_msg r) = sm_address (rq_msg r') \<and> sm_type (rq_msg r) = sm_type (rq_msg r') \<and>
     sm_requester (rq_msg r) = sm_requester (rq_msg r')"

lemma set_front_contents:
  "rq_contents (dd_queue (set_front a req s)) b
    = (if b = a then req # tl (rq_contents (dd_queue s) a) else rq_contents (dd_queue s) b)"
  by (simp add: set_front_def rq_contents_def)

lemma set_front_ok:
  assumes "queue_ok ok (dd_queue s)" and c: "rq_contents (dd_queue s) a = req # rest" and "same_request req req'"
  shows "queue_ok ok (dd_queue (set_front a req' s)) \<and> history (set_front a req' s) = history s"
proof -
  have "rq_wf (dd_queue (set_front a req' s))"
    using assms(1) by (simp add: set_front_def queue_ok_def rq_wf_def)
  moreover have "sm_address (rq_msg x) = b \<and> ok b \<and> (is_request (sm_type (rq_msg x)) \<or> sm_type (rq_msg x) = NULLIFY_REQ)"
    if "x \<in> set (rq_contents (dd_queue (set_front a req' s)) b)" for x b
  proof -
    have "req \<in> set (rq_contents (dd_queue s) a)" using c by simp
    then have r: "sm_address (rq_msg req) = a \<and> ok a \<and> (is_request (sm_type (rq_msg req)) \<or> sm_type (rq_msg req) = NULLIFY_REQ)"
      using assms(1) unfolding queue_ok_def by blast
    show ?thesis
    proof (cases "b = a \<and> x = req'")
      case True
      then show ?thesis using r assms(3) by (simp add: same_request_def)
    next
      case False
      then have "x \<in> set (rq_contents (dd_queue s) b)"
        using that c by (auto simp: set_front_contents split: if_splits)
      then show ?thesis using assms(1) unfolding queue_ok_def by blast
    qed
  qed
  moreover have "history (set_front a req' s) b = history s b" for b
    using assms(3) c by (auto simp: history_def set_front_contents same_request_def) (simp_all add: set_front_def)
  ultimately show ?thesis unfolding queue_ok_def by (auto simp: fun_eq_iff)
qed

section \<open>Steps that do not touch the queues\<close>

text \<open>\<open>quiet\<close>: the directory cache and the queues are as before, and no reply is sent.\<close>

definition quiet :: "dd_state \<Rightarrow> dd_state \<Rightarrow> bool" where
  "quiet s s' \<longleftrightarrow> dd_cache s' = dd_cache s \<and> dd_queue s' = dd_queue s \<and> replies (dd_out s') = replies (dd_out s)"

lemma quiet_refl [simp]: "quiet s s"
  by (simp add: quiet_def)

lemma quiet_trans: "quiet s s' \<Longrightarrow> quiet s' s'' \<Longrightarrow> quiet s s''"
  by (simp add: quiet_def)

lemma quiet_fields [simp]:
  "quiet s (s\<lparr>dd_nuca := n\<rparr>)" "quiet s (s\<lparr>dd_forward := f, dd_forward_failed := g\<rparr>)"
  by (simp_all add: quiet_def)

lemma quiet_history: "quiet s s' \<Longrightarrow> history s' = history s"
  by (rule ext) (simp add: quiet_def history_def)

lemma sendMsg_out:
  "yields (sendMsg t c1 c2 requester receiver a d n w s)
     (\<lambda>s'. \<exists>m. s' = s\<lparr>dd_out := dd_out s @ [(receiver, m)]\<rparr> \<and> sm_type m = t \<and> sm_address m = a)"
  by (auto simp: yields_def sendMsg_def Let_def abort_simps ShmemMsg_new_def)

lemma sendMsg_quiet: "\<not> is_reply t \<Longrightarrow> yields (sendMsg t c1 c2 requester receiver a d n w s) (quiet s)"
  by (rule yields_mono [OF sendMsg_out]) (auto simp: quiet_def replies_snoc fun_eq_iff)

lemma not_reply [simp]:
  "\<not> is_reply FLUSH_REQ" "\<not> is_reply INV_REQ" "\<not> is_reply WB_REQ" "\<not> is_reply DRAM_READ_REQ"
  "\<not> is_reply DRAM_WRITE_REQ" "is_reply EX_REP" "is_reply SH_REP" "is_reply UPGRADE_REP"
  by (simp_all add: is_reply_def)

lemma fold_quiet:
  assumes "\<And>x s. yields (f x s) (quiet s)"
  shows "yields (fold_opt f xs s) (quiet s)"
proof (induction xs arbitrary: s)
  case (Cons x xs)
  show ?case
    unfolding fold_opt.simps
    by (rule yields_bind_mono [OF assms]) (rule yields_mono [OF Cons.IH], erule (1) quiet_trans)
qed simp

lemma invalidate_sharers_quiet: "yields (invalidate_sharers requester a e s) (quiet s)"
  by (simp add: invalidate_sharers_def getSharersList_def fold_quiet sendMsg_quiet)

lemma upgrade_invalidations_quiet: "yields (upgrade_invalidations b requester a i rs s) (quiet s)"
proof (induction rs arbitrary: i s)
  case (Cons r rs)
  show ?case
    unfolding upgrade_invalidations.simps
    by (rule yields_bind_mono [where P = "quiet s"])
      (auto simp: sendMsg_quiet intro: yields_mono [OF Cons.IH] quiet_trans)
qed simp

lemma sendDataToNUCA_quiet: "yields (sendDataToNUCA a d b s) (quiet s)"
proof (cases "dd_nuca s")
  case (Some n)
  show ?thesis
    unfolding sendDataToNUCA_def Some option.simps
  proof (rule yields_opt, clarify, simp add: Let_def, intro conjI impI)
    fix w n' 
    show "yields (do { dram_node \<leftarrow> getHome (dd_home s) (nw_evict_address w);
        sendMsg DRAM_WRITE_REQ TAG_DIR DRAM (dd_core_id s) dram_node (nw_evict_address w) (Some (nw_evict_buf w))
          (dd_cache_block_size s) HW_UNKNOWN (s\<lparr>dd_nuca := Some n'\<rparr>) }) (quiet s)"
      by (rule yields_opt) (rule yields_mono [OF sendMsg_quiet], auto intro: quiet_trans [OF quiet_fields(1)])
  qed
qed (simp add: sendDataToNUCA_def)

lemma sendDataToDram_quiet: "yields (sendDataToDram a r d s) (quiet s)"
  by (auto simp: sendDataToDram_def sendDataToNUCA_quiet intro!: yields_opt sendMsg_quiet)

section \<open>The handlers keep an invariant and the history\<close>

definition good :: "(IntPtr \<Rightarrow> bool) \<Rightarrow> (DramDirectoryCache \<Rightarrow> bool) \<Rightarrow> dd_state \<Rightarrow> bool" where
  "good ok I s \<longleftrightarrow> I (dd_cache s) \<and> queue_ok ok (dd_queue s)"

definition post :: "(IntPtr \<Rightarrow> bool) \<Rightarrow> (DramDirectoryCache \<Rightarrow> bool) \<Rightarrow> dd_state \<Rightarrow> dd_state \<Rightarrow> bool" where
  "post ok I s s' \<longleftrightarrow> good ok I s' \<and> history s' = history s"

text \<open>What the handlers expect of the continuation: it drops the request at the front, which has been answered,
  and goes on with the others.\<close>

definition next_ok :: "(IntPtr \<Rightarrow> bool) \<Rightarrow> (DramDirectoryCache \<Rightarrow> bool) \<Rightarrow> (IntPtr \<Rightarrow> dd_state \<Rightarrow> dd_state option) \<Rightarrow> bool" where
  "next_ok ok I next \<longleftrightarrow> (\<forall>a s req rest. good ok I s \<longrightarrow> rq_contents (dd_queue s) a = req # rest \<longrightarrow>
     yields (next a s) (\<lambda>s'. good ok I s' \<and>
       (\<forall>b. history s' b = replies (dd_out s) b @ waiting (if b = a then rest else rq_contents (dd_queue s) b)) \<and>
       (rest = [] \<longrightarrow> (\<forall>b. b \<noteq> a \<longrightarrow> rq_contents (dd_queue s') b = rq_contents (dd_queue s) b))))"

lemma good_quiet: "good ok I s \<Longrightarrow> quiet s s' \<Longrightarrow> good ok I s'"
  by (simp add: good_def quiet_def)

lemma post_quiet: "good ok I s \<Longrightarrow> quiet s s' \<Longrightarrow> post ok I s s'"
  by (simp add: post_def good_quiet quiet_history)

lemma post_trans: "post ok I s s' \<Longrightarrow> post ok I s' s'' \<Longrightarrow> post ok I s s''"
  by (simp add: post_def)

lemma post_refl: "good ok I s \<Longrightarrow> post ok I s s"
  by (simp add: post_def)

lemma front_facts:
  assumes "good ok I s" and "rq_contents (dd_queue s) a = req # rest"
  shows "sm_address (rq_msg req) = a" "ok a" "is_request (sm_type (rq_msg req)) \<or> sm_type (rq_msg req) = NULLIFY_REQ"
  using assms unfolding good_def queue_ok_def by (metis list.set_intros(1))+

lemma put_fields [simp]:
  "dd_queue (dd_put p e s) = dd_queue s" "dd_out (dd_put p e s) = dd_out s" "dd_nuca (dd_put p e s) = dd_nuca s"
  "history (dd_put p e s) = history s" "dd_freed (dd_put p e s) = dd_freed s"
  by (simp_all add: dd_put_def history_def fun_eq_iff)

lemma rq_front_first: "rq_front a q = Some req \<longleftrightarrow> (\<exists>rest. rq_contents q a = req # rest)"
  by (simp add: rq_front_contents split: list.splits)

lemma next_after_reply:
  assumes "next_ok ok I next" and "good ok I s1" and "dd_queue s1 = dd_queue s"
    and "\<And>b. replies (dd_out s1) b = replies (dd_out s) b @ (if b = a then [sm_requester (rq_msg req)] else [])"
    and "rq_contents (dd_queue s) a = req # rest" and "is_request (sm_type (rq_msg req))"
  shows "yields (next a s1) (post ok I s)"
proof -
  have "yields (next a s1) (\<lambda>s'. good ok I s' \<and>
       (\<forall>b. history s' b = replies (dd_out s1) b @ waiting (if b = a then rest else rq_contents (dd_queue s1) b)) \<and>
       (rest = [] \<longrightarrow> (\<forall>b. b \<noteq> a \<longrightarrow> rq_contents (dd_queue s') b = rq_contents (dd_queue s1) b)))"
    using assms(1) [unfolded next_ok_def, rule_format, OF assms(2), of a req rest] assms(3,5) by simp
  then show ?thesis
  proof (rule yields_mono)
    fix s'
    assume s': "good ok I s' \<and>
       (\<forall>b. history s' b = replies (dd_out s1) b @ waiting (if b = a then rest else rq_contents (dd_queue s1) b)) \<and>
       (rest = [] \<longrightarrow> (\<forall>b. b \<noteq> a \<longrightarrow> rq_contents (dd_queue s') b = rq_contents (dd_queue s1) b))"
    have "history s' b = history s b" for b
      using s' assms(3-6) by (simp add: history_def)
    then show "post ok I s s'" using s' by (auto simp: post_def)
  qed
qed

lemma pick_candidate_member:
  "pick_candidate entry queued ps best = Some (Some b) \<Longrightarrow> b \<in> set ps \<or> best = Some b"
proof (induction ps arbitrary: best)
  case (Cons p ps)
  obtain best' where "pick_candidate entry queued ps best' = Some (Some b)" and "best' = Some p \<or> best' = best"
    using Cons.prems by (auto simp: abort_simps split: if_splits)
  then show ?case using Cons.IH by fastforce
qed simp

text \<open>The messages a directory receives, and the requesters among them for an address.\<close>

datatype dd_input = FromL2 core_id ShmemMsg | FromDRAM core_id ShmemMsg

fun dd_step :: "dd_input \<Rightarrow> dd_state \<Rightarrow> dd_state option" where
  "dd_step (FromL2 sender m) s = handleMsgFromL2Cache sender m s"
| "dd_step (FromDRAM sender m) s = handleMsgFromDRAM sender m s"

fun input_msg :: "dd_input \<Rightarrow> ShmemMsg" where
  "input_msg (FromL2 sender m) = m"
| "input_msg (FromDRAM sender m) = m"

fun requests_at :: "IntPtr \<Rightarrow> dd_input list \<Rightarrow> core_id list" where
  "requests_at b [] = []"
| "requests_at b (FromL2 sender m # xs) =
     (if is_request (sm_type m) \<and> sm_address m = b then [sm_requester m] else []) @ requests_at b xs"
| "requests_at b (FromDRAM sender m # xs) = requests_at b xs"

context directory_invariant
begin

lemma get_good:
  assumes "good ok I s" and "ok a"
  shows "yields (dd_getDirectoryEntry a s)
    (\<lambda>(r, s'). good ok I s' \<and> dd_queue s' = dd_queue s \<and> dd_out s' = dd_out s)"
  using assms get_law by (auto simp: yields_def dd_getDirectoryEntry_def good_def abort_simps)

lemma put_good:
  assumes "good ok I s" and "dc_entry p (dd_cache s) = Some e" and "evolves (getMaxHwSharers (dd_cache s)) e e'"
  shows "good ok I (dd_put p e' s)"
  using assms update_law by (simp add: good_def dd_put_def)

lemma put_twice:
  assumes "good ok I s" and "dc_entry p (dd_cache s) = Some e" and "evolves (getMaxHwSharers (dd_cache s)) e e'"
  shows "good ok I (dd_put p e' (dd_put p x s))"
proof -
  have "dd_put p e' (dd_put p x s) = dd_put p e' s"
    by (simp add: dd_put_def dc_update_def)
  then show ?thesis using put_good [OF assms] by simp
qed

lemma retrieve_remote_post:
  assumes "good ok I s"
  shows "yields (retrieve_remote p r a s) (post ok I s)"
  unfolding retrieve_remote_def
proof (rule yields_ensure, rule yields_opt, rule yields_opt)
  fix req e
  assume "rq_front a (dd_queue s) = Some req"
  then obtain rest where c: "rq_contents (dd_queue s) a = req # rest" by (auto simp: rq_front_first)
  have front: "post ok I s (set_front a req' s)" if "same_request req req'" for req'
    using set_front_ok [OF _ c that] assms by (auto simp: post_def good_def) (simp add: set_front_def)
  have send: "yields (sendMsg t TAG_DIR c2 r x a None 0 HW_UNKNOWN (set_front a req' s)) (post ok I s)"
    if "same_request req req'" "\<not> is_reply t" for req' t x c2
    using front [OF that(1)] that(2)
    by (intro yields_mono [OF sendMsg_quiet]) (auto intro: post_trans post_quiet simp: post_def good_quiet quiet_history)
  show "yields (if dd_protocol s = MESIF \<and> rq_forwarding_from req = INVALID_CORE_ID \<and> de_dstate e = D_SHARED \<and>
        de_forwarder e \<noteq> INVALID_CORE_ID
     then sendMsg WB_REQ TAG_DIR L2_CACHE r (de_forwarder e) a None 0 HW_UNKNOWN
       (set_front a (req\<lparr>rq_forwarding_from := de_forwarder e\<rparr>) s)
     else do {
       let s1 = set_front a (req\<lparr>rq_wait_for_data := True\<rparr>) s;
       dram_node \<leftarrow> getHome (dd_home s) a;
       sendMsg DRAM_READ_REQ TAG_DIR DRAM r dram_node a None 0 HW_UNKNOWN s1
     }) (post ok I s)"
    by (simp add: Let_def send same_request_def) (auto intro!: yields_opt send simp: same_request_def)
qed

lemma retrieve_post:
  assumes n: "next_ok ok I next" and g: "good ok I s" and c: "rq_contents (dd_queue s) a = req # rest"
    and req: "is_request (sm_type (rq_msg req))" and t: "is_reply t"
  shows "yields (retrieveDataAndSendToL2Cache next t (sm_requester (rq_msg req)) a cached s) (post ok I s)"
  unfolding retrieveDataAndSendToL2Cache_def
proof (rule yields_bind_mono [OF get_good [OF g front_facts(2) [OF g c]]], clarify, rule yields_opt, rule yields_opt)
  fix r s1 p e
  assume g1: "good ok I s1" and q: "dd_queue s1 = dd_queue s" and out: "dd_out s1 = dd_out s"
    and e: "dc_entry p (dd_cache s1) = Some e"
  have h1: "history s1 = history s" using q out by (rule history_cong)
  have reply: "yields (do { s3 \<leftarrow> sendMsg t TAG_DIR L2_CACHE (sm_requester (rq_msg req)) (sm_requester (rq_msg req)) a d n w s2;
      next a s3 }) (post ok I s)"
    if "good ok I s2" "dd_queue s2 = dd_queue s" "dd_out s2 = dd_out s" for s2 d n w
  proof (rule yields_bind_mono [OF sendMsg_out])
    fix s3
    assume "\<exists>m. s3 = s2\<lparr>dd_out := dd_out s2 @ [(sm_requester (rq_msg req), m)]\<rparr> \<and> sm_type m = t \<and> sm_address m = a"
    then obtain m where "s3 = s2\<lparr>dd_out := dd_out s2 @ [(sm_requester (rq_msg req), m)]\<rparr>" "sm_type m = t" "sm_address m = a"
      by blast
    then show "yields (next a s3) (post ok I s)"
      using that t by (intro next_after_reply [OF n _ _ _ c req]) (simp_all add: good_def replies_snoc)
  qed
  have remote: "yields (retrieve_remote p (sm_requester (rq_msg req)) a s2) (post ok I s)"
    if "good ok I s2" "history s2 = history s" for s2
    using that by (intro yields_mono [OF retrieve_remote_post]) (auto simp: post_def)
  have put: "good ok I (dd_put p (e\<lparr>de_forwarder := x\<rparr>) s1)" for x
    using put_good [OF g1 e] by simp
  have nuca: "good ok I (s1\<lparr>dd_nuca := x\<rparr>)" "history (s1\<lparr>dd_nuca := x\<rparr>) = history s" for x
    using g1 h1 by (simp_all add: good_def history_def [abs_def])
  show "yields (case cached of
       Some d \<Rightarrow> do {
         s2 \<leftarrow> sendMsg t TAG_DIR L2_CACHE (sm_requester (rq_msg req)) (sm_requester (rq_msg req)) a (Some d)
           (dd_cache_block_size s1) HW_CACHE_REMOTE (dd_put p (e\<lparr>de_forwarder := sm_requester (rq_msg req)\<rparr>) s1);
         next a s2
       }
     | None \<Rightarrow> (case dd_nuca s1 of
           None \<Rightarrow> retrieve_remote p (sm_requester (rq_msg req)) a s1
         | Some n \<Rightarrow> do {
             (hit_where, nuca_data_buf, n') \<leftarrow> nuca_read (dd_uninit s1) a True n;
             let s2 = s1\<lparr>dd_nuca := Some n'\<rparr>;
             if hit_where \<noteq> HW_MISS
             then do {
               s3 \<leftarrow> sendMsg t TAG_DIR L2_CACHE (sm_requester (rq_msg req)) (sm_requester (rq_msg req)) a
                 (Some nuca_data_buf) (dd_cache_block_size s1) HW_NUCA_CACHE s2;
               next a s3
             }
             else retrieve_remote p (sm_requester (rq_msg req)) a s2
           })) (post ok I s)"
  proof (cases cached)
    case (Some d)
    then show ?thesis using reply [OF put] q out by simp
  next
    case None
    show ?thesis
    proof (cases "dd_nuca s1")
      case None2: None
      then show ?thesis using None remote [OF g1 h1] by simp
    next
      case (Some x)
      show ?thesis
        unfolding None Some option.simps
        by (rule yields_opt) (use reply [OF nuca(1)] q out remote [OF nuca] in \<open>auto simp: Let_def\<close>)
    qed
  qed
qed

text \<open>A state in which the work on address \<open>a\<close> goes on.\<close>

definition continues :: "IntPtr \<Rightarrow> dd_state \<Rightarrow> dd_state \<Rightarrow> bool" where
  "continues a s s' \<longleftrightarrow> post ok I s s' \<and> rq_contents (dd_queue s') a = rq_contents (dd_queue s) a"

lemma nullify_post:
  assumes n: "next_ok ok I next" and g: "good ok I s" and c: "rq_contents (dd_queue s) a = req # rest"
    and t: "sm_type (rq_msg req) = NULLIFY_REQ"
  shows "yields (processNullifyReq next req s)
    (\<lambda>s'. post ok I s s' \<and> (rest = [] \<longrightarrow> (\<forall>b. b \<noteq> a \<longrightarrow> rq_contents (dd_queue s') b = rq_contents (dd_queue s) b)))"
    (is "yields _ ?Q")
  unfolding processNullifyReq_def Let_def
proof (rule yields_bind_mono [OF get_good [OF g]], simp add: front_facts [OF g c], clarify, rule yields_opt, rule yields_opt)
  fix r s1 p e
  assume g1: "good ok I s1" and q: "dd_queue s1 = dd_queue s" and out: "dd_out s1 = dd_out s"
    and e: "dc_entry p (dd_cache s1) = Some e"
  have quiet: "?Q s2" if "quiet s1 s2" for s2
    using that g1 q history_cong [OF q out] good_quiet [OF g1 that] quiet_history [OF that]
    by (auto simp: post_def quiet_def)
  have send: "yields (sendMsg FLUSH_REQ TAG_DIR L2_CACHE (sm_requester (rq_msg req)) (de_owner e) x None 0 HW_UNKNOWN s1) ?Q" for x
    by (rule yields_mono [OF sendMsg_quiet]) (use quiet in auto)
  have share: "yields (invalidate_sharers (sm_requester (rq_msg req)) x e s1) ?Q" for x
    by (rule yields_mono [OF invalidate_sharers_quiet]) (use quiet in auto)
  have drop: "yields (do { d \<leftarrow> invalidateDirectoryEntry a (dd_cache s1); next a (s1\<lparr>dd_cache := d\<rparr>) }) ?Q"
  proof (rule yields_opt)
    fix d
    assume "invalidateDirectoryEntry a (dd_cache s1) = Some d"
    then have g2: "good ok I (s1\<lparr>dd_cache := d\<rparr>)" using g1 invalidate_law by (auto simp: good_def)
    have c2: "rq_contents (dd_queue (s1\<lparr>dd_cache := d\<rparr>)) a = req # rest" using c q by simp
    have nr: "\<not> is_request (sm_type (rq_msg req))" by (simp add: t is_request_def)
    have "history s' = history s" if "\<forall>b. history s' b = replies (dd_out s) b @ waiting (if b = a then rest else rq_contents (dd_queue s) b)" for s'
    proof (rule ext)
      fix b
      show "history s' b = history s b" using that c nr by (simp add: history_def)
    qed
    then show "yields (next a (s1\<lparr>dd_cache := d\<rparr>)) ?Q"
      using n [unfolded next_ok_def, rule_format, OF g2 c2] q out by (elim yields_mono) (simp add: post_def)
  qed
  show "yields (case de_dstate e of
       D_EXCLUSIVE \<Rightarrow> sendMsg FLUSH_REQ TAG_DIR L2_CACHE (sm_requester (rq_msg req)) (de_owner e) (sm_address (rq_msg req)) None 0 HW_UNKNOWN s1
     | D_MODIFIED \<Rightarrow> sendMsg FLUSH_REQ TAG_DIR L2_CACHE (sm_requester (rq_msg req)) (de_owner e) (sm_address (rq_msg req)) None 0 HW_UNKNOWN s1
     | D_SHARED \<Rightarrow> invalidate_sharers (sm_requester (rq_msg req)) (sm_address (rq_msg req)) e s1
     | D_UNCACHED \<Rightarrow> do {
         d \<leftarrow> invalidateDirectoryEntry (sm_address (rq_msg req)) (dd_cache s1);
         next (sm_address (rq_msg req)) (s1\<lparr>dd_cache := d\<rparr>)
       }
     | D_OWNED \<Rightarrow> None) ?Q"
    using send share drop front_facts(1) [OF g c] by (cases "de_dstate e") simp_all
qed

lemma allocate_continues:
  assumes n: "next_ok ok I next" and g: "good ok I s" and c: "rq_contents (dd_queue s) a = req # rest"
  shows "yields (processDirectoryEntryAllocationReq next req s) (\<lambda>(p, s'). continues a s s')"
  unfolding processDirectoryEntryAllocationReq_def Let_def front_facts(1) [OF g c]
proof (rule yields_opt, clarify, rule yields_opt, rule yields_opt, rule yields_opt, rule yields_opt, clarify, rule yields_opt,
    rule yields_ensure)
  fix candidates c1 b q c2 nreq and e :: DirectoryEntry
  let ?ra = "de_address e"
  let ?s1 = "s\<lparr>dd_cache := c2, dd_evict := (dd_evict s)(de_dstate e := dd_evict s (de_dstate e) + 1),
       dd_queue := rq_enqueue ?ra nreq (dd_queue s)\<rparr>"
  assume cand: "getReplacementCandidates a (dd_cache s) = Some (candidates, c1)"
    and pick: "pick_candidate (\<lambda>p. dc_entry p c1) (\<lambda>a. rq_size a (dd_queue s)) candidates None = Some (Some b)"
    and e: "dc_entry b c1 = Some e"
    and repl: "replaceDirectoryEntry ?ra a c1 = Some (q, c2)"
    and nreq: "ShmemReq_new (un_where (dd_uninit s))
       (ShmemMsg_new NULLIFY_REQ TAG_DIR TAG_DIR (sm_requester (rq_msg req)) ?ra None 0) = Some nreq"
    and one: "rq_size ?ra (dd_queue ?s1) = 1"
  have m: "b \<in> set candidates" using pick_candidate_member [OF pick] by simp
  have I2: "I c2" "ok ?ra"
    using replace_law [OF _ front_facts(2) [OF g c] cand m e repl] g by (auto simp: good_def)
  have r: "sm_type (rq_msg nreq) = NULLIFY_REQ" "sm_address (rq_msg nreq) = ?ra"
    using nreq by (auto simp: ShmemReq_new_def ShmemMsg_copy_def ShmemMsg_new_def)
  have empty: "rq_contents (dd_queue s) ?ra = []" using one by (simp add: rq_size_contents rq_enqueue_contents)
  then have ne: "?ra \<noteq> a" using c by auto
  have g1: "good ok I ?s1"
    using g I2 queue_ok_enqueue [of ok "dd_queue s" nreq] r by (simp add: good_def)
  have c1: "rq_contents (dd_queue ?s1) ?ra = [nreq]" by (simp add: rq_enqueue_contents empty)
  have h1: "history ?s1 = history s"
    by (rule ext) (simp add: history_def rq_enqueue_contents r is_request_def)
  from nullify_post [OF n g1 c1 r(1)]
  show "yields (do { s2 \<leftarrow> processNullifyReq next nreq ?s1; Some (q, s2) }) (\<lambda>(p, s'). continues a s s')"
    by (rule yields_bind_mono) (use ne h1 in \<open>simp add: continues_def post_def rq_enqueue_contents\<close>)
qed

lemma get_or_allocate_continues:
  assumes n: "next_ok ok I next" and g: "good ok I s" and c: "rq_contents (dd_queue s) a = req # rest"
  shows "yields (get_or_allocate next req s) (\<lambda>(p, s'). continues a s s')"
  unfolding get_or_allocate_def front_facts(1) [OF g c]
proof (rule yields_bind_mono [OF get_good [OF g front_facts(2) [OF g c]]], clarify)
  fix r s1
  assume g1: "good ok I s1" and q: "dd_queue s1 = dd_queue s" and out: "dd_out s1 = dd_out s"
  have c1: "continues a s s1" using g1 q history_cong [OF q out] by (simp add: continues_def post_def)
  have "continues a s s'" if "continues a s1 s'" for s'
    using c1 that by (simp add: continues_def post_def)
  then show "yields (case r of None \<Rightarrow> processDirectoryEntryAllocationReq next req s1 | Some p \<Rightarrow> Some (p, s1))
      (\<lambda>(p, s'). continues a s s')"
    using c1 c q yields_mono [OF allocate_continues [OF n g1, of a req rest]] by (cases r) auto
qed

lemma continues_post: "continues a s s1 \<Longrightarrow> yields x (post ok I s1) \<Longrightarrow> yields x (post ok I s)"
  by (erule yields_mono) (simp add: continues_def post_def)

lemma continues_good: "continues a s s1 \<Longrightarrow> good ok I s1"
  by (simp add: continues_def post_def)

text \<open>A new sharer of an uncached line is sent the data.\<close>

lemma grant_post:
  assumes n: "next_ok ok I next" and g: "good ok I s" and c: "rq_contents (dd_queue s) a = req # rest"
    and req: "is_request (sm_type (rq_msg req))" and t: "is_reply t"
    and e: "dc_entry p (dd_cache s) = Some e" and u: "de_dstate e = D_UNCACHED" and st: "st \<in> {D_SHARED, D_MODIFIED, D_EXCLUSIVE}"
    and e1: "addSharer (sm_requester (rq_msg req)) (getMaxHwSharers (dd_cache s)) e = Some (True, e1)"
    and e2: "setOwner (sm_requester (rq_msg req)) e1 = Some e2"
  shows "yields (retrieveDataAndSendToL2Cache next t (sm_requester (rq_msg req)) a cached
    (dd_put p (e2\<lparr>de_dstate := st\<rparr>) s)) (post ok I s)"
proof -
  have "good ok I (dd_put p (e2\<lparr>de_dstate := st\<rparr>) s)"
    by (rule put_good [OF g e evolves_grant [OF u e1 e2 st]])
  then show ?thesis
    by (rule yields_mono [OF retrieve_post [OF n _ _ req t]]) (use c in \<open>simp_all add: post_def\<close>)
qed

lemma ex_post:
  assumes n: "next_ok ok I next" and g: "good ok I s" and c: "rq_contents (dd_queue s) a = req # rest"
    and req: "is_request (sm_type (rq_msg req))"
  shows "yields (processExReqFromL2Cache next req cached s) (post ok I s)"
  unfolding processExReqFromL2Cache_def Let_def front_facts(1) [OF g c]
  apply (rule yields_bind_mono [OF get_or_allocate_continues [OF n g c]], clarify, rule yields_opt)
  subgoal premises prems for p s1 e
  proof -
  note k = prems(1) and e = prems(2)
  have g1: "good ok I s1" using k by (rule continues_good)
  have c1: "rq_contents (dd_queue s1) a = req # rest" using k c by (simp add: continues_def)
  have send: "yields (do { ensure b; sendMsg FLUSH_REQ TAG_DIR L2_CACHE r x a None 0 HW_UNKNOWN s1 }) (post ok I s1)" for b r x
    by (rule yields_ensure, rule yields_mono [OF sendMsg_quiet]) (simp_all add: post_quiet [OF g1])
  have inv: "yields (do { ensure b; invalidate_sharers r a e s1 }) (post ok I s1)" for b r
    by (rule yields_ensure, rule yields_mono [OF invalidate_sharers_quiet]) (simp add: post_quiet [OF g1])
  have grant: "yields (do { (add_result, e1) \<leftarrow> addSharer (sm_requester (rq_msg req)) (getMaxHwSharers (dd_cache s1)) e;
         ensure add_result; e2 \<leftarrow> setOwner (sm_requester (rq_msg req)) e1;
         retrieveDataAndSendToL2Cache next EX_REP (sm_requester (rq_msg req)) a cached
           (dd_put p (e2\<lparr>de_dstate := D_MODIFIED\<rparr>) s1) }) (post ok I s1)" if "de_dstate e = D_UNCACHED"
    using that e by (intro yields_opt, clarify, intro yields_ensure yields_opt) (auto intro!: grant_post [OF n g1 c1 req])
    show ?thesis
      by (rule continues_post [OF k], cases "de_dstate e") (use send inv grant in simp_all)
  qed
  done

lemma sh_post:
  assumes n: "next_ok ok I next" and g: "good ok I s" and c: "rq_contents (dd_queue s) a = req # rest"
    and req: "is_request (sm_type (rq_msg req))"
  shows "yields (processShReqFromL2Cache next req cached s) (post ok I s)"
  unfolding processShReqFromL2Cache_def Let_def front_facts(1) [OF g c]
  apply (rule yields_bind_mono [OF get_or_allocate_continues [OF n g c]], clarify, rule yields_opt)
  subgoal premises prems for p s1 e
  proof -
    note k = prems(1) and e = prems(2)
    let ?r = "sm_requester (rq_msg req)" and ?m = "getMaxHwSharers (dd_cache s1)"
    have g1: "good ok I s1" using k by (rule continues_good)
    have c1: "rq_contents (dd_queue s1) a = req # rest" using k c by (simp add: continues_def)
    have send: "yields (sendMsg t TAG_DIR L2_CACHE r x a None 0 HW_UNKNOWN s2) (post ok I s1)"
      if "\<not> is_reply t" "good ok I s2" "history s2 = history s1" for t r x s2
      using that by (intro yields_mono [OF sendMsg_quiet]) (auto simp: post_def good_quiet quiet_history)
    have data: "yields (retrieveDataAndSendToL2Cache next SH_REP ?r a cached s2) (post ok I s1)"
      if "good ok I s2" "history s2 = history s1" "dd_queue s2 = dd_queue s1" for s2
      by (rule yields_mono [OF retrieve_post [OF n that(1) _ req]]) (use that c1 in \<open>simp_all add: post_def\<close>)
    have grant: "yields (do { (add_result, e1) \<leftarrow> addSharer ?r ?m e; ensure add_result; e2 \<leftarrow> setOwner ?r e1;
         if dd_protocol s1 = MSI
         then retrieveDataAndSendToL2Cache next SH_REP ?r a cached (dd_put p (e2\<lparr>de_dstate := D_SHARED\<rparr>) s1)
         else retrieveDataAndSendToL2Cache next EX_REP ?r a cached (dd_put p (e2\<lparr>de_dstate := D_EXCLUSIVE\<rparr>) s1) })
         (post ok I s1)" if "de_dstate e = D_UNCACHED"
      using that e by (intro yields_opt, clarify, intro yields_ensure yields_opt) (auto intro!: grant_post [OF n g1 c1 req])
    have count: "yields (retrieveDataAndSendToL2Cache next SH_REP ?r a cached
         (s1\<lparr>dd_forward := x, dd_forward_failed := y\<rparr>)) (post ok I s1)" for x y
      by (rule data) (use g1 in \<open>simp_all add: good_def history_def [abs_def]\<close>)
    have count1: "yields (retrieveDataAndSendToL2Cache next SH_REP ?r a cached (s1\<lparr>dd_forward := x\<rparr>)) (post ok I s1)" for x
      by (rule data) (use g1 in \<open>simp_all add: good_def history_def [abs_def]\<close>)
    have share: "yields (do { (add_result, e1) \<leftarrow> addSharer ?r ?m e;
           if \<not> add_result
           then do {
             (sharer_id, e2) \<leftarrow> getOneSharer e1;
             sendMsg INV_REQ TAG_DIR L2_CACHE ?r sharer_id a None 0 HW_UNKNOWN (dd_put p e2 s1)
           }
           else retrieveDataAndSendToL2Cache next SH_REP ?r a cached (dd_put p e1 s1) }) (post ok I s1)"
      if st: "de_dstate e = D_SHARED"
    proof (rule yields_opt, clarify)
      fix b e1
      assume a: "addSharer ?r ?m e = Some (b, e1)"
      note ev = evolves_add [OF st a]
      have one: "good ok I (dd_put p e2 s1)" if "getOneSharer e1 = Some (x, e2)" for x e2
        by (rule put_good [OF g1 e evolves_trans [OF ev evolves_one_sharer [OF that]]])
      show "yields (if \<not> b
           then do {
             (sharer_id, e2) \<leftarrow> getOneSharer e1;
             sendMsg INV_REQ TAG_DIR L2_CACHE ?r sharer_id a None 0 HW_UNKNOWN (dd_put p e2 s1)
           }
           else retrieveDataAndSendToL2Cache next SH_REP ?r a cached (dd_put p e1 s1)) (post ok I s1)"
        using data [OF put_good [OF g1 e ev]] one
        by (cases b) (simp_all, rule yields_opt, clarify, intro send, simp_all)
    qed
    show ?thesis
      by (rule continues_post [OF k], cases "de_dstate e")
        (use send g1 grant count count1 share in \<open>auto intro!: yields_ensure yields_opt\<close>)
  qed
  done

text \<open>A reply is sent, the entry changes, and the next request is processed.\<close>

lemma reply_post:
  assumes n: "next_ok ok I next" and g: "good ok I s1" and c: "rq_contents (dd_queue s1) a = req # rest"
    and req: "is_request (sm_type (rq_msg req))" and t: "is_reply t"
    and f: "\<And>s2. dd_cache s2 = dd_cache s1 \<Longrightarrow> dd_queue s2 = dd_queue s1 \<Longrightarrow>
       good ok I (f s2) \<and> dd_queue (f s2) = dd_queue s2 \<and> dd_out (f s2) = dd_out s2"
  shows "yields (do { s2 \<leftarrow> sendMsg t TAG_DIR L2_CACHE r (sm_requester (rq_msg req)) a d l w s1; next a (f s2) }) (post ok I s1)"
proof (rule yields_bind_mono [OF sendMsg_out])
  fix s2
  assume "\<exists>m. s2 = s1\<lparr>dd_out := dd_out s1 @ [(sm_requester (rq_msg req), m)]\<rparr> \<and> sm_type m = t \<and> sm_address m = a"
  then obtain m where s2: "s2 = s1\<lparr>dd_out := dd_out s1 @ [(sm_requester (rq_msg req), m)]\<rparr>" "sm_type m = t" "sm_address m = a"
    by blast
  then have f2: "good ok I (f s2) \<and> dd_queue (f s2) = dd_queue s2 \<and> dd_out (f s2) = dd_out s2" by (intro f) simp_all
  show "yields (next a (f s2)) (post ok I s1)"
    using f2 s2 t by (intro next_after_reply [OF n _ _ _ c req]) (simp_all add: replies_snoc)
qed

lemma upgrade_post:
  assumes n: "next_ok ok I next" and g: "good ok I s" and c: "rq_contents (dd_queue s) a = req # rest"
    and req: "is_request (sm_type (rq_msg req))"
  shows "yields (processUpgradeReqFromL2Cache next req cached s) (post ok I s)"
  unfolding processUpgradeReqFromL2Cache_def Let_def front_facts(1) [OF g c]
  apply (rule yields_bind_mono [OF get_or_allocate_continues [OF n g c]], clarify, rule yields_opt)
  subgoal premises prems for p s1 e
  proof -
    note k = prems(1) and e = prems(2)
    let ?r = "sm_requester (rq_msg req)" and ?m = "getMaxHwSharers (dd_cache s1)"
    obtain sharers where sh: "getSharersList e = (False, sharers)" by (simp add: getSharersList_def)
    have g1: "good ok I s1" using k by (rule continues_good)
    have c1: "rq_contents (dd_queue s1) a = req # rest" using k c by (simp add: continues_def)
    have owned: "yields (do {
        first \<leftarrow> nth_opt sharers 0;
        if first = ?r
        then do {
          ensure (de_owner e = ?r);
          s2 \<leftarrow> sendMsg UPGRADE_REP TAG_DIR L2_CACHE ?r ?r a None 0 HW_UNKNOWN s1;
          next a (dd_put p (e\<lparr>de_dstate := D_MODIFIED\<rparr>) s2)
        }
        else sendMsg FLUSH_REQ TAG_DIR L2_CACHE ?r (de_owner e) a None 0 HW_UNKNOWN s1 }) (post ok I s1)"
      if st: "de_dstate e = D_EXCLUSIVE \<or> de_dstate e = D_MODIFIED"
    proof -
      have "good ok I (dd_put p (e\<lparr>de_dstate := D_MODIFIED\<rparr>) s2)" if "dd_cache s2 = dd_cache s1" "dd_queue s2 = dd_queue s1" for s2
        using put_good [of s2 p e "e\<lparr>de_dstate := D_MODIFIED\<rparr>"] that g1 e evolves_modified [of e ?m] st
        by (auto simp: good_def)
      then show ?thesis
        by (intro yields_opt) (auto intro!: yields_ensure reply_post [OF n g1 c1 req] yields_mono [OF sendMsg_quiet]
            simp: post_quiet [OF g1])
    qed
    have take: "yields (do {
          e1 \<leftarrow> setOwner ?r e;
          s2 \<leftarrow> sendMsg UPGRADE_REP TAG_DIR L2_CACHE ?r ?r a None 0 HW_UNKNOWN (dd_put p (e1\<lparr>de_dstate := D_MODIFIED\<rparr>) s1);
          next a s2 }) (post ok I s1)" if st: "de_dstate e = D_SHARED" and one: "sharers = [?r]"
    proof (rule yields_opt)
      fix e1
      assume "setOwner ?r e = Some e1"
      then have "e1 = e\<lparr>de_owner := ?r\<rparr>" by (rule setOwner_effect)
      then have g2: "good ok I (dd_put p (e1\<lparr>de_dstate := D_MODIFIED\<rparr>) s1)"
        using put_good [OF g1 e evolves_take [OF st, of ?r]] sh one by simp
      show "yields (do { s2 \<leftarrow> sendMsg UPGRADE_REP TAG_DIR L2_CACHE ?r ?r a None 0 HW_UNKNOWN (dd_put p (e1\<lparr>de_dstate := D_MODIFIED\<rparr>) s1);
          next a s2 }) (post ok I s1)"
        by (rule yields_mono [OF reply_post [OF n g2 _ req, where f = "\<lambda>s. s"]])
          (use c1 g2 in \<open>simp_all add: post_def good_def\<close>)
    qed
    have grant: "yields (do {
        ensure b;
        (add_result, e1) \<leftarrow> addSharer ?r ?m e;
        ensure add_result;
        e2 \<leftarrow> setOwner ?r e1;
        retrieveDataAndSendToL2Cache next EX_REP ?r a d (dd_put p (e2\<lparr>de_dstate := D_MODIFIED\<rparr>) s1) }) (post ok I s1)"
      if "de_dstate e = D_UNCACHED" for b d
      using that e by (intro yields_ensure yields_opt, clarify, intro yields_ensure yields_opt)
        (auto intro!: grant_post [OF n g1 c1 req])
    have one: "sharers = [?r]" if "length sharers = 1" "sharers ! 0 = ?r"
      using that by (cases sharers) auto
    have inv: "yields (upgrade_invalidations b ?r a i sharers s1) (post ok I s1)" for b i
      by (rule yields_mono [OF upgrade_invalidations_quiet]) (rule post_quiet [OF g1])
    show ?thesis
      unfolding sh prod.case
      by (rule continues_post [OF k], cases "de_dstate e")
        (use owned take grant one inv in \<open>auto intro!: yields_opt\<close>)
  qed
  done

lemma dram_reply_post:
  assumes n: "next_ok ok I next" and g: "good ok I s"
  shows "yields (processDRAMReply next sender m s) (post ok I s)"
  unfolding processDRAMReply_def Let_def
  apply (rule yields_ensure, rule yields_opt)
  subgoal premises prems for req
  proof -
    let ?a = "sm_address m"
    obtain rest where c: "rq_contents (dd_queue s) ?a = req # rest" using prems(2) by (auto simp: rq_front_first)
    have reply: "yields (do {
          s2 \<leftarrow> sendMsg t TAG_DIR L2_CACHE (sm_requester (rq_msg req)) (sm_requester (rq_msg req)) ?a d l w s1;
          s3 \<leftarrow> sendDataToNUCA ?a d False s2;
          next ?a s3 }) (post ok I s)"
      if g1: "good ok I s1" and q: "dd_queue s1 = dd_queue s" and out: "dd_out s1 = dd_out s"
        and req: "is_request (sm_type (rq_msg req))" and t: "is_reply t" for t d l w s1
    proof (rule yields_bind_mono [OF sendMsg_out], rule yields_bind_mono [OF sendDataToNUCA_quiet])
      fix s2 s3
      assume "\<exists>m. s2 = s1\<lparr>dd_out := dd_out s1 @ [(sm_requester (rq_msg req), m)]\<rparr> \<and> sm_type m = t \<and> sm_address m = ?a"
        and q3: "quiet s2 s3"
      then obtain x where s2: "s2 = s1\<lparr>dd_out := dd_out s1 @ [(sm_requester (rq_msg req), x)]\<rparr>" "sm_type x = t" "sm_address x = ?a"
        by blast
      have "good ok I s2" using g1 by (simp add: s2 good_def)
      then show "yields (next ?a s3) (post ok I s)"
        using good_quiet q3 s2 q out t
        by (intro next_after_reply [OF n _ _ _ c req]) (auto simp: quiet_def replies_snoc)
    qed
    show ?thesis
    proof (rule yields_bind_mono [OF get_good [OF g front_facts(2) [OF g c]]], clarify, rule yields_opt, rule yields_opt,
        rule yields_opt)
      fix r s1 p e t
      assume g1: "good ok I s1" "dd_queue s1 = dd_queue s" "dd_out s1 = dd_out s"
        and t: "(case sm_type (rq_msg req) of
         SH_REQ \<Rightarrow> do {
           ensure (de_dstate e = D_SHARED \<or> de_dstate e = D_EXCLUSIVE);
           Some (if de_dstate e = D_EXCLUSIVE then EX_REP else SH_REP)
         }
       | EX_REQ \<Rightarrow> do {
           ensure (de_dstate e = D_MODIFIED);
           Some EX_REP
         }
       | UPGRADE_REQ \<Rightarrow> Some EX_REP
       | _ \<Rightarrow> None) = Some t"
      have "is_request (sm_type (rq_msg req)) \<and> is_reply t"
        using t by (auto simp: is_request_def split: msg_t.splits if_splits)
      then show "yields (do {
          s2 \<leftarrow> sendMsg t TAG_DIR L2_CACHE (sm_requester (rq_msg req)) (sm_requester (rq_msg req)) ?a (sm_data m)
            (dd_cache_block_size s1) (if sm_where m = HW_DRAM
             then (if sender = sm_requester m then HW_DRAM_LOCAL else HW_DRAM_REMOTE)
             else sm_where m) s1;
          s3 \<leftarrow> sendDataToNUCA ?a (sm_data m) False s2;
          next ?a s3 }) (post ok I s)"
        by (intro reply [OF g1]) simp_all
    qed
  qed
  done

text \<open>Any request at the front of a queue.\<close>

lemma front_request:
  assumes "good ok I s" and "rq_front a (dd_queue s) = Some req"
  obtains rest where "rq_contents (dd_queue s) a = req # rest"
    "is_request (sm_type (rq_msg req)) \<or> sm_type (rq_msg req) = NULLIFY_REQ"
  using assms front_facts(3) by (metis rq_front_first)

lemma process_nullify_post:
  assumes n: "next_ok ok I next" and g: "good ok I s" and c: "rq_contents (dd_queue s) a = req # rest"
    and t: "sm_type (rq_msg req) = NULLIFY_REQ"
  shows "yields (processNullifyReq next req s) (post ok I s)"
  by (rule yields_mono [OF nullify_post [OF assms]]) simp

lemma is_request_simps [simp]:
  "is_request EX_REQ" "is_request SH_REQ" "is_request UPGRADE_REQ"
  by (simp_all add: is_request_def)

lemma not_three: "is_request t \<or> t = NULLIFY_REQ \<Longrightarrow> t \<noteq> EX_REQ \<Longrightarrow> t \<noteq> SH_REQ \<Longrightarrow> t \<noteq> UPGRADE_REQ \<Longrightarrow> t = NULLIFY_REQ"
  by (auto simp: is_request_def)

lemma wb_post:
  assumes n: "next_ok ok I next" and g: "good ok I s" and a: "ok (sm_address m)"
  shows "yields (processWbRepFromL2Cache next sender m s) (post ok I s)"
  unfolding processWbRepFromL2Cache_def Let_def
  apply (rule yields_bind_mono [OF get_good [OF g a]], clarify, rule yields_opt, rule yields_opt, rule yields_opt,
      rule yields_ensure, rule yields_opt)
  subgoal premises prems for r s1 p e has e1
  proof -
    have e1: "e1 = e\<lparr>de_owner := INVALID_CORE_ID\<rparr>" using prems(8) by (rule setOwner_effect)
    have has: "hasSharer sender e = Some True" using prems by simp
    have g2: "good ok I (dd_put p (e1\<lparr>de_dstate := D_SHARED\<rparr>) s1)"
      using put_good [OF prems(1) prems(5) evolves_share [OF has]] e1 by simp
    have h: "history (dd_put p (e1\<lparr>de_dstate := D_SHARED\<rparr>) s1) = history s"
      using history_cong [OF prems(2,3)] by simp
    have "yields (processShReqFromL2Cache next req d (dd_put p (e1\<lparr>de_dstate := D_SHARED\<rparr>) s1)) (post ok I s)"
      if "rq_front (sm_address m) (dd_queue (dd_put p (e1\<lparr>de_dstate := D_SHARED\<rparr>) s1)) = Some req"
        "sm_type (rq_msg req) = SH_REQ" for req d
      using that h g2
      by (elim front_request [OF g2]) (rule yields_mono [OF sh_post [OF n g2]], auto simp: post_def)
    then show ?thesis
      by (cases "rq_size (sm_address m) (dd_queue (dd_put p (e1\<lparr>de_dstate := D_SHARED\<rparr>) s1)) \<noteq> 0")
        (auto intro!: yields_opt yields_ensure)
  qed
  done

lemma evolves_inv:
  assumes "removeSharer r x e = Some e1" and "de_dstate e = D_SHARED \<or> de_dstate e = D_EXCLUSIVE"
    and "e2 = (if de_forwarder e1 = r then e1\<lparr>de_forwarder := INVALID_CORE_ID\<rparr> else e1)"
  shows "evolves m e (if getNumSharers e2 = 0 then e2\<lparr>de_dstate := D_UNCACHED\<rparr> else e2)"
proof -
  note a = removeSharer_effect [OF assms(1)]
  have e2: "sharer_set e2 = sharer_set e1" "de_dstate e2 = de_dstate e" "de_address e2 = de_address e"
    "de_owner e2 = de_owner e" "de_kind e2 = de_kind e" "getNumSharers e2 = getNumSharers e1"
    using a assms(3) by (simp_all add: num_sharers_set)
  have e1: "e1\<lparr>de_forwarder := de_forwarder e2, de_owner := de_owner e2\<rparr> = e2"
    using a assms(3) by simp
  show ?thesis
  proof (cases "getNumSharers e1 = 0 \<or> de_dstate e = D_SHARED")
    case True
    then show ?thesis
      using evolves_remove [OF assms(1) True, of m "de_owner e2" "de_forwarder e2"] e2(6) unfolding e1 by simp
  next
    case False
    then have "\<not> entry_ok m e"
      using a(1,2) assms(2) by (auto simp: entry_ok_def num_sharers_set)
    then show ?thesis using e2(3) by (simp add: evolves_def)
  qed
qed

lemma inv_post:
  assumes n: "next_ok ok I next" and g: "good ok I s" and a: "ok (sm_address m)"
  shows "yields (processInvRepFromL2Cache next sender m s) (post ok I s)"
  unfolding processInvRepFromL2Cache_def Let_def
  apply (rule yields_bind_mono [OF get_good [OF g a]], clarify, rule yields_opt, rule yields_opt, rule yields_ensure, rule yields_opt)
  subgoal premises prems for r s1 p e e1
  proof -
    let ?a = "sm_address m"
    define e2 where "e2 = (if de_forwarder e1 = sender then e1\<lparr>de_forwarder := INVALID_CORE_ID\<rparr> else e1)"
    define e3 where "e3 = (if getNumSharers e2 = 0 then e2\<lparr>de_dstate := D_UNCACHED\<rparr> else e2)"
    define s2 where "s2 = dd_put p e3 s1"
    have ev: "evolves x e e3" for x
      unfolding e3_def by (rule evolves_inv [OF prems(7,6) e2_def])
    have g2: "good ok I s2" unfolding s2_def by (rule put_good [OF prems(1) prems(5) ev])
    have h2: "history s2 = history s" using history_cong [OF prems(2,3)] by (simp add: s2_def)
    have same: "dd_put p (e3\<lparr>de_dstate := D_UNCACHED\<rparr>) s2 = s2" if "getNumSharers e3 = 0"
    proof -
      have "e3\<lparr>de_dstate := D_UNCACHED\<rparr> = e3"
        using that by (cases "getNumSharers e2 = 0") (simp_all add: e3_def num_sharers_set)
      then show ?thesis by (simp add: s2_def dd_put_def dc_update_def)
    qed
    have lift: "yields x (post ok I s2) \<Longrightarrow> yields x (post ok I s)" for x
      by (erule yields_mono) (simp add: post_def h2)
    have stop: "post ok I s s2" using g2 h2 by (simp add: post_def)
    have branches: "yields (if sm_type (rq_msg req) = EX_REQ
       then (if de_dstate e3 = D_UNCACHED then processExReqFromL2Cache next req None s2 else Some s2)
       else if sm_type (rq_msg req) = UPGRADE_REQ
       then (if getNumSharers e3 = 1
         then do {
           has \<leftarrow> hasSharer (sm_requester (rq_msg req)) e3;
           if has then processUpgradeReqFromL2Cache next req None s2 else Some s2
         }
         else if getNumSharers e3 = 0
         then processUpgradeReqFromL2Cache next req None (dd_put p (e3\<lparr>de_dstate := D_UNCACHED\<rparr>) s2)
         else Some s2)
       else if sm_type (rq_msg req) = SH_REQ
       then (if rq_wait_for_data req then Some s2
         else if isForwarding req \<and> sender \<noteq> rq_forwarding_from req then Some s2
         else processShReqFromL2Cache next req None s2)
       else (if de_dstate e3 = D_UNCACHED then processNullifyReq next req s2 else Some s2)) (post ok I s)"
      if "rq_front ?a (dd_queue s2) = Some req" for req
    proof (rule front_request [OF g2 that])
      fix rest
      assume c: "rq_contents (dd_queue s2) ?a = req # rest" and t: "is_request (sm_type (rq_msg req)) \<or> sm_type (rq_msg req) = NULLIFY_REQ"
      have "yields (processExReqFromL2Cache next req None s2) (post ok I s)" if "sm_type (rq_msg req) = EX_REQ"
        by (rule lift, rule ex_post [OF n g2 c]) (simp add: that)
      moreover have "yields (processShReqFromL2Cache next req None s2) (post ok I s)" if "sm_type (rq_msg req) = SH_REQ"
        by (rule lift, rule sh_post [OF n g2 c]) (simp add: that)
      moreover have "yields (processUpgradeReqFromL2Cache next req None s2) (post ok I s)" if "sm_type (rq_msg req) = UPGRADE_REQ"
        by (rule lift, rule upgrade_post [OF n g2 c]) (simp add: that)
      moreover have "yields (processNullifyReq next req s2) (post ok I s)" if "sm_type (rq_msg req) = NULLIFY_REQ"
        by (rule lift, rule process_nullify_post [OF n g2 c that])
      ultimately show ?thesis
        using not_three [OF t] stop same by (auto intro!: yields_opt)
    qed
    show ?thesis
      unfolding e2_def [symmetric] e3_def [symmetric] s2_def [symmetric]
      using branches stop by (auto intro!: yields_opt)
  qed
  done

lemma flush_post:
  assumes n: "next_ok ok I next" and g: "good ok I s" and a: "ok (sm_address m)"
  shows "yields (processFlushRepFromL2Cache next sender m s) (post ok I s)"
  unfolding processFlushRepFromL2Cache_def Let_def
  apply (rule yields_bind_mono [OF get_good [OF g a]], clarify, rule yields_opt, rule yields_opt, rule yields_opt,
      rule yields_ensure, rule yields_opt, rule yields_opt, rule yields_opt)
  subgoal premises prems for r s1 p e has e1 e2 e3
  proof -
    let ?a = "sm_address m" and ?d = "sm_data m"
    define s2 where "s2 = dd_put p e3 s1"
    have e2: "e2 = e1\<lparr>de_forwarder := INVALID_CORE_ID, de_owner := INVALID_CORE_ID\<rparr>"
      using setOwner_effect(1) [OF prems(9)] by simp
    have st: "getNumSharers e1 = 0 \<or> de_dstate e = D_SHARED"
      and e3: "e3 = (if getNumSharers e1 = 0
        then e1\<lparr>de_forwarder := INVALID_CORE_ID, de_owner := INVALID_CORE_ID, de_dstate := D_UNCACHED\<rparr>
        else e1\<lparr>de_forwarder := INVALID_CORE_ID, de_owner := INVALID_CORE_ID\<rparr>)"
      using prems(10) removeSharer_effect(3) [OF prems(8)] by (auto simp: e2 num_sharers_set split: if_splits)
    have g2: "good ok I s2"
      unfolding s2_def e3 by (rule put_good [OF prems(1) prems(5) evolves_remove [OF prems(8) st]])
    have h2: "history s2 = history s" using history_cong [OF prems(2,3)] by (simp add: s2_def)
    have same: "dd_put p (e3\<lparr>de_dstate := D_UNCACHED\<rparr>) s2 = s2" if "getNumSharers e3 = 0"
      using that by (simp add: s2_def dd_put_def dc_update_def e3 num_sharers_set split: if_splits)
    have dram: "yields (sendDataToDram ?a x ?d s2) (\<lambda>s3. good ok I s3 \<and> history s3 = history s \<and> dd_queue s3 = dd_queue s2)" for x
    proof (rule yields_mono [OF sendDataToDram_quiet])
      fix s3
      assume q: "quiet s2 s3"
      show "good ok I s3 \<and> history s3 = history s \<and> dd_queue s3 = dd_queue s2"
        using good_quiet [OF g2 q] quiet_history [OF q] h2 q by (simp add: quiet_def)
    qed
    have lift: "yields x (post ok I s3) \<Longrightarrow> history s3 = history s \<Longrightarrow> yields x (post ok I s)" for x s3
      by (erule yields_mono) (simp add: post_def)
    have branches: "yields (if sm_type (rq_msg req) = EX_REQ
       then processExReqFromL2Cache next req ?d s2
       else if sm_type (rq_msg req) = SH_REQ
       then do {
         s3 \<leftarrow> sendDataToDram ?a (sm_requester m) ?d s2;
         processShReqFromL2Cache next req ?d s3
       }
       else if sm_type (rq_msg req) = UPGRADE_REQ
       then (if getNumSharers e3 = 0
         then processUpgradeReqFromL2Cache next req ?d (dd_put p (e3\<lparr>de_dstate := D_UNCACHED\<rparr>) s2)
         else Some (set_front ?a (req\<lparr>rq_msg := (rq_msg req)\<lparr>sm_data := map_option (dd_freed s2) ?d\<rparr>\<rparr>) s2))
       else do {
         s3 \<leftarrow> sendDataToDram ?a (sm_requester m) ?d s2;
         processNullifyReq next req s3
       }) (post ok I s)"
      if "rq_front ?a (dd_queue s2) = Some req" for req
    proof (rule front_request [OF g2 that])
      fix rest
      assume c: "rq_contents (dd_queue s2) ?a = req # rest" and t: "is_request (sm_type (rq_msg req)) \<or> sm_type (rq_msg req) = NULLIFY_REQ"
      have "yields (processExReqFromL2Cache next req ?d s2) (post ok I s)" if "sm_type (rq_msg req) = EX_REQ"
        by (rule lift [OF ex_post [OF n g2 c] h2]) (simp add: that)
      moreover have "yields (do { s3 \<leftarrow> sendDataToDram ?a (sm_requester m) ?d s2; processShReqFromL2Cache next req ?d s3 }) (post ok I s)"
        if "sm_type (rq_msg req) = SH_REQ"
        by (rule yields_bind_mono [OF dram], rule lift [OF sh_post [OF n]]) (use that c in auto)
      moreover have "yields (processUpgradeReqFromL2Cache next req ?d s2) (post ok I s)" if "sm_type (rq_msg req) = UPGRADE_REQ"
        by (rule lift [OF upgrade_post [OF n g2 c] h2]) (simp add: that)
      moreover have "post ok I s (set_front ?a (req\<lparr>rq_msg := (rq_msg req)\<lparr>sm_data := x\<rparr>\<rparr>) s2)" for x
        using set_front_ok [OF _ c, of ok "req\<lparr>rq_msg := (rq_msg req)\<lparr>sm_data := x\<rparr>\<rparr>"] g2 h2
        by (simp add: post_def good_def same_request_def) (simp add: set_front_def)
      moreover have "yields (do { s3 \<leftarrow> sendDataToDram ?a (sm_requester m) ?d s2; processNullifyReq next req s3 }) (post ok I s)"
        if "sm_type (rq_msg req) = NULLIFY_REQ"
        by (rule yields_bind_mono [OF dram], rule lift [OF process_nullify_post [OF n]]) (use that c in auto)
      ultimately show ?thesis
        using not_three [OF t] same by auto
    qed
    have evict: "yields (sendDataToDram ?a x ?d s2) (post ok I s)" for x
      by (rule yields_mono [OF dram]) (simp add: post_def)
    show ?thesis
      unfolding s2_def [symmetric]
      using branches evict by (auto intro!: yields_opt)
  qed
  done

section \<open>Messages\<close>

lemma processNext_ok: "next_ok ok I (processNextReqFromL2Cache k)"
proof (induction k)
  case 0
  then show ?case by (simp add: next_ok_def)
next
  case (Suc k)
  show ?case
    unfolding next_ok_def
  proof (intro allI impI)
    fix a s req rest
    assume g: "good ok I s" and c: "rq_contents (dd_queue s) a = req # rest"
    have wf: "rq_wf (dd_queue s)" using g by (simp add: good_def queue_ok_def)
    show "yields (processNextReqFromL2Cache (Suc k) a s) (\<lambda>s'. good ok I s' \<and>
       (\<forall>b. history s' b = replies (dd_out s) b @ waiting (if b = a then rest else rq_contents (dd_queue s) b)) \<and>
       (rest = [] \<longrightarrow> (\<forall>b. b \<noteq> a \<longrightarrow> rq_contents (dd_queue s') b = rq_contents (dd_queue s) b)))" (is "yields _ ?Q")
      unfolding processNextReqFromL2Cache.simps Let_def
    proof (rule yields_ensure, rule yields_opt, clarify)
      fix x q
      assume "rq_dequeue a (dd_queue s) = Some (x, q)"
      from rq_dequeue_contents [OF wf this] have q: "rq_wf q" "rq_contents q a = rest"
        "\<And>b. b \<noteq> a \<Longrightarrow> rq_contents q b = rq_contents (dd_queue s) b"
        using c by auto
      define s1 where "s1 = s\<lparr>dd_queue := q\<rparr>"
      have "set (rq_contents q b) \<subseteq> set (rq_contents (dd_queue s) b)" for b
        using q c by (cases "b = a") auto
      then have "queue_ok ok q" using queue_ok_contents [of ok "dd_queue s" q] g q(1) by (simp add: good_def)
      then have g1: "good ok I s1" using g by (simp add: good_def s1_def)
      have h1: "history s1 b = replies (dd_out s) b @ waiting (if b = a then rest else rq_contents (dd_queue s) b)" for b
        using q by (simp add: history_def s1_def)
      have step: "yields P (post ok I s1) \<Longrightarrow> rest \<noteq> [] \<Longrightarrow> yields P ?Q" for P
        by (erule yields_mono) (simp add: post_def h1)
      have proc: "yields (if sm_type (rq_msg r) = EX_REQ
          then processExReqFromL2Cache (processNextReqFromL2Cache k) r None s1
          else if sm_type (rq_msg r) = SH_REQ
          then processShReqFromL2Cache (processNextReqFromL2Cache k) r None s1
          else if sm_type (rq_msg r) = UPGRADE_REQ
          then processUpgradeReqFromL2Cache (processNextReqFromL2Cache k) r None s1
          else None) ?Q" if fr: "rq_front a q = Some r" for r
      proof -
        obtain rest' where "rq_contents q a = r # rest'" using fr unfolding rq_front_first by blast
        then have c1: "rq_contents (dd_queue s1) a = r # rest'" and ne: "rest \<noteq> []"
          using q(2) by (auto simp: s1_def)
        show ?thesis
          by (rule step [OF _ ne])
            (use ex_post [OF Suc.IH g1 c1] sh_post [OF Suc.IH g1 c1] upgrade_post [OF Suc.IH g1 c1] in auto)
      qed
      have stop: "?Q s1" if "rq_empty a q"
        using g1 h1 q by (simp add: s1_def)
      show "yields (if \<not> rq_empty a q
          then do {
            r \<leftarrow> rq_front a q;
            if sm_type (rq_msg r) = EX_REQ
            then processExReqFromL2Cache (processNextReqFromL2Cache k) r None (s\<lparr>dd_queue := q\<rparr>)
            else if sm_type (rq_msg r) = SH_REQ
            then processShReqFromL2Cache (processNextReqFromL2Cache k) r None (s\<lparr>dd_queue := q\<rparr>)
            else if sm_type (rq_msg r) = UPGRADE_REQ
            then processUpgradeReqFromL2Cache (processNextReqFromL2Cache k) r None (s\<lparr>dd_queue := q\<rparr>)
            else None
          }
          else Some (s\<lparr>dd_queue := q\<rparr>)) ?Q"
        unfolding s1_def [symmetric] by (rule yields_if) (rule yields_opt, erule proc, simp only: yields_simps, rule stop, simp)
    qed
  qed
qed

lemma enqueue_post:
  assumes g: "good ok I s" and a: "ok (sm_address m)" and t: "is_request (sm_type m)"
    and proc: "\<And>req s1. good ok I s1 \<Longrightarrow> rq_contents (dd_queue s1) (sm_address m) = [req] \<Longrightarrow>
      is_request (sm_type (rq_msg req)) \<Longrightarrow> yields (process req s1) (post ok I s1)"
  shows "yields (enqueue_request process m s) (\<lambda>s'. good ok I s' \<and>
    (\<forall>b. history s' b = history s b @ (if sm_address m = b then [sm_requester m] else [])))" (is "yields _ ?Q")
  unfolding enqueue_request_def Let_def
proof (rule yields_opt, rule yields_if)
  fix req
  assume "ShmemReq_new (un_where (dd_uninit s)) m = Some req"
  then have r: "sm_address (rq_msg req) = sm_address m" "sm_type (rq_msg req) = sm_type m"
    "sm_requester (rq_msg req) = sm_requester m"
    by (auto simp: ShmemReq_new_def ShmemMsg_copy_def)
  define s1 where "s1 = s\<lparr>dd_queue := rq_enqueue (sm_address m) req (dd_queue s)\<rparr>"
  have g1: "good ok I s1"
    using g queue_ok_enqueue [of ok "dd_queue s" req] r a t by (simp add: good_def s1_def)
  have h1: "history s1 b = history s b @ (if sm_address m = b then [sm_requester m] else [])" for b
    using r t by (simp add: history_def s1_def rq_enqueue_contents)
  show "yields (Some (s\<lparr>dd_queue := rq_enqueue (sm_address m) req (dd_queue s)\<rparr>)) ?Q"
    unfolding s1_def [symmetric] using g1 h1 by simp
  assume "rq_size (sm_address m) (dd_queue (s\<lparr>dd_queue := rq_enqueue (sm_address m) req (dd_queue s)\<rparr>)) = 1"
  then have "rq_contents (dd_queue s1) (sm_address m) = [req]"
    by (simp add: rq_size_contents rq_enqueue_contents s1_def)
  from proc [OF g1 this] r t have "yields (process req s1) (post ok I s1)" by simp
  then show "yields (process req (s\<lparr>dd_queue := rq_enqueue (sm_address m) req (dd_queue s)\<rparr>)) ?Q"
    unfolding s1_def [symmetric] by (rule yields_mono) (simp add: post_def h1)
qed

lemma l2_message:
  assumes n: "next_ok ok I next" and g: "good ok I s" and a: "ok (sm_address m)"
  shows "yields (dispatchMsgFromL2Cache next sender m s) (\<lambda>s'. good ok I s' \<and>
    (\<forall>b. history s' b = history s b @ requests_at b [FromL2 sender m]))" (is "yields _ ?Q")
  unfolding dispatchMsgFromL2Cache_def
proof (rule yields_bind_mono [OF get_good [OF g a]], clarify)
  fix r s1
  assume g1: "good ok I s1" and q: "dd_queue s1 = dd_queue s" and out: "dd_out s1 = dd_out s"
  note h1 = history_cong [OF q out]
  have reply: "yields x (post ok I s1) \<Longrightarrow> \<not> is_request (sm_type m) \<Longrightarrow> yields x ?Q" for x
    by (erule yields_mono) (simp add: post_def h1)
  have request: "yields (enqueue_request process m s1) ?Q"
    if "is_request (sm_type m)" and "\<And>req s2. good ok I s2 \<Longrightarrow> rq_contents (dd_queue s2) (sm_address m) = [req] \<Longrightarrow>
      is_request (sm_type (rq_msg req)) \<Longrightarrow> yields (process req s2) (post ok I s2)" for process
    by (rule yields_mono [OF enqueue_post [OF g1 a that]]) (simp_all add: h1 that(1))
  show "yields (case sm_type m of
       EX_REQ \<Rightarrow> enqueue_request (\<lambda>req. processExReqFromL2Cache next req None) m s1
     | SH_REQ \<Rightarrow> enqueue_request (\<lambda>req. processShReqFromL2Cache next req None) m s1
     | INV_REP \<Rightarrow> processInvRepFromL2Cache next sender m s1
     | FLUSH_REP \<Rightarrow> processFlushRepFromL2Cache next sender m s1
     | WB_REP \<Rightarrow> processWbRepFromL2Cache next sender m s1
     | UPGRADE_REQ \<Rightarrow> enqueue_request (\<lambda>req. processUpgradeReqFromL2Cache next req None) m s1
     | _ \<Rightarrow> None) ?Q"
  proof (cases "sm_type m")
    case EX_REQ
    show ?thesis unfolding EX_REQ msg_t.case by (rule request) (simp add: EX_REQ, rule ex_post [OF n])
  next
    case SH_REQ
    show ?thesis unfolding SH_REQ msg_t.case by (rule request) (simp add: SH_REQ, rule sh_post [OF n])
  next
    case UPGRADE_REQ
    show ?thesis unfolding UPGRADE_REQ msg_t.case by (rule request) (simp add: UPGRADE_REQ, rule upgrade_post [OF n])
  next
    case INV_REP
    show ?thesis unfolding INV_REP msg_t.case by (rule reply [OF inv_post [OF n g1 a]]) (simp add: INV_REP is_request_def)
  next
    case FLUSH_REP
    show ?thesis unfolding FLUSH_REP msg_t.case by (rule reply [OF flush_post [OF n g1 a]]) (simp add: FLUSH_REP is_request_def)
  next
    case WB_REP
    show ?thesis unfolding WB_REP msg_t.case by (rule reply [OF wb_post [OF n g1 a]]) (simp add: WB_REP is_request_def)
  qed simp_all
qed

lemma dram_message:
  assumes n: "next_ok ok I next" and g: "good ok I s"
  shows "yields (dispatchMsgFromDRAM next sender m s) (post ok I s)"
  using dram_reply_post [OF n g] by (simp add: dispatchMsgFromDRAM_def split: msg_t.splits)

lemma step_good:
  assumes "good ok I s" and "ok (sm_address (input_msg x))" and "dd_step x s = Some s'"
  shows "good ok I s' \<and> (\<forall>b. history s' b = history s b @ requests_at b [x])"
proof (cases x)
  case (FromL2 sender m)
  then show ?thesis
    using l2_message [OF processNext_ok assms(1), of m _ sender] assms(2,3)
    by (simp add: handleMsgFromL2Cache_def yields_def)
next
  case (FromDRAM sender m)
  then show ?thesis
    using dram_message [OF processNext_ok assms(1), of _ sender m] assms(3)
    by (simp add: handleMsgFromDRAM_def yields_def post_def)
qed

lemma requests_at_append: "requests_at b (xs @ ys) = requests_at b xs @ requests_at b ys"
  by (induction b xs rule: requests_at.induct) simp_all

lemma run_good:
  assumes "good ok I s" and "list_all (\<lambda>x. ok (sm_address (input_msg x))) xs" and "fold_opt dd_step xs s = Some s'"
  shows "good ok I s' \<and> (\<forall>b. history s' b = history s b @ requests_at b xs)"
  using assms
proof (induction xs arbitrary: s)
  case (Cons x xs)
  then obtain s1 where 1: "dd_step x s = Some s1" and 2: "fold_opt dd_step xs s1 = Some s'"
    by (auto simp: abort_simps)
  have "ok (sm_address (input_msg x))" using Cons.prems(2) by simp
  from step_good [OF Cons.prems(1) this 1]
  have s1: "good ok I s1" "\<forall>b. history s1 b = history s b @ requests_at b [x]" by auto
  from Cons.IH [OF s1(1) _ 2] Cons.prems(2)
  have "good ok I s' \<and> (\<forall>b. history s' b = history s1 b @ requests_at b xs)" by simp
  then show ?case using s1(2) requests_at_append [of _ "[x]" xs] by simp
qed simp

lemma run_from_new:
  assumes "I (dd_cache s)" and "dd_queue s = Map.empty" and "dd_out s = []"
    and "list_all (\<lambda>x. ok (sm_address (input_msg x))) xs" and "fold_opt dd_step xs s = Some s'"
  shows "I (dd_cache s') \<and> history s' b = requests_at b xs"
proof -
  have "good ok I s" using assms(1,2) by (simp add: good_def queue_ok_def rq_wf_def rq_contents_def)
  moreover have "history s b = []" using assms(2,3) by (simp add: history_def replies_def rq_contents_def)
  ultimately show ?thesis using run_good [OF _ assms(4,5)] by (simp add: good_def)
qed

end

end
