(* ===== verification/DramDirectoryProps.thy ===== *)
theory DramDirectoryProps
  imports DramDirectoryInv
begin

text \<open>
  Properties of the directory controller for every sequence of messages, and the bound on the depth of its
  recursion.
\<close>

section \<open>The depth of the recursion\<close>

interpretation queues: directory_invariant "\<lambda>_. True" "\<lambda>_. True"
  by unfold_locales simp_all

lemma bind_same: "(\<And>r. x = Some r \<Longrightarrow> f r = g r) \<Longrightarrow> Option.bind x f = Option.bind x g"
  by (cases x) simp_all

definition agree :: "nat \<Rightarrow> (IntPtr \<Rightarrow> dd_state \<Rightarrow> dd_state option) \<Rightarrow> (IntPtr \<Rightarrow> dd_state \<Rightarrow> dd_state option) \<Rightarrow> bool" where
  "agree k n1 n2 \<longleftrightarrow> (\<forall>a s. queue_ok (\<lambda>_. True) (dd_queue s) \<longrightarrow> rq_size a (dd_queue s) \<le> k \<longrightarrow> n1 a s = n2 a s)"

lemma agreeD: "agree k n1 n2 \<Longrightarrow> queue_ok (\<lambda>_. True) (dd_queue s) \<Longrightarrow> rq_size a (dd_queue s) \<le> k \<Longrightarrow> n1 a s = n2 a s"
  by (simp add: agree_def)

lemma get_queue: "dd_getDirectoryEntry a s = Some (r, s') \<Longrightarrow> dd_queue s' = dd_queue s"
  by (auto simp: dd_getDirectoryEntry_def abort_simps)

lemma send_queue: "sendMsg t c1 c2 r x a d l w s = Some s' \<Longrightarrow> dd_queue s' = dd_queue s"
  using sendMsg_out [of t c1 c2 r x a d l w s] by (auto simp: yields_def)

lemma nullify_cong:
  assumes "\<And>s'. dd_queue s' = dd_queue s \<Longrightarrow> n1 (sm_address (rq_msg req)) s' = n2 (sm_address (rq_msg req)) s'"
  shows "processNullifyReq n1 req s = processNullifyReq n2 req s"
  unfolding processNullifyReq_def Let_def
proof (rule bind_same, clarify, rule bind_same, rule bind_same)
  fix r s1 p e
  assume "dd_getDirectoryEntry (sm_address (rq_msg req)) s = Some (r, s1)"
  then have "dd_queue s1 = dd_queue s" by (rule get_queue)
  then have "(do { c \<leftarrow> invalidateDirectoryEntry (sm_address (rq_msg req)) (dd_cache s1);
         n1 (sm_address (rq_msg req)) (s1\<lparr>dd_cache := c\<rparr>) })
     = (do { c \<leftarrow> invalidateDirectoryEntry (sm_address (rq_msg req)) (dd_cache s1);
         n2 (sm_address (rq_msg req)) (s1\<lparr>dd_cache := c\<rparr>) })"
    by (intro bind_same assms) simp
  then show "(case de_dstate e of
       D_EXCLUSIVE \<Rightarrow> sendMsg FLUSH_REQ TAG_DIR L2_CACHE (sm_requester (rq_msg req)) (de_owner e) (sm_address (rq_msg req)) None 0 HW_UNKNOWN s1
     | D_MODIFIED \<Rightarrow> sendMsg FLUSH_REQ TAG_DIR L2_CACHE (sm_requester (rq_msg req)) (de_owner e) (sm_address (rq_msg req)) None 0 HW_UNKNOWN s1
     | D_SHARED \<Rightarrow> invalidate_sharers (sm_requester (rq_msg req)) (sm_address (rq_msg req)) e s1
     | D_UNCACHED \<Rightarrow> do {
         c \<leftarrow> invalidateDirectoryEntry (sm_address (rq_msg req)) (dd_cache s1);
         n1 (sm_address (rq_msg req)) (s1\<lparr>dd_cache := c\<rparr>)
       }
     | D_OWNED \<Rightarrow> None)
   = (case de_dstate e of
       D_EXCLUSIVE \<Rightarrow> sendMsg FLUSH_REQ TAG_DIR L2_CACHE (sm_requester (rq_msg req)) (de_owner e) (sm_address (rq_msg req)) None 0 HW_UNKNOWN s1
     | D_MODIFIED \<Rightarrow> sendMsg FLUSH_REQ TAG_DIR L2_CACHE (sm_requester (rq_msg req)) (de_owner e) (sm_address (rq_msg req)) None 0 HW_UNKNOWN s1
     | D_SHARED \<Rightarrow> invalidate_sharers (sm_requester (rq_msg req)) (sm_address (rq_msg req)) e s1
     | D_UNCACHED \<Rightarrow> do {
         c \<leftarrow> invalidateDirectoryEntry (sm_address (rq_msg req)) (dd_cache s1);
         n2 (sm_address (rq_msg req)) (s1\<lparr>dd_cache := c\<rparr>)
       }
     | D_OWNED \<Rightarrow> None)"
    by (cases "de_dstate e") simp_all
qed

lemma allocate_cong:
  assumes ag: "agree k n1 n2" and k: "1 \<le> k" and q: "queue_ok (\<lambda>_. True) (dd_queue s)"
  shows "processDirectoryEntryAllocationReq n1 req s = processDirectoryEntryAllocationReq n2 req s"
  unfolding processDirectoryEntryAllocationReq_def Let_def
  apply (rule bind_same, clarify, rule bind_same, rule bind_same, rule bind_same, rule bind_same, clarify, rule bind_same,
      rule bind_same, rule arg_cong2 [where f = Option.bind, OF _ refl])
  subgoal premises prems for candidates c1 _ b e q' c2 nreq
  proof (rule nullify_cong)
    fix s' :: dd_state
    assume s': "dd_queue s' = dd_queue (s\<lparr>dd_cache := c2, dd_evict := (dd_evict s)(de_dstate e := dd_evict s (de_dstate e) + 1),
         dd_queue := rq_enqueue (de_address e) nreq (dd_queue s)\<rparr>)"
    have r: "sm_address (rq_msg nreq) = de_address e" "sm_type (rq_msg nreq) = NULLIFY_REQ"
      using prems by (auto simp: ShmemReq_new_def ShmemMsg_copy_def ShmemMsg_new_def)
    have "queue_ok (\<lambda>_. True) (dd_queue s')"
      using queue_ok_enqueue [OF q, of nreq] r s' by simp
    moreover have "rq_size (de_address e) (dd_queue s') = 1" using prems s' by simp
    ultimately show "n1 (sm_address (rq_msg nreq)) s' = n2 (sm_address (rq_msg nreq)) s'"
      using agreeD [OF ag] k r by simp
  qed
  done

lemma retrieve_cong:
  assumes "\<And>s'. dd_queue s' = dd_queue s \<Longrightarrow> n1 a s' = n2 a s'"
  shows "retrieveDataAndSendToL2Cache n1 t r a d s = retrieveDataAndSendToL2Cache n2 t r a d s"
  unfolding retrieveDataAndSendToL2Cache_def
  apply (rule bind_same, clarify, rule bind_same, rule bind_same)
  subgoal premises prems for x s1 p e
  proof -
    have q: "dd_queue s1 = dd_queue s" using prems(1) by (rule get_queue)
    have n: "n1 a s3 = n2 a s3" if "sendMsg t c1 c2 r r a y l w s2 = Some s3" "dd_queue s2 = dd_queue s" for c1 c2 y l w s2 s3
      using send_queue [OF that(1)] that(2) by (intro assms) simp
    show ?thesis
      using q by (auto split: option.split intro!: bind_same elim!: n simp: Let_def)
  qed
  done

text \<open>The processing of a request, as a function of what it does with an entry.\<close>

lemma request_cong:
  assumes ag: "agree k n1 n2" and n: "next_ok (\<lambda>_. True) (\<lambda>_. True) n1"
    and q: "queue_ok (\<lambda>_. True) (dd_queue s)" and c: "rq_contents (dd_queue s) a = req # rest"
    and k: "rq_size a (dd_queue s) \<le> k"
  shows "get_or_allocate n1 req s = get_or_allocate n2 req s"
    and "get_or_allocate n1 req s = Some (p, s1) \<Longrightarrow> dd_queue s' = dd_queue s1 \<Longrightarrow> n1 a s' = n2 a s'"
    and "sm_address (rq_msg req) = a"
proof -
  have g: "good (\<lambda>_. True) (\<lambda>_. True) s" using q by (simp add: good_def)
  have k1: "1 \<le> k" using k c by (simp add: rq_size_contents)
  show "get_or_allocate n1 req s = get_or_allocate n2 req s"
    unfolding get_or_allocate_def
  proof (rule bind_same, clarify)
    fix r s1
    assume "dd_getDirectoryEntry (sm_address (rq_msg req)) s = Some (r, s1)"
    then have "queue_ok (\<lambda>_. True) (dd_queue s1)" using q get_queue by simp
    then show "(case r of None \<Rightarrow> processDirectoryEntryAllocationReq n1 req s1 | Some p \<Rightarrow> Some (p, s1))
       = (case r of None \<Rightarrow> processDirectoryEntryAllocationReq n2 req s1 | Some p \<Rightarrow> Some (p, s1))"
      using allocate_cong [OF ag k1] by (simp split: option.split)
  qed
  show "sm_address (rq_msg req) = a" using front_facts(1) [OF g c] .
  assume "get_or_allocate n1 req s = Some (p, s1)" and s': "dd_queue s' = dd_queue s1"
  then have "queues.continues a s s1"
    using queues.get_or_allocate_continues [OF n g c] by (simp add: yields_def)
  then have "queue_ok (\<lambda>_. True) (dd_queue s1)" "rq_size a (dd_queue s1) = rq_size a (dd_queue s)"
    by (simp_all add: queues.continues_def post_def good_def rq_size_contents)
  then show "n1 a s' = n2 a s'" using agreeD [OF ag, of s' a] k s' by simp
qed

lemma put_queue: "dd_queue (dd_put p e s) = dd_queue s"
  by simp

lemma ex_cong:
  assumes "agree k n1 n2" and "next_ok (\<lambda>_. True) (\<lambda>_. True) n1"
    and "queue_ok (\<lambda>_. True) (dd_queue s)" and "rq_contents (dd_queue s) a = req # rest" and "rq_size a (dd_queue s) \<le> k"
  shows "processExReqFromL2Cache n1 req d s = processExReqFromL2Cache n2 req d s"
  unfolding processExReqFromL2Cache_def Let_def request_cong(1,3) [OF assms]
  apply (rule bind_same, clarify, rule bind_same)
  subgoal premises prems for p s1 e
  proof -
    have r: "retrieveDataAndSendToL2Cache n1 t r a x (dd_put p y s1) = retrieveDataAndSendToL2Cache n2 t r a x (dd_put p y s1)" for t r x y
      by (rule retrieve_cong) (use prems(1) request_cong(1,2) [OF assms] in simp)
    show ?thesis unfolding r ..
  qed
  done

lemma sh_cong:
  assumes "agree k n1 n2" and "next_ok (\<lambda>_. True) (\<lambda>_. True) n1"
    and "queue_ok (\<lambda>_. True) (dd_queue s)" and "rq_contents (dd_queue s) a = req # rest" and "rq_size a (dd_queue s) \<le> k"
  shows "processShReqFromL2Cache n1 req d s = processShReqFromL2Cache n2 req d s"
  unfolding processShReqFromL2Cache_def Let_def request_cong(1,3) [OF assms]
  apply (rule bind_same, clarify, rule bind_same)
  subgoal premises prems for p s1 e
  proof -
    have r: "retrieveDataAndSendToL2Cache n1 t r a x s2 = retrieveDataAndSendToL2Cache n2 t r a x s2"
      if "dd_queue s2 = dd_queue s1" for t r x s2
      by (rule retrieve_cong) (use prems(1) request_cong(1,2) [OF assms] that in simp)
    have put: "retrieveDataAndSendToL2Cache n1 t r a x (dd_put p y s1) = retrieveDataAndSendToL2Cache n2 t r a x (dd_put p y s1)" for t r x y
      by (rule r) simp
    have fwd: "retrieveDataAndSendToL2Cache n1 t r a x (s1\<lparr>dd_forward := y, dd_forward_failed := z\<rparr>)
        = retrieveDataAndSendToL2Cache n2 t r a x (s1\<lparr>dd_forward := y, dd_forward_failed := z\<rparr>)" for t r x y z
      by (rule r) simp
    show ?thesis unfolding put fwd ..
  qed
  done

lemma upgrade_cong:
  assumes "agree k n1 n2" and "next_ok (\<lambda>_. True) (\<lambda>_. True) n1"
    and "queue_ok (\<lambda>_. True) (dd_queue s)" and "rq_contents (dd_queue s) a = req # rest" and "rq_size a (dd_queue s) \<le> k"
  shows "processUpgradeReqFromL2Cache n1 req d s = processUpgradeReqFromL2Cache n2 req d s"
  unfolding processUpgradeReqFromL2Cache_def Let_def request_cong(1,3) [OF assms]
  apply (rule bind_same, clarify, rule bind_same)
  subgoal premises prems for p s1 e
  proof -
    have n: "n1 a s' = n2 a s'" if "dd_queue s' = dd_queue s1" for s'
      using prems(1) request_cong(1,2) [OF assms] that by simp
    have r: "retrieveDataAndSendToL2Cache n1 t r a x (dd_put p y s1) = retrieveDataAndSendToL2Cache n2 t r a x (dd_put p y s1)" for t r x y
      by (rule retrieve_cong) (use n in simp)
    have up: "(do { s2 \<leftarrow> sendMsg UPGRADE_REP c1 c2 x y a z l w s1; n1 a (dd_put p v s2) })
        = (do { s2 \<leftarrow> sendMsg UPGRADE_REP c1 c2 x y a z l w s1; n2 a (dd_put p v s2) })" for c1 c2 x y z l w v
      by (intro bind_same n) (auto dest: send_queue)
    have up2: "(do { s2 \<leftarrow> sendMsg UPGRADE_REP c1 c2 x y a z l w (dd_put p v s1); n1 a s2 })
        = (do { s2 \<leftarrow> sendMsg UPGRADE_REP c1 c2 x y a z l w (dd_put p v s1); n2 a s2 })" for c1 c2 x y z l w v
      by (intro bind_same n) (auto dest: send_queue)
    show ?thesis unfolding r up up2 ..
  qed
  done

lemma processNext_agree: "k \<le> n \<Longrightarrow> k \<le> m \<Longrightarrow> agree k (processNextReqFromL2Cache n) (processNextReqFromL2Cache m)"
proof (induction k arbitrary: n m)
  case 0
  have "processNextReqFromL2Cache n a s = None" if "rq_size a (dd_queue s) = 0" for n a s
    using that by (cases n) simp_all
  then show ?case by (simp add: agree_def)
next
  case (Suc k)
  then obtain n' m' where n: "n = Suc n'" and m: "m = Suc m'" and ag: "agree k (processNextReqFromL2Cache n') (processNextReqFromL2Cache m')"
    by (metis Suc_le_D Suc_le_mono)
  show ?case
    unfolding agree_def n m processNextReqFromL2Cache.simps Let_def
  proof (intro allI impI, rule bind_same, rule bind_same, clarify)
    fix a x q and s :: dd_state
    assume qk: "queue_ok (\<lambda>_. True) (dd_queue s)" and sz: "rq_size a (dd_queue s) \<le> Suc k"
      and dq: "rq_dequeue a (dd_queue s) = Some (x, q)"
    define s1 where "s1 = s\<lparr>dd_queue := q\<rparr>"
    have wf: "rq_wf (dd_queue s)" using qk by (simp add: queue_ok_def)
    note qc = rq_dequeue_contents [OF wf dq]
    have sub: "set (rq_contents q b) \<subseteq> set (rq_contents (dd_queue s) b)" for b
      using qc by (cases "b = a") auto
    have q1: "queue_ok (\<lambda>_. True) (dd_queue s1)"
      using queue_ok_contents [OF qk _ sub] qc by (simp add: s1_def)
    have sz1: "rq_size a (dd_queue s1) \<le> k" using sz qc by (simp add: rq_size_contents s1_def)
    have c1: "\<exists>rest. rq_contents (dd_queue s1) a = r # rest" if "rq_front a q = Some r" for r
      using that by (simp add: rq_front_first s1_def)
    have ok: "next_ok (\<lambda>_. True) (\<lambda>_. True) (processNextReqFromL2Cache n')" by (rule queues.processNext_ok)
    have "processExReqFromL2Cache (processNextReqFromL2Cache n') r None s1 = processExReqFromL2Cache (processNextReqFromL2Cache m') r None s1"
      "processShReqFromL2Cache (processNextReqFromL2Cache n') r None s1 = processShReqFromL2Cache (processNextReqFromL2Cache m') r None s1"
      "processUpgradeReqFromL2Cache (processNextReqFromL2Cache n') r None s1 = processUpgradeReqFromL2Cache (processNextReqFromL2Cache m') r None s1"
      if "rq_front a q = Some r" for r
      using c1 [OF that] ex_cong [OF ag ok q1 _ sz1] sh_cong [OF ag ok q1 _ sz1] upgrade_cong [OF ag ok q1 _ sz1] by blast+
    then show "(if \<not> rq_empty a q then do {
         r \<leftarrow> rq_front a q;
         if sm_type (rq_msg r) = EX_REQ
         then processExReqFromL2Cache (processNextReqFromL2Cache n') r None (s\<lparr>dd_queue := q\<rparr>)
         else if sm_type (rq_msg r) = SH_REQ
         then processShReqFromL2Cache (processNextReqFromL2Cache n') r None (s\<lparr>dd_queue := q\<rparr>)
         else if sm_type (rq_msg r) = UPGRADE_REQ
         then processUpgradeReqFromL2Cache (processNextReqFromL2Cache n') r None (s\<lparr>dd_queue := q\<rparr>)
         else None } else Some (s\<lparr>dd_queue := q\<rparr>))
      = (if \<not> rq_empty a q then do {
         r \<leftarrow> rq_front a q;
         if sm_type (rq_msg r) = EX_REQ
         then processExReqFromL2Cache (processNextReqFromL2Cache m') r None (s\<lparr>dd_queue := q\<rparr>)
         else if sm_type (rq_msg r) = SH_REQ
         then processShReqFromL2Cache (processNextReqFromL2Cache m') r None (s\<lparr>dd_queue := q\<rparr>)
         else if sm_type (rq_msg r) = UPGRADE_REQ
         then processUpgradeReqFromL2Cache (processNextReqFromL2Cache m') r None (s\<lparr>dd_queue := q\<rparr>)
         else None } else Some (s\<lparr>dd_queue := q\<rparr>))"
      unfolding s1_def [symmetric] by (auto intro!: bind_same)
  qed
qed

text \<open>The request at the front of the queue is processed, whatever its kind.\<close>

lemma front_cong:
  assumes ag: "agree k n1 n2" and n: "next_ok (\<lambda>_. True) (\<lambda>_. True) n1"
    and q: "queue_ok (\<lambda>_. True) (dd_queue s)" and f: "rq_front a (dd_queue s) = Some req" and k: "rq_size a (dd_queue s) \<le> k"
  shows "processExReqFromL2Cache n1 req d s = processExReqFromL2Cache n2 req d s"
    and "processShReqFromL2Cache n1 req d s = processShReqFromL2Cache n2 req d s"
    and "processUpgradeReqFromL2Cache n1 req d s = processUpgradeReqFromL2Cache n2 req d s"
    and "processNullifyReq n1 req s = processNullifyReq n2 req s"
proof -
  obtain rest where c: "rq_contents (dd_queue s) a = req # rest" using f by (auto simp: rq_front_first)
  show "processExReqFromL2Cache n1 req d s = processExReqFromL2Cache n2 req d s"
    "processShReqFromL2Cache n1 req d s = processShReqFromL2Cache n2 req d s"
    "processUpgradeReqFromL2Cache n1 req d s = processUpgradeReqFromL2Cache n2 req d s"
    by (rule ex_cong [OF ag n q c k] sh_cong [OF ag n q c k] upgrade_cong [OF ag n q c k])+
  show "processNullifyReq n1 req s = processNullifyReq n2 req s"
    by (rule nullify_cong) (use request_cong(3) [OF ag n q c k] agreeD [OF ag] q k in simp)
qed

lemma dram_queue: "sendDataToDram a r d s = Some s' \<Longrightarrow> dd_queue s' = dd_queue s"
  using sendDataToDram_quiet [of a r d s] by (auto simp: yields_def quiet_def)

lemma nuca_queue: "sendDataToNUCA a d b s = Some s' \<Longrightarrow> dd_queue s' = dd_queue s"
  using sendDataToNUCA_quiet [of a d b s] by (auto simp: yields_def quiet_def)

lemma inv_cong:
  assumes ag: "agree k n1 n2" and n: "next_ok (\<lambda>_. True) (\<lambda>_. True) n1"
    and q: "queue_ok (\<lambda>_. True) (dd_queue s)" and k: "rq_size (sm_address m) (dd_queue s) \<le> k"
  shows "processInvRepFromL2Cache n1 x m s = processInvRepFromL2Cache n2 x m s"
  unfolding processInvRepFromL2Cache_def Let_def
  apply (rule bind_same, clarify, rule bind_same, rule bind_same, rule bind_same, rule bind_same)
  subgoal premises prems for r s1 p e u e1
  proof -
    have q1: "dd_queue s1 = dd_queue s" using prems(1) by (rule get_queue)
    have "processExReqFromL2Cache n1 req d s2 = processExReqFromL2Cache n2 req d s2"
      "processShReqFromL2Cache n1 req d s2 = processShReqFromL2Cache n2 req d s2"
      "processUpgradeReqFromL2Cache n1 req d s2 = processUpgradeReqFromL2Cache n2 req d s2"
      "processNullifyReq n1 req s2 = processNullifyReq n2 req s2"
      if "rq_front (sm_address m) (dd_queue s1) = Some req" "dd_queue s2 = dd_queue s1" for req d s2
      using front_cong [OF ag n, of s2 "sm_address m" req] that q k q1 by simp_all
    then show ?thesis by (auto intro!: bind_same)
  qed
  done

lemma flush_cong:
  assumes ag: "agree k n1 n2" and n: "next_ok (\<lambda>_. True) (\<lambda>_. True) n1"
    and q: "queue_ok (\<lambda>_. True) (dd_queue s)" and k: "rq_size (sm_address m) (dd_queue s) \<le> k"
  shows "processFlushRepFromL2Cache n1 x m s = processFlushRepFromL2Cache n2 x m s"
  unfolding processFlushRepFromL2Cache_def Let_def
  apply (rule bind_same, clarify, rule bind_same, rule bind_same, rule bind_same, rule bind_same, rule bind_same, rule bind_same,
      rule bind_same)
  subgoal premises prems for r s1 p e
  proof -
    have q1: "dd_queue s1 = dd_queue s" using prems(1) by (rule get_queue)
    have "processExReqFromL2Cache n1 req d s2 = processExReqFromL2Cache n2 req d s2"
      "processShReqFromL2Cache n1 req d s2 = processShReqFromL2Cache n2 req d s2"
      "processUpgradeReqFromL2Cache n1 req d s2 = processUpgradeReqFromL2Cache n2 req d s2"
      "processNullifyReq n1 req s2 = processNullifyReq n2 req s2"
      if "rq_front (sm_address m) (dd_queue s1) = Some req" "dd_queue s2 = dd_queue s1" for req d s2
      using front_cong [OF ag n, of s2 "sm_address m" req] that q k q1 by simp_all
    then show ?thesis by (auto intro!: bind_same dest!: dram_queue)
  qed
  done

lemma wb_cong:
  assumes ag: "agree k n1 n2" and n: "next_ok (\<lambda>_. True) (\<lambda>_. True) n1"
    and q: "queue_ok (\<lambda>_. True) (dd_queue s)" and k: "rq_size (sm_address m) (dd_queue s) \<le> k"
  shows "processWbRepFromL2Cache n1 x m s = processWbRepFromL2Cache n2 x m s"
  unfolding processWbRepFromL2Cache_def Let_def
  apply (rule bind_same, clarify, rule bind_same, rule bind_same, rule bind_same, rule bind_same, rule bind_same)
  subgoal premises prems for r s1 p e
  proof -
    have q1: "dd_queue s1 = dd_queue s" using prems(1) by (rule get_queue)
    have "processShReqFromL2Cache n1 req d s2 = processShReqFromL2Cache n2 req d s2"
      if "rq_front (sm_address m) (dd_queue s1) = Some req" "dd_queue s2 = dd_queue s1" for req d s2
      using front_cong [OF ag n, of s2 "sm_address m" req] that q k q1 by simp_all
    then show ?thesis by (auto intro!: bind_same)
  qed
  done

lemma dram_cong:
  assumes ag: "agree k n1 n2" and q: "queue_ok (\<lambda>_. True) (dd_queue s)" and k: "rq_size (sm_address m) (dd_queue s) \<le> k"
  shows "dispatchMsgFromDRAM n1 x m s = dispatchMsgFromDRAM n2 x m s"
proof -
  have "processDRAMReply n1 x m s = processDRAMReply n2 x m s"
    unfolding processDRAMReply_def Let_def
  proof (rule bind_same, rule bind_same, rule bind_same, clarify, rule bind_same, rule bind_same, rule bind_same, rule bind_same,
      rule bind_same)
    fix s1 s2 s3 :: dd_state and r t w req
    assume 1: "dd_getDirectoryEntry (sm_address m) s = Some (r, s1)"
      and 2: "sendMsg t TAG_DIR L2_CACHE (sm_requester (rq_msg req)) (sm_requester (rq_msg req)) (sm_address m) (sm_data m)
        (dd_cache_block_size s1) w s1 = Some s2"
      and 3: "sendDataToNUCA (sm_address m) (sm_data m) False s2 = Some s3"
    have "dd_queue s3 = dd_queue s" using get_queue [OF 1] send_queue [OF 2] nuca_queue [OF 3] by simp
    then show "n1 (sm_address m) s3 = n2 (sm_address m) s3" using agreeD [OF ag, of s3 "sm_address m"] q k by simp
  qed
  then show ?thesis by (simp add: dispatchMsgFromDRAM_def split: msg_t.split)
qed

lemma enqueue_cong:
  assumes "queue_ok (\<lambda>_. True) (dd_queue s)" and "is_request (sm_type m)"
    and proc: "\<And>req s1. queue_ok (\<lambda>_. True) (dd_queue s1) \<Longrightarrow> rq_contents (dd_queue s1) (sm_address m) = [req] \<Longrightarrow>
      p1 req s1 = p2 req s1"
  shows "enqueue_request p1 m s = enqueue_request p2 m s"
  unfolding enqueue_request_def Let_def
proof (rule bind_same, rule if_cong [OF refl _ refl])
  fix req
  assume "ShmemReq_new (un_where (dd_uninit s)) m = Some req"
  then have r: "sm_address (rq_msg req) = sm_address m" "sm_type (rq_msg req) = sm_type m"
    by (auto simp: ShmemReq_new_def ShmemMsg_copy_def)
  assume "rq_size (sm_address m) (dd_queue (s\<lparr>dd_queue := rq_enqueue (sm_address m) req (dd_queue s)\<rparr>)) = 1"
  then have "rq_contents (rq_enqueue (sm_address m) req (dd_queue s)) (sm_address m) = [req]"
    by (simp add: rq_size_contents rq_enqueue_contents)
  then show "p1 req (s\<lparr>dd_queue := rq_enqueue (sm_address m) req (dd_queue s)\<rparr>)
      = p2 req (s\<lparr>dd_queue := rq_enqueue (sm_address m) req (dd_queue s)\<rparr>)"
    using queue_ok_enqueue [OF assms(1), of req] r assms(2) by (intro proc) simp_all
qed

lemma l2_cong:
  assumes ag: "agree (Suc (rq_size (sm_address m) (dd_queue s))) n1 n2" and n: "next_ok (\<lambda>_. True) (\<lambda>_. True) n1"
    and q: "queue_ok (\<lambda>_. True) (dd_queue s)"
  shows "dispatchMsgFromL2Cache n1 x m s = dispatchMsgFromL2Cache n2 x m s"
  unfolding dispatchMsgFromL2Cache_def
  apply (rule bind_same, clarify)
  subgoal premises prems for r s1
  proof -
    have e: "dd_queue s1 = dd_queue s" using prems(1) by (rule get_queue)
    then have q1: "queue_ok (\<lambda>_. True) (dd_queue s1)" and k: "rq_size (sm_address m) (dd_queue s1) \<le> Suc (rq_size (sm_address m) (dd_queue s))"
      using q by simp_all
    have one: "rq_size (sm_address m) (dd_queue s2) \<le> Suc (rq_size (sm_address m) (dd_queue s))"
      if "rq_contents (dd_queue s2) (sm_address m) = [req]" for s2 req
      using that by (simp add: rq_size_contents)
    have "enqueue_request (\<lambda>req. processExReqFromL2Cache n1 req None) m s1 = enqueue_request (\<lambda>req. processExReqFromL2Cache n2 req None) m s1"
      "enqueue_request (\<lambda>req. processShReqFromL2Cache n1 req None) m s1 = enqueue_request (\<lambda>req. processShReqFromL2Cache n2 req None) m s1"
      "enqueue_request (\<lambda>req. processUpgradeReqFromL2Cache n1 req None) m s1 = enqueue_request (\<lambda>req. processUpgradeReqFromL2Cache n2 req None) m s1"
      if "is_request (sm_type m)"
      by (rule enqueue_cong [OF q1 that], rule ex_cong [OF ag n] sh_cong [OF ag n] upgrade_cong [OF ag n], assumption+, erule one)+
    then show ?thesis
      using inv_cong [OF ag n q1 k] flush_cong [OF ag n q1 k] wb_cong [OF ag n q1 k] by (simp split: msg_t.split)
  qed
  done

section \<open>An example run\<close>

text \<open>A directory with two sets of one way; core 1 writes a line, core 2 reads it while the data of core 1 is on its
  way.\<close>

definition example_directory :: "dd_state option" where
  "example_directory = DramDirectoryCntlr_new \<lparr>un_flag = False, un_address = 0, un_buf = [0], un_where = 0\<rparr> (\<lambda>d. d) (\<lambda>_. 0)
     0 None [0, 0] 0 (the (AddressHomeLookup_new 0 [0] 1)) None 2 1 1 4 4 ''full_map'' 0 ''mesi''"

definition example_messages :: "dd_input list" where
  "example_messages = [FromL2 1 (ShmemMsg_new EX_REQ LAST_LEVEL_CACHE TAG_DIR 1 4 None 0),
     FromL2 2 (ShmemMsg_new SH_REQ LAST_LEVEL_CACHE TAG_DIR 2 4 None 0),
     FromDRAM 0 (ShmemMsg_new DRAM_READ_REP DRAM TAG_DIR 1 4 (Some [7]) 1)]"

lemma example_new:
  "DramDirectoryCntlr_new \<lparr>un_flag = False, un_address = 0, un_buf = [0], un_where = 0\<rparr> (\<lambda>d. d) (\<lambda>_. 0)
     0 None [0, 0] 0 (the (AddressHomeLookup_new 0 [0] 1)) None 2 1 1 4 4 ''full_map'' 0 ''mesi'' = Some (the example_directory)"
proof -
  have "example_directory \<noteq> None" unfolding example_directory_def by code_simp
  then show ?thesis unfolding example_directory_def by simp
qed

lemma example_run:
  "fold_opt dd_step example_messages (the example_directory)
    = Some (the (fold_opt dd_step example_messages (the example_directory)))"
proof -
  have "fold_opt dd_step example_messages (the example_directory) \<noteq> None"
    unfolding example_directory_def example_messages_def by code_simp
  then show ?thesis by simp
qed

section \<open>Properties\<close>

text \<open>C4. The directory answers every request exactly once and in order: after any sequence of messages, the
  receivers of the replies it has sent for an address, followed by the requesters in the queue of the address,
  are the requesters of the request messages for the address in the order of their arrival.\<close>

theorem requests_answered_in_order:
  assumes "DramDirectoryCntlr_new u freed evict0 garbage cfg_penalty ptrs core_id home nuca total_entries associativity
     cache_block_size max_num_sharers max_hw_sharers type_str access_time variant = Some s0"
    and "fold_opt dd_step xs s0 = Some s"
  shows "replies (dd_out s) b @ waiting (rq_contents (dd_queue s) b) = requests_at b xs"
proof -
  have "dd_queue s0 = Map.empty" "dd_out s0 = []" using assms(1) by (auto simp: DramDirectoryCntlr_new_def abort_simps)
  then show ?thesis
    using queues.run_from_new [of s0 xs s b] assms(2) by (simp add: history_def list_all_iff)
qed

theorem requests_answered_in_order_witness:
  "\<exists>s0 s. fold_opt dd_step example_messages s0 = Some s \<and>
    replies (dd_out s) 4 @ waiting (rq_contents (dd_queue s) 4) = [1, 2]"
  using requests_answered_in_order [OF example_new example_run, of 4]
    example_run
  by (auto simp: example_messages_def ShmemMsg_new_def is_request_def simp del: fold_opt.simps)

text \<open>C3. Single writer: after any sequence of messages, an entry in state \<open>MODIFIED\<close> or \<open>EXCLUSIVE\<close> has exactly
  one sharer, its owner; an entry is \<open>UNCACHED\<close> exactly when it has no sharers; and an entry of a full-map or limited
  directory never has more sharers than the directory allows.\<close>

theorem directory_single_writer:
  assumes "DramDirectoryCntlr_new u freed evict0 garbage cfg_penalty ptrs core_id home nuca total_entries associativity
     cache_block_size max_num_sharers max_hw_sharers type_str access_time variant = Some s0"
    and "fold_opt dd_step xs s0 = Some s" and "dc_entry p (dd_cache s) = Some e"
  shows "(de_dstate e = D_MODIFIED \<or> de_dstate e = D_EXCLUSIVE \<longrightarrow> getSharersList e = (False, [de_owner e])) \<and>
    (de_dstate e = D_UNCACHED \<longleftrightarrow> getSharersList e = (False, [])) \<and>
    (\<forall>seed. de_kind e = LimitedNoBroadcast seed \<longrightarrow> getNumSharers e \<le> unat (getMaxHwSharers (dd_cache s)))"
proof -
  obtain c where "dd_queue s0 = Map.empty" "dd_out s0 = []" "dd_cache s0 = c"
    "DramDirectoryCache_new garbage cfg_penalty ptrs type_str total_entries associativity cache_block_size
       max_hw_sharers max_num_sharers access_time = Some c"
    using assms(1) by (auto simp: DramDirectoryCntlr_new_def abort_simps)
  then have "dir_ok (dc_directory (dd_cache s))"
    using entries.run_from_new [of s0 xs s 0] assms(2) DramDirectoryCache_new_wf by (simp add: list_all_iff)
  then have e: "entry_ok (getMaxHwSharers (dd_cache s)) e"
    using assms(3) by (auto simp: dir_ok_def ran_def dc_entry_def getMaxHwSharers_def)
  have l: "fst (getSharersList e) = False" by (simp add: getSharersList_def)
  have "sharer_set e = {} \<longleftrightarrow> snd (getSharersList e) = []"
    using num_sharers_set [of e] getNumSharers_list [of e]
    by (metis card_0_eq length_0_conv sharer_set_finite)
  then show ?thesis
    using e l sharers_list_single [of e "de_owner e"] by (auto simp: entry_ok_def prod_eq_iff)
qed

theorem directory_single_writer_witness:
  "\<exists>(s :: dd_state) e. dc_entry 0 (dd_cache s) = Some e \<and> de_dstate e = D_MODIFIED \<and> getSharersList e = (False, [de_owner e])"
proof -
  let ?s = "the (fold_opt dd_step example_messages (the example_directory))"
  let ?e = "the (dc_entry 0 (dd_cache ?s))"
  have "dc_entry 0 (dd_cache ?s) \<noteq> None" unfolding example_directory_def example_messages_def by code_simp
  then have e: "dc_entry 0 (dd_cache ?s) = Some ?e" by simp
  have "de_dstate ?e = D_MODIFIED" unfolding example_directory_def example_messages_def by code_simp
  then show ?thesis
    using directory_single_writer [OF example_new example_run
      e] e by blast
qed

text \<open>C12. One entry for a line: after any sequence of messages for valid addresses, two entries that the directory
  cache holds (in its table or in the list of replaced entries) for the same address are the same object.\<close>

theorem directory_one_entry_per_line:
  assumes "DramDirectoryCntlr_new u freed evict0 garbage cfg_penalty ptrs core_id home nuca total_entries associativity
     cache_block_size max_num_sharers max_hw_sharers type_str access_time variant = Some s0"
    and "fold_opt dd_step xs s0 = Some s" and "list_all (\<lambda>x. sm_address (input_msg x) \<noteq> INVALID_ADDRESS) xs"
    and "live (dir_list (dc_directory (dd_cache s))) (dc_replaced (dd_cache s)) p" and "dc_entry p (dd_cache s) = Some e"
    and "live (dir_list (dc_directory (dd_cache s))) (dc_replaced (dd_cache s)) q" and "dc_entry q (dd_cache s) = Some e'"
    and "de_address e = de_address e'" and "de_address e \<noteq> INVALID_ADDRESS"
  shows "p = q"
proof -
  obtain c where "dd_queue s0 = Map.empty" "dd_out s0 = []" "dd_cache s0 = c"
    "DramDirectoryCache_new garbage cfg_penalty ptrs type_str total_entries associativity cache_block_size
       max_hw_sharers max_num_sharers access_time = Some c"
    using assms(1) by (auto simp: DramDirectoryCntlr_new_def abort_simps)
  then have "dc_wf (dd_cache s)"
    using one_entry.run_from_new [of s0 xs s 0] assms(2,3) DramDirectoryCache_new_wf by simp
  moreover have "dir_addr (dc_directory (dd_cache s)) p = Some (de_address e)"
    "dir_addr (dc_directory (dd_cache s)) q = Some (de_address e)"
    using assms(5,7,8) by (simp_all add: dir_addr_def dc_entry_def)
  ultimately show ?thesis
    using assms(4,6,9) unfolding dc_wf_def dir_wf_def struct_wf_def unique_def by blast
qed

theorem directory_one_entry_per_line_witness:
  "\<exists>s. fold_opt dd_step example_messages (the example_directory) = Some s \<and>
    live (dir_list (dc_directory (dd_cache s))) (dc_replaced (dd_cache s)) 0 \<and>
    (\<forall>q e'. live (dir_list (dc_directory (dd_cache s))) (dc_replaced (dd_cache s)) q \<longrightarrow>
       dc_entry q (dd_cache s) = Some e' \<longrightarrow> de_address e' = 4 \<longrightarrow> q = 0)"
proof -
  let ?s = "the (fold_opt dd_step example_messages (the example_directory))"
  let ?e = "the (dc_entry 0 (dd_cache ?s))"
  have "dc_entry 0 (dd_cache ?s) \<noteq> None" unfolding example_directory_def example_messages_def by code_simp
  then have e: "dc_entry 0 (dd_cache ?s) = Some ?e" by simp
  have a: "de_address ?e = 4" unfolding example_directory_def example_messages_def by code_simp
  have "list_ex (\<lambda>x. x = Some 0) (dir_list (dc_directory (dd_cache ?s)))"
    unfolding example_directory_def example_messages_def by code_simp
  then have l: "live (dir_list (dc_directory (dd_cache ?s))) (dc_replaced (dd_cache ?s)) 0"
    by (auto simp: live_def list_ex_length)
  have v: "list_all (\<lambda>x. sm_address (input_msg x) \<noteq> INVALID_ADDRESS) example_messages"
    by (simp add: example_messages_def ShmemMsg_new_def)
  have "q = 0" if "live (dir_list (dc_directory (dd_cache ?s))) (dc_replaced (dd_cache ?s)) q"
      "dc_entry q (dd_cache ?s) = Some e'" "de_address e' = 4" for q e'
    using directory_one_entry_per_line [OF example_new, of example_messages ?s q e' 0 ?e]
      example_run v that l e a by simp
  then show ?thesis using example_run l by blast
qed



end
