(* ===== verification/Dram.thy ===== *)
theory Dram
  imports Caches Shmem
begin

text \<open>
  The DRAM side of the memory subsystem without its timing: the controller with the store of the data,
  \<^verbatim>\<open>pr_l1_pr_l2_dram_directory_msi/dram_cntlr.cc\<close>, the cache in front of it, \<^verbatim>\<open>dram/dram_cache.cc\<close>, and the messages
  from the tag directory, \<^verbatim>\<open>dram/dram_cntlr_interface.cc\<close>. Data is kept only when a fault injection manager is
  configured; the fault injector itself and the prefetcher are absent. A pointer to performance counters is
  modelled by whether it is null, since the counters are updated through it.
\<close>

section \<open>Controller\<close>

record DramCntlr =
  dr_fault_injection :: bool
  dr_block_size :: u32
  dr_data_map :: "IntPtr \<rightharpoonup> u8 list"
  dr_reads :: u64
  dr_writes :: u64

definition DramCntlr_new :: "bool \<Rightarrow> u32 \<Rightarrow> DramCntlr" where
  "DramCntlr_new fault_injection cache_block_size = \<lparr>dr_fault_injection = fault_injection, dr_block_size = cache_block_size,
     dr_data_map = Map.empty, dr_reads = 0, dr_writes = 0\<rparr>"

text \<open>The contents of the buffer \<^verbatim>\<open>data_buf\<close> after the call; without a fault injection manager it is left as it was.\<close>

definition getDataFromDram :: "IntPtr \<Rightarrow> u8 list \<Rightarrow> DramCntlr \<Rightarrow> u8 list \<times> where_t \<times> DramCntlr" where
  "getDataFromDram address data_buf d =
     (let d1 = (if dr_fault_injection d \<and> dr_data_map d address = None
                then d\<lparr>dr_data_map := (dr_data_map d)(address \<mapsto> replicate (unat (dr_block_size d)) 0)\<rparr> else d);
          buf = (if dr_fault_injection d then the (dr_data_map d1 address) else data_buf)
      in (buf, HW_DRAM, d1\<lparr>dr_reads := dr_reads d1 + 1\<rparr>))"

definition putDataToDram :: "IntPtr \<Rightarrow> u8 list option \<Rightarrow> DramCntlr \<Rightarrow> (where_t \<times> DramCntlr) option" where
  "putDataToDram address data_buf d = do {
     d1 \<leftarrow> (if dr_fault_injection d
            then do {
              old \<leftarrow> dr_data_map d address;
              buf \<leftarrow> data_buf;
              ensure (unat (dr_block_size d) \<le> length buf);
              Some (d\<lparr>dr_data_map := (dr_data_map d)(address \<mapsto> take (unat (dr_block_size d)) buf)\<rparr>)
            }
            else Some d);
     Some (HW_DRAM, d1\<lparr>dr_writes := dr_writes d1 + 1\<rparr>)
   }"

section \<open>Cache in front of the controller\<close>

record DramCache =
  dk_cache :: Cache
  dk_block_size :: u32
  dk_dram_cntlr :: DramCntlr
  dk_reads :: u64
  dk_writes :: u64
  dk_read_misses :: u64
  dk_write_misses :: u64
  dk_hits_prefetch :: u64

definition DramCache_new :: "cache_config \<Rightarrow> u32 \<Rightarrow> u32 \<Rightarrow> u32 \<Rightarrow> string \<Rightarrow> string \<Rightarrow> AddressHomeLookup option \<Rightarrow> DramCntlr \<Rightarrow> DramCache option" where
  "DramCache_new cfg cache_size associativity block_size policy_name hash_function home_lookup dram_cntlr = do {
     ensure (associativity * block_size \<noteq> 0);
     let num_sets = 1024 * cache_size div (associativity * block_size);
     ensure (1024 * cache_size = num_sets * associativity * block_size);
     hash \<leftarrow> parseAddressHash hash_function;
     c \<leftarrow> Cache_new cfg num_sets associativity block_size policy_name PR_L1_CACHE hash home_lookup;
     Some \<lparr>dk_cache = c, dk_block_size = block_size, dk_dram_cntlr = dram_cntlr, dk_reads = 0, dk_writes = 0,
       dk_read_misses = 0, dk_write_misses = 0, dk_hits_prefetch = 0\<rparr>
   }"

text \<open>Every call updates the counters behind \<^verbatim>\<open>perf\<close>.\<close>

definition accessDataArray :: "bool \<Rightarrow> unit option" where
  "accessDataArray perf = ensure perf"

text \<open>\<^verbatim>\<open>evict_buf\<close> receives the evicted data, but the write back passes \<^verbatim>\<open>data_buf\<close>.\<close>

definition insertLine :: "access_t \<Rightarrow> IntPtr \<Rightarrow> u8 list option \<Rightarrow> DramCache \<Rightarrow> DramCache option" where
  "insertLine acc address data_buf s = do {
     (r, evict_address, c) \<leftarrow> insertSingleLine address data_buf (CacheBlockInfo_create PR_L1_CACHE) None (dk_cache s);
     pos \<leftarrow> peekSingleLine address c;
     p \<leftarrow> pos;
     let c1 = update_line p (\<lambda>b. b\<lparr>bi_cstate := (if acc = STORE then MODIFIED else SHARED)\<rparr>) c;
     accessDataArray False;
     d \<leftarrow> (if ins_eviction r \<and> bi_cstate (ins_evict_info r) = MODIFIED
           then map_option snd (putDataToDram evict_address data_buf (dk_dram_cntlr s)) else Some (dk_dram_cntlr s));
     Some (s\<lparr>dk_cache := c1, dk_dram_cntlr := d\<rparr>)
   }"

definition doAccess :: "access_t \<Rightarrow> IntPtr \<Rightarrow> u8 list option \<Rightarrow> bool \<Rightarrow> DramCache \<Rightarrow> (bool \<times> u8 list option \<times> DramCache) option" where
  "doAccess acc address data_buf perf s = do {
     pos \<leftarrow> peekSingleLine address (dk_cache s);
     ensure perf;
     case pos of
       Some p \<Rightarrow> do {
         let pf = hasOption PREFETCH (line_at p (dk_cache s));
         let c0 = (if pf then update_line p (clearOption PREFETCH) (dk_cache s) else dk_cache s);
         let s0 = (if pf then s\<lparr>dk_hits_prefetch := dk_hits_prefetch s + 1\<rparr> else s);
         (q, out, c1) \<leftarrow> accessSingleLine address acc data_buf (unat (dk_block_size s)) True c0;
         accessDataArray perf;
         let c2 = (if acc = STORE then update_line p (\<lambda>b. b\<lparr>bi_cstate := MODIFIED\<rparr>) c1 else c1);
         Some (True, if acc = LOAD \<and> out \<noteq> None then out else data_buf, s0\<lparr>dk_cache := c2\<rparr>)
       }
     | None \<Rightarrow> do {
         buf \<leftarrow> data_buf;
         let (buf1, w, d1) = (if acc = LOAD then getDataFromDram address buf (dk_dram_cntlr s) else (buf, HW_DRAM, dk_dram_cntlr s));
         s1 \<leftarrow> insertLine acc address (Some buf1) (s\<lparr>dk_dram_cntlr := d1\<rparr>);
         Some (False, Some buf1, s1)
       }
   }"

definition dk_getDataFromDram :: "IntPtr \<Rightarrow> u8 list option \<Rightarrow> bool \<Rightarrow> DramCache \<Rightarrow> (u8 list option \<times> where_t \<times> DramCache) option" where
  "dk_getDataFromDram address data_buf perf s = do {
     (hit, buf, s1) \<leftarrow> doAccess LOAD address data_buf perf s;
     let s2 = (if hit then s1 else s1\<lparr>dk_read_misses := dk_read_misses s1 + 1\<rparr>);
     Some (buf, if hit then HW_DRAM_CACHE else HW_DRAM, s2\<lparr>dk_reads := dk_reads s2 + 1\<rparr>)
   }"

definition dk_putDataToDram :: "IntPtr \<Rightarrow> u8 list option \<Rightarrow> DramCache \<Rightarrow> (where_t \<times> DramCache) option" where
  "dk_putDataToDram address data_buf s = do {
     (hit, buf, s1) \<leftarrow> doAccess STORE address data_buf False s;
     let s2 = (if hit then s1 else s1\<lparr>dk_write_misses := dk_write_misses s1 + 1\<rparr>);
     Some (if hit then HW_DRAM_CACHE else HW_DRAM, s2\<lparr>dk_writes := dk_writes s2 + 1\<rparr>)
   }"

section \<open>Messages from the tag directory\<close>

text \<open>The handler for a controller without a cache; the result is the reply and its receiver, if there is one.
  \<open>uninit\<close> is the content of the buffer on the stack.\<close>

definition handleMsgFromTagDirectory :: "u8 list \<Rightarrow> core_id \<Rightarrow> ShmemMsg \<Rightarrow> DramCntlr \<Rightarrow> ((core_id \<times> ShmemMsg) option \<times> DramCntlr) option" where
  "handleMsgFromTagDirectory uninit sender shmem_msg d =
     (case sm_type shmem_msg of
        DRAM_READ_REQ \<Rightarrow> (let (buf, hit_where, d1) = getDataFromDram (sm_address shmem_msg) uninit d in do {
          let rep = (ShmemMsg_new DRAM_READ_REP DRAM TAG_DIR (sm_requester shmem_msg) (sm_address shmem_msg) (Some buf)
            (dr_block_size d))\<lparr>sm_where := hit_where\<rparr>;
          ensure (dr_block_size d \<noteq> 0);
          msg_buf \<leftarrow> makeMsgBuf rep;
          Some (Some (sender, rep), d1) })
      | DRAM_WRITE_REQ \<Rightarrow> do {
          (w, d1) \<leftarrow> putDataToDram (sm_address shmem_msg) (sm_data shmem_msg) d;
          Some (None, d1) }
      | _ \<Rightarrow> None)"

section \<open>Properties\<close>

lemma get_after_put:
  assumes "putDataToDram a (Some x) d = Some (w, d')" and "dr_fault_injection d" and "length x = unat (dr_block_size d)"
  shows "fst (getDataFromDram a buf d') = x"
  using assms by (auto simp: putDataToDram_def getDataFromDram_def abort_simps Let_def)

lemma get_other:
  assumes "putDataToDram a (Some x) d = Some (w, d')" and "b \<noteq> a"
  shows "fst (getDataFromDram b buf d') = fst (getDataFromDram b buf d)"
  using assms by (auto simp: putDataToDram_def getDataFromDram_def abort_simps Let_def)

lemma insertLine_aborts: "insertLine acc a x s = None"
  by (simp add: insertLine_def accessDataArray_def bind_eq_None_conv split: bind_split prod.split)

lemma new_cache_empty:
  assumes "Cache_new cfg num_sets associativity b pol t hash ahl = Some c" and "2 \<le> unat b"
  shows "peekSingleLine a c = Some (Some p) \<longleftrightarrow> False"
proof -
  obtain base pl q where base: "CacheBase_new num_sets associativity b hash ahl = Some base"
    and "create_policy pl (unat associativity) (cfg_qbs_attempts cfg) (cfg_srrip_bits cfg) (cfg_time cfg) = Some q"
    and c: "ca_base c = base" "ca_sets c = replicate (unat num_sets)
      (CacheSet_new (cfg_fault_injection cfg) t (unat associativity) (unat b) q)"
    using assms(1) by (auto simp: Cache_new_def abort_simps)
  have "b \<noteq> 0" using assms(2) by auto
  from floorLog2_range [OF this] have "0 < cb_log_blocksize base"
    using base assms(2) by (cases "nat (floorLog2 b)") (auto simp: CacheBase_new_def)
  note tag = tag_not_invalid [OF _ this]
  show ?thesis
    by (auto simp: peekSingleLine_def c abort_simps CacheSet_new_def dest!: cs_find_Some dest: tag)
qed

text \<open>C20. The DRAM cache cannot be used: every access to a newly constructed DRAM cache ends the simulation. The cache
  is empty, so the access is a miss, and \<^verbatim>\<open>insertLine\<close> charges the data array through a null pointer to the
  performance counters.\<close>

theorem dram_cache_aborts:
  assumes "DramCache_new cfg cache_size associativity block_size policy_name hash_function home_lookup d = Some s"
    and "2 \<le> unat block_size"
  shows "dk_getDataFromDram a buf perf s = None \<and> dk_putDataToDram a buf s = None"
proof -
  obtain num_sets hash where c: "Cache_new cfg num_sets associativity block_size policy_name PR_L1_CACHE hash home_lookup = Some (dk_cache s)"
    using assms(1) by (auto simp: DramCache_new_def abort_simps Let_def)
  have "doAccess acc a buf p s = None" for acc p
    using new_cache_empty [OF c assms(2), of a]
    by (auto simp: doAccess_def insertLine_aborts split: bind_split option.split prod.split)
  then show ?thesis
    by (simp add: dk_getDataFromDram_def dk_putDataToDram_def)
qed

theorem dram_cache_aborts_witness:
  "\<exists>s. DramCache_new \<lparr>cfg_fault_injection = True, cfg_qbs_attempts = 1, cfg_srrip_bits = 2, cfg_time = 0\<rparr>
      1 4 64 ''lru'' ''mask'' None (DramCntlr_new True 64) = Some s \<and>
    dk_getDataFromDram 0x40 (Some (replicate 64 0)) True s = None \<and> dk_putDataToDram 0x40 (Some (replicate 64 0)) s = None"
proof -
  let ?new = "DramCache_new \<lparr>cfg_fault_injection = True, cfg_qbs_attempts = 1, cfg_srrip_bits = 2, cfg_time = 0\<rparr>
      1 4 64 ''lru'' ''mask'' None (DramCntlr_new True 64)"
  have "?new \<noteq> None" by code_simp
  then obtain s where s: "?new = Some s" by auto
  show ?thesis
    using s dram_cache_aborts [OF s, of "0x40"] by simp
qed

end
