(* ===== verification/Hierarchy.thy ===== *)
theory Hierarchy
  imports LlcSw Queues Dram
begin

text \<open>
  The cache controllers of a tile, \<^verbatim>\<open>parametric_dram_directory_msi/cache_cntlr.cc\<close>. A controller belongs to a core
  and a level; the controllers of the cores that share a cache have a common master, which owns the cache and the
  list of the previous-level controllers. Controllers and masters are kept in two arrays and refer to each other by
  index, as the program does by pointer.

  A request that misses in the last-level cache suspends the thread of the core. The suspended operation is kept in
  \<open>h_pending\<close>, and the reply of the directory resumes it, in the order in which the program hands its locks from the
  network thread to the waiting threads. Simulated time, the statistics, the locks and the prefetcher are not
  modelled; the sharing-tracking code under \<^verbatim>\<open>ENABLE_TRACK_SHARING_PREVCACHES\<close> and the optimisation under
  \<^verbatim>\<open>PRIVATE_L2_OPTIMIZATION\<close> are compiled out.
\<close>

section \<open>State\<close>

datatype mem_op_t = READ | READ_EX | WRITE
datatype lock_signal_t = LOCK_NONE | LOCK | UNLOCK
datatype prefetch_type_t = PF_NONE | PF_OWN | PF_OTHER

record CacheCntlr =
  cc_mem_component :: component_t
  cc_master :: nat
  cc_next :: "nat option"
  cc_perfect :: bool
  cc_passthrough :: bool
  cc_coherent :: bool
  cc_cbpred :: bool
  cc_bhist_thd :: u64
  cc_core_id :: core_id
  cc_core_id_master :: core_id
  cc_block_size :: u32
  cc_writethrough :: bool

record CacheDirectoryWaiter =
  wt_exclusive :: bool
  wt_isPrefetch :: bool
  wt_cntlr :: nat

text \<open>\<open>cm_evicting_buf\<close> is \<open>None\<close> for the null pointer, and otherwise the contents of the buffer.\<close>

record CacheMasterCntlr =
  cm_cache :: Cache
  cm_prev :: "nat list"
  cm_dram_cntlr :: bool
  cm_directory_waiters :: "CacheDirectoryWaiter req_queue_list"
  cm_evicting_address :: IntPtr
  cm_evicting_buf :: "u8 list option"

record pending_op =
  po_cntlr :: nat
  po_op :: mem_op_t
  po_address :: IntPtr
  po_offset :: u32
  po_data :: "u8 list option"
  po_length :: u32
  po_count :: bool

text \<open>\<open>h_last_remote\<close> holds the field \<^verbatim>\<open>m_last_remote_hit_where\<close> of every controller, \<open>h_uninit\<close> the contents of
  uninitialised buffers, \<open>h_done\<close> the results of the operations that were resumed.\<close>

record hier =
  h_cntlrs :: "CacheCntlr list"
  h_masters :: "CacheMasterCntlr list"
  h_last_remote :: "nat \<Rightarrow> where_t"
  h_dram :: DramCntlr
  h_llc :: LlcSw
  h_pfq :: "IntPtr list"
  h_home :: AddressHomeLookup
  h_cache_only :: bool
  h_uninit :: "u8 list"
  h_pending :: "core_id \<Rightarrow> pending_op option"
  h_done :: "(core_id \<times> where_t \<times> u8 list option) list"
  h_out :: "(core_id \<times> ShmemMsg) list"

definition cntlr :: "nat \<Rightarrow> hier \<Rightarrow> (CacheCntlr \<times> CacheMasterCntlr) option" where
  "cntlr n s = do {
     cc \<leftarrow> nth_opt (h_cntlrs s) n;
     m \<leftarrow> nth_opt (h_masters s) (cc_master cc);
     Some (cc, m)
   }"

definition put_master :: "nat \<Rightarrow> (CacheMasterCntlr \<Rightarrow> CacheMasterCntlr) \<Rightarrow> hier \<Rightarrow> hier" where
  "put_master n f s = s\<lparr>h_masters := (h_masters s)[cc_master (h_cntlrs s ! n) := f (h_masters s ! cc_master (h_cntlrs s ! n))]\<rparr>"

definition put_cache :: "nat \<Rightarrow> Cache \<Rightarrow> hier \<Rightarrow> hier" where
  "put_cache n c s = put_master n (\<lambda>m. m\<lparr>cm_cache := c\<rparr>) s"

text \<open>The recursions over the levels end after as many steps as there are controllers.\<close>

definition h_depth :: "hier \<Rightarrow> nat" where
  "h_depth s = length (h_cntlrs s)"

text \<open>\<^verbatim>\<open>MemoryManager::sendMsg\<close>.\<close>

definition cc_sendMsg :: "msg_t \<Rightarrow> core_id \<Rightarrow> core_id \<Rightarrow> IntPtr \<Rightarrow> u8 list option \<Rightarrow> u32 \<Rightarrow> hier \<Rightarrow> hier option" where
  "cc_sendMsg msg_type requester receiver address data_buf data_length s = do {
     ensure ((data_buf = None) = (data_length = 0));
     let shmem_msg = (ShmemMsg_new msg_type LAST_LEVEL_CACHE TAG_DIR requester address data_buf data_length)\<lparr>sm_where := HW_UNKNOWN\<rparr>;
     msg_buf \<leftarrow> makeMsgBuf shmem_msg;
     Some (s\<lparr>h_out := h_out s @ [(receiver, shmem_msg)]\<rparr>)
   }"

section \<open>Blocks of one cache\<close>

definition getCacheState :: "nat \<Rightarrow> IntPtr \<Rightarrow> hier \<Rightarrow> cstate option" where
  "getCacheState n address s = do {
     (cc, m) \<leftarrow> cntlr n s;
     pos \<leftarrow> peekSingleLine address (cm_cache m);
     Some (case pos of None \<Rightarrow> INVALID | Some p \<Rightarrow> bi_cstate (line_at p (cm_cache m)))
   }"

definition operationPermissibleinCache :: "nat \<Rightarrow> IntPtr \<Rightarrow> mem_op_t \<Rightarrow> hier \<Rightarrow> bool option" where
  "operationPermissibleinCache n address mem_op_type s = do {
     cstate \<leftarrow> getCacheState n address s;
     Some (case mem_op_type of READ \<Rightarrow> readable cstate | _ \<Rightarrow> writable cstate)
   }"

text \<open>Change of a line through the pointer \<^verbatim>\<open>cache_block_info\<close>.\<close>

definition set_line :: "nat \<Rightarrow> nat \<times> nat \<Rightarrow> (CacheBlockInfo \<Rightarrow> CacheBlockInfo) \<Rightarrow> hier \<Rightarrow> hier option" where
  "set_line n p f s = do { (cc, m) \<leftarrow> cntlr n s; Some (put_cache n (update_line p f (cm_cache m)) s) }"

definition setCacheState :: "nat \<Rightarrow> IntPtr \<Rightarrow> cstate \<Rightarrow> hier \<Rightarrow> hier option" where
  "setCacheState n address cstate s = do {
     (cc, m) \<leftarrow> cntlr n s;
     pos \<leftarrow> peekSingleLine address (cm_cache m);
     p \<leftarrow> pos;
     set_line n p (\<lambda>b. b\<lparr>bi_cstate := cstate\<rparr>) s
   }"

definition invalidateCacheBlock :: "nat \<Rightarrow> IntPtr \<Rightarrow> hier \<Rightarrow> hier option" where
  "invalidateCacheBlock n address s = do {
     (cc, m) \<leftarrow> cntlr n s;
     old_cstate \<leftarrow> getCacheState n address s;
     ensure (old_cstate \<noteq> MODIFIED);
     ensure (old_cstate \<noteq> INVALID);
     (found, c) \<leftarrow> invalidateSingleLine address (cm_cache m);
     Some (put_cache n c s)
   }"

text \<open>The contents of \<^verbatim>\<open>data_buf\<close>, which stays uninitialised when the cache has no data arrays.\<close>

definition retrieveCacheBlock :: "nat \<Rightarrow> IntPtr \<Rightarrow> bool \<Rightarrow> hier \<Rightarrow> (u8 list \<times> hier) option" where
  "retrieveCacheBlock n address update_replacement s = do {
     (cc, m) \<leftarrow> cntlr n s;
     (pos, d, c) \<leftarrow> accessSingleLine address LOAD None (unat (cc_block_size cc)) update_replacement (cm_cache m);
     ensure (pos \<noteq> None);
     Some (case d of Some x \<Rightarrow> x | None \<Rightarrow> h_uninit s, put_cache n c s)
   }"

definition isInLowerLevelCache :: "nat \<Rightarrow> hier \<Rightarrow> CacheBlockInfo \<Rightarrow> bool" where
  "isInLowerLevelCache n s block_info =
     (case cntlr n s of None \<Rightarrow> False | Some (cc, m) \<Rightarrow>
        (let address = tagToAddress (ca_base (cm_cache m)) (bi_tag block_info)
         in list_ex (\<lambda>p. case cntlr p s of None \<Rightarrow> False | Some (cc', m') \<Rightarrow>
              (case peekSingleLine address (cm_cache m') of Some (Some q) \<Rightarrow> True | _ \<Rightarrow> False)) (cm_prev m)))"

fun writeCacheBlock :: "nat \<Rightarrow> nat \<Rightarrow> IntPtr \<Rightarrow> u32 \<Rightarrow> u8 list option \<Rightarrow> u32 \<Rightarrow> hier \<Rightarrow> hier option" where
  "writeCacheBlock 0 n address offset data_buf data_length s = None"
| "writeCacheBlock (Suc depth) n address offset data_buf data_length s = do {
     (cc, m) \<leftarrow> cntlr n s;
     s1 \<leftarrow> (if cm_evicting_buf m \<noteq> None \<and> address = cm_evicting_address m
       then do {
         ensure (offset = 0);
         ensure (data_length = cc_block_size cc);
         Some (case data_buf of None \<Rightarrow> s
           | Some x \<Rightarrow> put_master n (\<lambda>m. m\<lparr>cm_evicting_buf := Some (take (unat data_length) x)\<rparr>) s)
       }
       else do {
         (pos, d, c) \<leftarrow> accessSingleLine (address + ucast offset) STORE data_buf (unat data_length) False (cm_cache m);
         p \<leftarrow> pos;
         ensure (bi_cstate (line_at p c) = MODIFIED);
         Some (put_cache n c s)
       });
     if cc_writethrough cc
     then do { k \<leftarrow> cc_next cc; writeCacheBlock depth k address offset data_buf data_length s1 }
     else Some s1
   }"

section \<open>Operations that update the previous levels\<close>

text \<open>The part of \<^verbatim>\<open>updateCacheBlock\<close> that follows the propagation to the previous levels. \<open>out_buf\<close> says whether the
  caller passes a buffer; the results are \<^verbatim>\<open>sibling_hit\<close> and the data written to the buffer.\<close>

definition update_own :: "nat \<Rightarrow> IntPtr \<Rightarrow> cstate \<Rightarrow> bool \<Rightarrow> bool \<Rightarrow> hier \<Rightarrow> (bool \<times> u8 list option \<times> hier) option" where
  "update_own n address new_cstate out_buf sibling_hit s = do {
     (cc, m) \<leftarrow> cntlr n s;
     pos \<leftarrow> peekSingleLine address (cm_cache m);
     case pos of
       None \<Rightarrow> do { ensure (\<not> out_buf); Some (sibling_hit, None, s) }
     | Some p \<Rightarrow>
         (let st = bi_cstate (line_at p (cm_cache m)) in
          if new_cstate = st \<and> out_buf
          then do { (b, s1) \<leftarrow> retrieveCacheBlock n address False s; Some (True, Some b, s1) }
          else do {
            (hit1, buf1, s1) \<leftarrow> (if st = MODIFIED
              then do {
                (h, b, t) \<leftarrow> (if cc_writethrough cc then Some (sibling_hit, None, s)
                  else case cc_next cc of
                    Some k \<Rightarrow> do {
                      (b, t) \<leftarrow> retrieveCacheBlock n address False s;
                      t1 \<leftarrow> writeCacheBlock (h_depth s) k address 0 (Some b) (cc_block_size cc) t;
                      Some (True, None, t1) }
                  | None \<Rightarrow>
                      if out_buf then do { (b, t) \<leftarrow> retrieveCacheBlock n address False s; Some (True, Some b, t) }
                      else None);
                t1 \<leftarrow> set_line n p (\<lambda>l. l\<lparr>bi_cstate := SHARED\<rparr>) t;
                Some (h, b, t1)
              }
              else Some (sibling_hit, None, s));
            (hit2, buf2, s2) \<leftarrow> (if (new_cstate = INVALID \<or> new_cstate = SHARED) \<and> out_buf
              then do { (b, t) \<leftarrow> retrieveCacheBlock n address False s1; Some (True, Some b, t) }
              else Some (hit1, buf1, s1));
            s3 \<leftarrow> (if new_cstate = INVALID then (if cc_coherent cc then invalidateCacheBlock n address s2 else Some s2)
                   else if new_cstate = SHARED \<or> new_cstate = MODIFIED then set_line n p (\<lambda>l. l\<lparr>bi_cstate := new_cstate\<rparr>) s2
                   else None);
            cur \<leftarrow> getCacheState n address s3;
            ensure (cur = INVALID \<or> cur = new_cstate \<or> \<not> cc_coherent cc);
            ensure (out_buf \<longrightarrow> buf2 \<noteq> None);
            Some (hit2, buf2, s3)
          })
   }"

fun updateCacheBlock :: "nat \<Rightarrow> nat \<Rightarrow> IntPtr \<Rightarrow> cstate \<Rightarrow> bool \<Rightarrow> hier \<Rightarrow> (bool \<times> u8 list option \<times> hier) option" where
  "updateCacheBlock 0 n address new_cstate out_buf s = None"
| "updateCacheBlock (Suc depth) n address new_cstate out_buf s = do {
     ensure (new_cstate \<notin> {INVALID_COLD, INVALID_EVICT, INVALID_COHERENCY});
     (cc, m) \<leftarrow> cntlr n s;
     (sibling_hit, s1) \<leftarrow> fold_opt (\<lambda>p (h, t). do {
         (h', b, t') \<leftarrow> updateCacheBlock depth p address new_cstate False t;
         Some (h \<or> h', t') }) (cm_prev m) (False, s);
     update_own n address new_cstate out_buf sibling_hit s1
   }"

text \<open>The update of the previous-level caches other than the requester.\<close>

definition update_siblings :: "nat \<Rightarrow> nat \<Rightarrow> IntPtr \<Rightarrow> cstate \<Rightarrow> hier \<Rightarrow> (bool \<times> hier) option" where
  "update_siblings n requester address new_cstate s = do {
     (cc, m) \<leftarrow> cntlr n s;
     fold_opt (\<lambda>p (h, t). do {
         (h', b, t') \<leftarrow> updateCacheBlock (h_depth s) p address new_cstate False t;
         Some (h \<or> h', t') }) (filter (\<lambda>p. p \<noteq> requester) (cm_prev m)) (False, s)
   }"

section \<open>Insertion\<close>

definition accessDRAM :: "mem_op_t \<Rightarrow> IntPtr \<Rightarrow> u8 list \<Rightarrow> hier \<Rightarrow> (where_t \<times> u8 list \<times> hier) option" where
  "accessDRAM mem_op_type address data_buf s =
     (if mem_op_type = READ
      then (let (buf, w, d) = getDataFromDram address data_buf (h_dram s) in Some (w, buf, s\<lparr>h_dram := d\<rparr>))
      else do { (w, d) \<leftarrow> putDataToDram address (Some data_buf) (h_dram s); Some (w, data_buf, s\<lparr>h_dram := d\<rparr>) })"

text \<open>The previous levels write their modified data into the eviction buffer.\<close>

definition back_invalidate :: "nat \<Rightarrow> IntPtr \<Rightarrow> u8 list \<Rightarrow> hier \<Rightarrow> (u8 list \<times> hier) option" where
  "back_invalidate n evict_address evict_buf s = do {
     (cc, m) \<leftarrow> cntlr n s;
     if cm_prev m = [] then Some (evict_buf, s)
     else do {
       let s1 = put_master n (\<lambda>m. m\<lparr>cm_evicting_address := evict_address, cm_evicting_buf := Some evict_buf\<rparr>) s;
       s2 \<leftarrow> fold_opt (\<lambda>p t. do { (h, b, t') \<leftarrow> updateCacheBlock (h_depth s) p evict_address INVALID False t; Some t' })
         (cm_prev m) s1;
       (cc2, m2) \<leftarrow> cntlr n s2;
       buf \<leftarrow> cm_evicting_buf m2;
       Some (buf, put_master n (\<lambda>m. m\<lparr>cm_evicting_address := 0, cm_evicting_buf := None\<rparr>) s2)
     }
   }"

text \<open>The evicted line is written to the next level, to the DRAM, or to the directory.\<close>

definition dispose_evicted :: "nat \<Rightarrow> IntPtr \<Rightarrow> cstate \<Rightarrow> u8 list \<Rightarrow> hier \<Rightarrow> hier option" where
  "dispose_evicted n evict_address evict_state evict_buf s = do {
     (cc, m) \<leftarrow> cntlr n s;
     if cc_perfect cc then Some s
     else if \<not> cc_coherent cc then do { ensure (cc_writethrough cc \<or> evict_state \<noteq> MODIFIED); Some s }
     else case cc_next cc of
       Some k \<Rightarrow>
         if \<not> cc_writethrough cc \<and> evict_state = MODIFIED
         then writeCacheBlock (h_depth s) k evict_address 0 (Some evict_buf) (cc_block_size cc) s
         else Some s
     | None \<Rightarrow>
         if cm_dram_cntlr m
         then (if evict_state = MODIFIED
               then map_option (\<lambda>(w, buf, t). t) (accessDRAM WRITE evict_address evict_buf s) else Some s)
         else do {
           home \<leftarrow> getHome (h_home s) evict_address;
           if evict_state = MODIFIED
           then cc_sendMsg FLUSH_REP (cc_core_id cc) home evict_address (Some evict_buf) (cc_block_size cc) s
           else do {
             ensure (evict_state = SHARED \<or> evict_state = EXCLUSIVE);
             cc_sendMsg INV_REP (cc_core_id cc) home evict_address None 0 s }
         }
   }"

definition insertCacheBlock :: "nat \<Rightarrow> IntPtr \<Rightarrow> cstate \<Rightarrow> u8 list option \<Rightarrow> hier \<Rightarrow> hier option" where
  "insertCacheBlock n address cstate data_buf s = do {
     (cc, m) \<leftarrow> cntlr n s;
     st \<leftarrow> getCacheState n address s;
     ensure (st = INVALID);
     (r, evict_address, c) \<leftarrow> insertSingleLine address data_buf (CacheBlockInfo_create SHARED_CACHE)
       (Some (isInLowerLevelCache n s)) (cm_cache m);
     s1 \<leftarrow> setCacheState n address cstate (put_cache n c s);
     s2 \<leftarrow> (if h_cache_only s
       then do {
         (cc1, m1) \<leftarrow> cntlr n s1;
         pos \<leftarrow> peekSingleLine address (cm_cache m1);
         p \<leftarrow> pos;
         set_line n p (setOption WARMUP) s1
       }
       else Some s1);
     if ins_eviction r
     then do {
       (evict_buf, s3) \<leftarrow> back_invalidate n evict_address
         (case ins_evict_buff r of Some x \<Rightarrow> x | None \<Rightarrow> h_uninit s) s2;
       s4 \<leftarrow> dispose_evicted n evict_address (bi_cstate (ins_evict_info r)) evict_buf s3;
       st' \<leftarrow> getCacheState n evict_address s4;
       ensure (st' = INVALID);
       Some s4
     }
     else Some s2
   }"

definition copyDataFromNextLevel :: "nat \<Rightarrow> mem_op_t \<Rightarrow> IntPtr \<Rightarrow> hier \<Rightarrow> hier option" where
  "copyDataFromNextLevel n mem_op_type address s = do {
     (cc, m) \<leftarrow> cntlr n s;
     k \<leftarrow> cc_next cc;
     permissible \<leftarrow> operationPermissibleinCache k address mem_op_type s;
     ensure permissible;
     (data_buf, s1) \<leftarrow> retrieveCacheBlock k address False s;
     cstate \<leftarrow> getCacheState k address s1;
     (cc1, m1) \<leftarrow> cntlr n s1;
     pos \<leftarrow> peekSingleLine address (cm_cache m1);
     case pos of
       Some p \<Rightarrow> map_option (\<lambda>(h, b, t). t) (updateCacheBlock (h_depth s) n address cstate False s1)
     | None \<Rightarrow> insertCacheBlock n address cstate (Some data_buf) s1
   }"

section \<open>Requests to the directory\<close>

definition processExReqToDirectory :: "nat \<Rightarrow> IntPtr \<Rightarrow> hier \<Rightarrow> hier option" where
  "processExReqToDirectory n address s = do {
     (cc, m) \<leftarrow> cntlr n s;
     cstate \<leftarrow> getCacheState n address s;
     ensure (cstate \<noteq> SHARED);
     ensure (cstate = INVALID);
     home \<leftarrow> getHome (h_home s) address;
     cc_sendMsg EX_REQ (cc_core_id_master cc) home address None 0 s
   }"

definition processUpgradeReqToDirectory :: "nat \<Rightarrow> IntPtr \<Rightarrow> hier \<Rightarrow> hier option" where
  "processUpgradeReqToDirectory n address s = do {
     (cc, m) \<leftarrow> cntlr n s;
     cstate \<leftarrow> getCacheState n address s;
     ensure (cstate = SHARED);
     s1 \<leftarrow> setCacheState n address SHARED_UPGRADING s;
     home \<leftarrow> getHome (h_home s) address;
     cc_sendMsg UPGRADE_REQ (cc_core_id_master cc) home address None 0 s1
   }"

definition processShReqToDirectory :: "nat \<Rightarrow> IntPtr \<Rightarrow> hier \<Rightarrow> hier option" where
  "processShReqToDirectory n address s = do {
     (cc, m) \<leftarrow> cntlr n s;
     home \<leftarrow> getHome (h_home s) address;
     cc_sendMsg SH_REQ (cc_core_id_master cc) home address None 0 s
   }"

definition initiateDirectoryAccess :: "nat \<Rightarrow> mem_op_t \<Rightarrow> IntPtr \<Rightarrow> bool \<Rightarrow> hier \<Rightarrow> hier option" where
  "initiateDirectoryAccess n mem_op_type address isPrefetch s = do {
     (cc, m) \<leftarrow> cntlr n s;
     let exclusive = (mem_op_type \<noteq> READ);
     let waiters = rq_enqueue address \<lparr>wt_exclusive = exclusive, wt_isPrefetch = isPrefetch, wt_cntlr = n\<rparr> (cm_directory_waiters m);
     let s1 = put_master n (\<lambda>m. m\<lparr>cm_directory_waiters := waiters\<rparr>) s;
     if rq_size address waiters = 1
     then (if exclusive
       then do {
         cstate \<leftarrow> getCacheState n address s1;
         if cstate = SHARED then processUpgradeReqToDirectory n address s1 else processExReqToDirectory n address s1
       }
       else processShReqToDirectory n address s1)
     else Some s1
   }"

section \<open>Requests of the previous level\<close>

text \<open>
  \<^verbatim>\<open>processShmemReqFromPrevCache\<close> in three parts: up to the decision whether the request hits, the handling of a
  hit, and the handling of a miss.
\<close>

definition shmem_lookup :: "nat \<Rightarrow> mem_op_t \<Rightarrow> IntPtr \<Rightarrow> bool \<Rightarrow> prefetch_type_t \<Rightarrow> bool \<Rightarrow> hier \<Rightarrow> (bool \<times> bool \<times> hier) option" where
  "shmem_lookup n mem_op_type address count isPrefetch onCacheMiss s = do {
     (cc, m) \<leftarrow> cntlr n s;
     cache_hit \<leftarrow> operationPermissibleinCache n address mem_op_type s;
     pos \<leftarrow> peekSingleLine address (cm_cache m);
     s1 \<leftarrow> (if cc_cbpred cc \<and> cc_mem_component cc = L3_CACHE \<and> onCacheMiss
       then do { l \<leftarrow> accessLLCSw (cc_bhist_thd cc) (h_pfq s) address (h_llc s); Some (s\<lparr>h_llc := l\<rparr>) }
       else Some s);
     (cache_hit', first_hit, s2) \<leftarrow>
       (if \<not> cache_hit \<and> cc_perfect cc
        then do {
          t \<leftarrow> (case pos of Some p \<Rightarrow> set_line n p (\<lambda>l. l\<lparr>bi_cstate := MODIFIED\<rparr>) s1
            | None \<Rightarrow> insertCacheBlock n address (if mem_op_type = READ then SHARED else MODIFIED) None s1);
          Some (True, cache_hit, t)
        }
        else if cache_hit \<and> cc_passthrough cc \<and> count
        then do {
          p \<leftarrow> pos;
          t \<leftarrow> set_line n p bi_invalidate s1;
          ensure (cc_next cc \<noteq> None);
          Some (False, False, t)
        }
        else Some (cache_hit, cache_hit, s1));
     Some (cache_hit', first_hit,
       if count \<and> isPrefetch = PF_NONE then put_master n (\<lambda>m. m\<lparr>cm_cache := updateCounters cache_hit' (cm_cache m)\<rparr>) s2 else s2)
   }"

definition shmem_hit :: "nat \<Rightarrow> nat \<Rightarrow> mem_op_t \<Rightarrow> IntPtr \<Rightarrow> prefetch_type_t \<Rightarrow> hier \<Rightarrow> (where_t \<times> hier) option" where
  "shmem_hit n requester mem_op_type address isPrefetch s = do {
     (cc, m) \<leftarrow> cntlr n s;
     pos \<leftarrow> peekSingleLine address (cm_cache m);
     p \<leftarrow> pos;
     let line = line_at p (cm_cache m);
     s1 \<leftarrow> (if isPrefetch = PF_NONE \<and> hasOption PREFETCH line then set_line n p (clearOption PREFETCH) s else Some s);
     s2 \<leftarrow> (if hasOption WARMUP line \<and> \<not> h_cache_only s then set_line n p (clearOption WARMUP) s1 else Some s1);
     (sibling_hit, s3) \<leftarrow>
       (if mem_op_type \<noteq> READ then update_siblings n requester address INVALID s2
        else if bi_cstate line = MODIFIED \<or> bi_cstate line = EXCLUSIVE then update_siblings n requester address SHARED s2
        else Some (False, s2));
     if h_last_remote s3 n \<noteq> HW_UNKNOWN
     then Some (h_last_remote s3 n, s3\<lparr>h_last_remote := (h_last_remote s3)(n := HW_UNKNOWN)\<rparr>)
     else Some (cc_mem_component cc + (if sibling_hit then HW_SIBLING else 0), s3)
   }"

text \<open>A miss in the last-level cache. The result says whether the block is there now; otherwise the directory was asked.\<close>

definition shmem_last_level :: "nat \<Rightarrow> nat \<Rightarrow> mem_op_t \<Rightarrow> IntPtr \<Rightarrow> prefetch_type_t \<Rightarrow> hier \<Rightarrow> (bool \<times> where_t \<times> hier) option" where
  "shmem_last_level n requester mem_op_type address isPrefetch s = do {
     (cc, m) \<leftarrow> cntlr n s;
     pos \<leftarrow> peekSingleLine address (cm_cache m);
     case pos of
       Some p \<Rightarrow>
         if bi_cstate (line_at p (cm_cache m)) = EXCLUSIVE
         then do {
           (h, s1) \<leftarrow> update_siblings n requester address INVALID s;
           s2 \<leftarrow> set_line n p (\<lambda>l. l\<lparr>bi_cstate := MODIFIED\<rparr>) s1;
           Some (True, cc_mem_component cc, s2)
         }
         else if cm_dram_cntlr m
         then do {
           s1 \<leftarrow> set_line n p (\<lambda>l. l\<lparr>bi_cstate := MODIFIED\<rparr>) s;
           Some (True, cc_mem_component cc, s1)
         }
         else do { s1 \<leftarrow> initiateDirectoryAccess n mem_op_type address (isPrefetch \<noteq> PF_NONE) s; Some (False, HW_MISS, s1) }
     | None \<Rightarrow>
         if cm_dram_cntlr m
         then do {
           (w, data_buf, s1) \<leftarrow> accessDRAM READ address (h_uninit s) s;
           s2 \<leftarrow> insertCacheBlock n address (if mem_op_type = READ then SHARED else MODIFIED) (Some data_buf) s1;
           s3 \<leftarrow> (if isPrefetch \<noteq> PF_NONE
             then do { (cc2, m2) \<leftarrow> cntlr n s2; q \<leftarrow> peekSingleLine address (cm_cache m2); p \<leftarrow> q; set_line n p (setOption PREFETCH) s2 }
             else Some s2);
           Some (True, w, s3\<lparr>h_last_remote := (h_last_remote s3)(n := w)\<rparr>)
         }
         else do { s1 \<leftarrow> initiateDirectoryAccess n mem_op_type address (isPrefetch \<noteq> PF_NONE) s; Some (False, HW_MISS, s1) }
   }"

definition shmem_miss :: "(nat \<Rightarrow> hier \<Rightarrow> (where_t \<times> hier) option) \<Rightarrow> nat \<Rightarrow> nat \<Rightarrow> mem_op_t \<Rightarrow> IntPtr \<Rightarrow> prefetch_type_t \<Rightarrow> hier \<Rightarrow>
    (bool \<times> where_t \<times> hier) option" where
  "shmem_miss next_request n requester mem_op_type address isPrefetch s = do {
     (cc, m) \<leftarrow> cntlr n s;
     cstate \<leftarrow> getCacheState n address s;
     (h, s1) \<leftarrow> (if cstate = SHARED then update_siblings n requester address INVALID s else Some (False, s));
     case cc_next cc of
       Some k \<Rightarrow> do {
         pos \<leftarrow> peekSingleLine address (cm_cache m);
         s2 \<leftarrow> (if pos \<noteq> None then invalidateCacheBlock n address s1 else Some s1);
         (hit_where, s3) \<leftarrow> next_request k s2;
         if hit_where \<noteq> HW_MISS
         then do {
           s4 \<leftarrow> copyDataFromNextLevel n mem_op_type address s3;
           s5 \<leftarrow> (if isPrefetch \<noteq> PF_NONE
             then do { (cc4, m4) \<leftarrow> cntlr n s4; q \<leftarrow> peekSingleLine address (cm_cache m4); p \<leftarrow> q; set_line n p (setOption PREFETCH) s4 }
             else Some s4);
           Some (True, hit_where, s5)
         }
         else Some (False, hit_where, s3)
       }
     | None \<Rightarrow> shmem_last_level n requester mem_op_type address isPrefetch s1
   }"

fun processShmemReqFromPrevCache :: "nat \<Rightarrow> nat \<Rightarrow> nat \<Rightarrow> mem_op_t \<Rightarrow> IntPtr \<Rightarrow> bool \<Rightarrow> prefetch_type_t \<Rightarrow> bool \<Rightarrow> hier \<Rightarrow>
    (where_t \<times> hier) option" where
  "processShmemReqFromPrevCache 0 n requester mem_op_type address count isPrefetch onCacheMiss s = None"
| "processShmemReqFromPrevCache (Suc depth) n requester mem_op_type address count isPrefetch onCacheMiss s = do {
     (cache_hit, first_hit, s1) \<leftarrow> shmem_lookup n mem_op_type address count isPrefetch onCacheMiss s;
     (hit, hit_where, s2) \<leftarrow>
       (if cache_hit
        then do { (w, t) \<leftarrow> shmem_hit n requester mem_op_type address isPrefetch s1; Some (True, w, t) }
        else shmem_miss (\<lambda>k t. processShmemReqFromPrevCache depth k n mem_op_type address count
               (if isPrefetch = PF_NONE then PF_NONE else PF_OTHER) onCacheMiss t)
             n requester mem_op_type address isPrefetch s1);
     s3 \<leftarrow> (if hit then map_option snd (retrieveCacheBlock n address (first_hit \<and> count) s2) else Some s2);
     Some (hit_where, s3)
   }"

section \<open>Operations of the core\<close>

definition accessCache :: "nat \<Rightarrow> mem_op_t \<Rightarrow> IntPtr \<Rightarrow> u32 \<Rightarrow> u8 list option \<Rightarrow> u32 \<Rightarrow> bool \<Rightarrow> hier \<Rightarrow> (u8 list option \<times> hier) option" where
  "accessCache n mem_op_type ca_address offset data_buf data_length update_replacement s = do {
     (cc, m) \<leftarrow> cntlr n s;
     if mem_op_type \<noteq> WRITE
     then do {
       (pos, d, c) \<leftarrow> accessSingleLine (ca_address + ucast offset) LOAD None (unat data_length) update_replacement (cm_cache m);
       Some (if data_buf \<noteq> None \<and> d \<noteq> None then d else data_buf, put_cache n c s)
     }
     else do {
       (pos, d, c) \<leftarrow> accessSingleLine (ca_address + ucast offset) STORE data_buf (unat data_length) update_replacement (cm_cache m);
       let s1 = put_cache n c s;
       s2 \<leftarrow> (if cc_writethrough cc
         then do { k \<leftarrow> cc_next cc; writeCacheBlock (h_depth s) k ca_address offset data_buf data_length s1 }
         else Some s1);
       Some (data_buf, s2)
     }
   }"

text \<open>The result of an operation: done, with the place of the hit and the contents of the buffer, or waiting for the directory.\<close>

datatype op_result = Done where_t "u8 list option" | Waiting

text \<open>The end of \<^verbatim>\<open>processMemOpFromCore\<close> after a miss, once the block is in the next level.\<close>

definition mem_op_fill :: "pending_op \<Rightarrow> where_t \<Rightarrow> hier \<Rightarrow> (op_result \<times> hier) option" where
  "mem_op_fill po hit_where s = do {
     (cc, m) \<leftarrow> cntlr (po_cntlr po) s;
     s1 \<leftarrow> copyDataFromNextLevel (po_cntlr po) (po_op po) (po_address po) s;
     permissible \<leftarrow> operationPermissibleinCache (po_cntlr po) (po_address po) (po_op po) s1;
     ensure permissible;
     (data, s2) \<leftarrow> accessCache (po_cntlr po) (po_op po) (po_address po) (po_offset po) (po_data po) (po_length po)
       (hit_where = cc_mem_component cc \<and> po_count po) s1;
     Some (Done hit_where data, s2)
   }"

definition processMemOpFromCore :: "lock_signal_t \<Rightarrow> pending_op \<Rightarrow> hier \<Rightarrow> (op_result \<times> hier) option" where
  "processMemOpFromCore lock_signal po s = do {
     let n = po_cntlr po; let ca_address = po_address po; let mem_op_type = po_op po;
     (cc, m) \<leftarrow> cntlr n s;
     ensure (ca_address AND ucast (cc_block_size cc - 1) = 0);
     ensure (po_offset po + po_length po \<le> cc_block_size cc);
     hit0 \<leftarrow> operationPermissibleinCache n ca_address mem_op_type s;
     pos \<leftarrow> peekSingleLine ca_address (cm_cache m);
     (cache_hit, s1) \<leftarrow>
       (if \<not> hit0 \<and> cc_perfect cc
        then do {
          t \<leftarrow> (case pos of Some p \<Rightarrow> set_line n p (\<lambda>l. l\<lparr>bi_cstate := MODIFIED\<rparr>) s
            | None \<Rightarrow> insertCacheBlock n ca_address (if mem_op_type = READ then SHARED else MODIFIED) None s);
          Some (True, t)
        }
        else if hit0 \<and> cc_passthrough cc
        then do { p \<leftarrow> pos; t \<leftarrow> set_line n p bi_invalidate s; Some (False, t) }
        else Some (hit0, s));
     let s2 = (if po_count po then put_master n (\<lambda>m. m\<lparr>cm_cache := updateCounters cache_hit (cm_cache m)\<rparr>) s1 else s1);
     if cache_hit
     then do {
       (cc2, m2) \<leftarrow> cntlr n s2;
       q \<leftarrow> peekSingleLine ca_address (cm_cache m2);
       p \<leftarrow> q;
       let line = line_at p (cm_cache m2);
       s3 \<leftarrow> (if hasOption WARMUP line \<and> \<not> h_cache_only s then set_line n p (clearOption WARMUP) s2 else Some s2);
       s4 \<leftarrow> (if hasOption PREFETCH line then set_line n p (clearOption PREFETCH) s3 else Some s3);
       (data, s5) \<leftarrow> accessCache n mem_op_type ca_address (po_offset po) (po_data po) (po_length po) (po_count po) s4;
       Some (Done (cc_mem_component cc) data, s5)
     }
     else do {
       ensure (lock_signal \<noteq> UNLOCK);
       st \<leftarrow> getCacheState n ca_address s2;
       s3 \<leftarrow> (if st \<noteq> INVALID then invalidateCacheBlock n ca_address s2 else Some s2);
       k \<leftarrow> cc_next cc;
       (hit_where, s4) \<leftarrow> processShmemReqFromPrevCache (h_depth s) k n mem_op_type ca_address (po_count po) PF_NONE True s3;
       if hit_where \<noteq> HW_MISS then mem_op_fill po hit_where s4
       else Some (Waiting, s4\<lparr>h_pending := (h_pending s4)(cc_core_id cc \<mapsto> po)\<rparr>)
     }
   }"

text \<open>A suspended operation continues: the next levels fill themselves with the data that has arrived.\<close>

definition mem_op_resume :: "pending_op \<Rightarrow> hier \<Rightarrow> (op_result \<times> hier) option" where
  "mem_op_resume po s = do {
     (cc, m) \<leftarrow> cntlr (po_cntlr po) s;
     k \<leftarrow> cc_next cc;
     (hit_where, s1) \<leftarrow> processShmemReqFromPrevCache (h_depth s) k (po_cntlr po) (po_op po) (po_address po) False PF_NONE False s;
     ensure (hit_where \<noteq> HW_MISS);
     mem_op_fill po hit_where s1
   }"

section \<open>Messages of the directory\<close>

definition processUpgradeRepFromDramDirectory :: "nat \<Rightarrow> ShmemMsg \<Rightarrow> hier \<Rightarrow> hier option" where
  "processUpgradeRepFromDramDirectory n shmem_msg s = do {
     cstate \<leftarrow> getCacheState n (sm_address shmem_msg) s;
     if cstate = INVALID
     then do {
       ensure (sm_data shmem_msg \<noteq> None);
       map_option (\<lambda>(h, b, t). t) (updateCacheBlock (h_depth s) n (sm_address shmem_msg) MODIFIED True s)
     }
     else if cstate = SHARED_UPGRADING
     then map_option (\<lambda>(h, b, t). t) (updateCacheBlock (h_depth s) n (sm_address shmem_msg) MODIFIED False s)
     else None
   }"

definition processInvReqFromDramDirectory :: "nat \<Rightarrow> core_id \<Rightarrow> ShmemMsg \<Rightarrow> hier \<Rightarrow> hier option" where
  "processInvReqFromDramDirectory n sender shmem_msg s = do {
     cstate \<leftarrow> getCacheState n (sm_address shmem_msg) s;
     if cstate \<noteq> INVALID
     then do {
       (h, b, s1) \<leftarrow> updateCacheBlock (h_depth s) n (sm_address shmem_msg) INVALID False s;
       cc_sendMsg INV_REP (sm_requester shmem_msg) sender (sm_address shmem_msg) None 0 s1
     }
     else Some s
   }"

definition processFlushReqFromDramDirectory :: "nat \<Rightarrow> core_id \<Rightarrow> ShmemMsg \<Rightarrow> hier \<Rightarrow> hier option" where
  "processFlushReqFromDramDirectory n sender shmem_msg s = do {
     (cc, m) \<leftarrow> cntlr n s;
     cstate \<leftarrow> getCacheState n (sm_address shmem_msg) s;
     if cstate \<noteq> INVALID
     then do {
       (h, data_buf, s1) \<leftarrow> updateCacheBlock (h_depth s) n (sm_address shmem_msg) INVALID True s;
       cc_sendMsg FLUSH_REP (sm_requester shmem_msg) sender (sm_address shmem_msg) data_buf (cc_block_size cc) s1
     }
     else Some s
   }"

text \<open>The reply for a line in state \<open>SHARED_UPGRADING\<close> carries the uninitialised buffer.\<close>

definition processWbReqFromDramDirectory :: "nat \<Rightarrow> core_id \<Rightarrow> ShmemMsg \<Rightarrow> hier \<Rightarrow> hier option" where
  "processWbReqFromDramDirectory n sender shmem_msg s = do {
     (cc, m) \<leftarrow> cntlr n s;
     cstate \<leftarrow> getCacheState n (sm_address shmem_msg) s;
     if cstate \<noteq> INVALID
     then do {
       (data_buf, s1) \<leftarrow> (if cstate \<noteq> SHARED_UPGRADING
         then do { (h, b, t) \<leftarrow> updateCacheBlock (h_depth s) n (sm_address shmem_msg) SHARED True s; Some (b, t) }
         else Some (Some (h_uninit s), s));
       cc_sendMsg WB_REP (sm_requester shmem_msg) sender (sm_address shmem_msg) data_buf (cc_block_size cc) s1
     }
     else Some s
   }"

text \<open>The loop that wakes up the waiting threads one after the other. A waiter that needs the line exclusively while it is
  shared sends an upgrade request and ends the loop.\<close>

partial_function (option) wake_waiters :: "nat \<Rightarrow> ShmemMsg \<Rightarrow> hier \<Rightarrow> hier option" where
  "wake_waiters n shmem_msg s = do {
     (cc, m) \<leftarrow> cntlr n s;
     if rq_empty (sm_address shmem_msg) (cm_directory_waiters m) then Some s
     else do {
       request \<leftarrow> rq_front (sm_address shmem_msg) (cm_directory_waiters m);
       cstate \<leftarrow> getCacheState n (sm_address shmem_msg) s;
       if wt_exclusive request \<and> cstate = SHARED then processUpgradeReqToDirectory n (sm_address shmem_msg) s
       else do {
         s1 \<leftarrow> (if wt_isPrefetch request
           then do { q \<leftarrow> peekSingleLine (sm_address shmem_msg) (cm_cache m); p \<leftarrow> q; set_line n p (setOption PREFETCH) s }
           else Some s);
         (rc, rm) \<leftarrow> cntlr (wt_cntlr request) s1;
         po \<leftarrow> h_pending s1 (cc_core_id rc);
         (r, s2) \<leftarrow> mem_op_resume po (s1\<lparr>h_last_remote := (h_last_remote s1)(wt_cntlr request := sm_where shmem_msg),
           h_pending := (h_pending s1)(cc_core_id rc := None)\<rparr>);
         let s3 = (case r of Done w d \<Rightarrow> s2\<lparr>h_done := h_done s2 @ [(cc_core_id rc, w, d)]\<rparr> | Waiting \<Rightarrow> s2);
         (cc3, m3) \<leftarrow> cntlr n s3;
         (req, waiters) \<leftarrow> rq_dequeue (sm_address shmem_msg) (cm_directory_waiters m3);
         wake_waiters n shmem_msg (put_master n (\<lambda>m. m\<lparr>cm_directory_waiters := waiters\<rparr>) s3)
       }
     }
   }"

definition handleMsgFromDramDirectory :: "nat \<Rightarrow> core_id \<Rightarrow> ShmemMsg \<Rightarrow> hier \<Rightarrow> hier option" where
  "handleMsgFromDramDirectory n sender shmem_msg s = do {
     (cc, m) \<leftarrow> cntlr n s;
     let reply = (sm_type shmem_msg = EX_REP \<or> sm_type shmem_msg = SH_REP \<or> sm_type shmem_msg = UPGRADE_REP);
     requester \<leftarrow> (if reply then rq_front (sm_address shmem_msg) (cm_directory_waiters m) else Some \<lparr>wt_exclusive = False, wt_isPrefetch = False, wt_cntlr = n\<rparr>);
     s1 \<leftarrow> (case sm_type shmem_msg of
         EX_REP \<Rightarrow> insertCacheBlock n (sm_address shmem_msg) EXCLUSIVE (sm_data shmem_msg) s
       | SH_REP \<Rightarrow> insertCacheBlock n (sm_address shmem_msg) SHARED (sm_data shmem_msg) s
       | UPGRADE_REP \<Rightarrow> processUpgradeRepFromDramDirectory n shmem_msg s
       | INV_REQ \<Rightarrow> processInvReqFromDramDirectory n sender shmem_msg s
       | FLUSH_REQ \<Rightarrow> processFlushReqFromDramDirectory n sender shmem_msg s
       | WB_REQ \<Rightarrow> processWbReqFromDramDirectory n sender shmem_msg s
       | _ \<Rightarrow> None);
     if reply then wake_waiters n shmem_msg s1 else Some s1
   }"

declare wake_waiters.simps [code]

end
