(* ===== verification/BlockStore.thy ===== *)
theory BlockStore
  imports LruLive
begin

text \<open>
  A cache as the cache controllers use it: a partial map from block addresses to the coherence state and the
  data of the block. \<open>block_live\<close> is the invariant of the caches with LRU replacement and the mask hash, with or
  without data arrays. Every operation on such a cache returns, keeps the invariant, and has the effect on the
  map that a controller expects.
\<close>

section \<open>The map of a set\<close>

definition line_bytes :: "CacheSet \<Rightarrow> nat \<Rightarrow> u8 list option" where
  "line_bytes s i = map_option (\<lambda>d. take (cs_blocksize s) (drop (i * cs_blocksize s) d)) (cs_blocks s)"

definition set_view :: "CacheSet \<Rightarrow> IntPtr \<Rightarrow> (cstate \<times> u8 list option) option" where
  "set_view s tag = (if tag = - 1 then None
     else map_option (\<lambda>i. (bi_cstate (cs_lines s ! i), line_bytes s i)) (cs_find tag s))"

lemma set_view_Some:
  assumes "tags_distinct (cs_lines s)"
  shows "set_view s tag = Some b \<longleftrightarrow> tag \<noteq> - 1 \<and>
    (\<exists>i < length (cs_lines s). bi_tag (cs_lines s ! i) = tag \<and> b = (bi_cstate (cs_lines s ! i), line_bytes s i))"
  using cs_find_iff [OF assms, of tag] by (auto simp: set_view_def)

lemma set_view_None:
  "set_view s tag = None \<longleftrightarrow> tag = - 1 \<or> (\<forall>i < length (cs_lines s). bi_tag (cs_lines s ! i) \<noteq> tag)"
  by (auto simp: set_view_def cs_find_None)

lemma set_view_update:
  assumes d: "tags_distinct (cs_lines s)" and i: "i < length (cs_lines s)"
    and d': "tags_distinct (cs_lines s')" and s': "cs_lines s' = (cs_lines s)[i := b]"
    and bytes: "\<And>j. j < length (cs_lines s) \<Longrightarrow> j \<noteq> i \<Longrightarrow> line_bytes s' j = line_bytes s j"
  shows "set_view s' = (\<lambda>tag. if tag = bi_tag b \<and> tag \<noteq> - 1 then Some (bi_cstate b, line_bytes s' i)
    else if tag = bi_tag (cs_lines s ! i) then None else set_view s tag)"
proof
  fix tag
  have old: "j = i" if "j < length (cs_lines s)" "bi_tag (cs_lines s ! j) = bi_tag (cs_lines s ! i)"
    "bi_tag (cs_lines s ! i) \<noteq> - 1" for j
    using that d i unfolding tags_distinct_nth by metis
  consider (none) "tag = - 1" | (new) "tag \<noteq> - 1" "tag = bi_tag b"
    | (gone) "tag \<noteq> - 1" "tag \<noteq> bi_tag b" "tag = bi_tag (cs_lines s ! i)"
    | (same) "tag \<noteq> - 1" "tag \<noteq> bi_tag b" "tag \<noteq> bi_tag (cs_lines s ! i)" by blast
  then show "set_view s' tag = (if tag = bi_tag b \<and> tag \<noteq> - 1 then Some (bi_cstate b, line_bytes s' i)
    else if tag = bi_tag (cs_lines s ! i) then None else set_view s tag)"
  proof cases
    case new
    then have "set_view s' tag = Some (bi_cstate b, line_bytes s' i)"
      unfolding set_view_Some [OF d'] using i s' by (auto intro!: exI [of _ i])
    with new show ?thesis by simp
  next
    case gone
    then have "set_view s' tag = None"
      unfolding set_view_None using s' old i by (auto simp: nth_list_update split: if_splits)
    with gone show ?thesis by simp
  next
    case same
    have "set_view s' tag = Some c \<longleftrightarrow> set_view s tag = Some c" for c
    proof -
      have "(\<exists>j < length (cs_lines s). bi_tag (cs_lines s' ! j) = tag \<and> c = (bi_cstate (cs_lines s' ! j), line_bytes s' j)) \<longleftrightarrow>
        (\<exists>j < length (cs_lines s). bi_tag (cs_lines s ! j) = tag \<and> c = (bi_cstate (cs_lines s ! j), line_bytes s j))"
        using same i bytes unfolding s' by (metis nth_list_update_eq nth_list_update_neq)
      then show ?thesis
        unfolding set_view_Some [OF d] set_view_Some [OF d'] by (simp add: s')
    qed
    then have "set_view s' tag = set_view s tag"
      by (metis not_None_eq)
    with same show ?thesis by simp
  qed (simp add: set_view_def)
qed

text \<open>The special case of an update that keeps the tag of a valid line.\<close>

lemma set_view_same_tag:
  assumes "tags_distinct (cs_lines s)" and i: "i < length (cs_lines s)"
    and s': "cs_lines s' = (cs_lines s)[i := b]" and t: "bi_tag b = bi_tag (cs_lines s ! i)" "bi_tag b \<noteq> - 1"
    and "\<And>j. j < length (cs_lines s) \<Longrightarrow> j \<noteq> i \<Longrightarrow> line_bytes s' j = line_bytes s j"
  shows "tags_distinct (cs_lines s') \<and> set_view s' = (set_view s)(bi_tag b \<mapsto> (bi_cstate b, line_bytes s' i))"
proof -
  have d': "tags_distinct (cs_lines s')"
    unfolding s' using assms(1) i t unfolding tags_distinct_nth [of "cs_lines s"]
    by (intro tags_distinct_update [OF assms(1)]) metis
  have "set_view s' tag = ((set_view s)(bi_tag b \<mapsto> (bi_cstate b, line_bytes s' i))) tag" for tag
    using fun_cong [OF set_view_update [OF assms(1) i d' s' assms(6)], of tag] t by simp
  then show ?thesis
    using d' by blast
qed

section \<open>Line data\<close>

text \<open>Overwriting a part of line \<open>i\<close> leaves the other lines of the array and the rest of line \<open>i\<close>.\<close>

definition patch :: "nat \<Rightarrow> 'a list \<Rightarrow> 'a list \<Rightarrow> 'a list" where
  "patch off x d = take off d @ x @ drop (off + length x) d"

lemma length_patch [simp]: "off + length x \<le> length d \<Longrightarrow> length (patch off x d) = length d"
  by (simp add: patch_def)

lemma patch_all: "length x = length d \<Longrightarrow> patch 0 x d = x"
  by (simp add: patch_def)

lemma nth_patch:
  "off + length x \<le> length d \<Longrightarrow> m < length d \<Longrightarrow>
    patch off x d ! m = (if m < off then d ! m else if m < off + length x then x ! (m - off) else d ! m)"
  by (auto simp: patch_def nth_append min_def)

lemma bytes_put_patch: "bytes_put d pos x = (if pos + length x \<le> length d then Some (patch pos x d) else None)"
  by (simp add: bytes_put_def patch_def)

lemma line_index_bound: "i < (n :: nat) \<Longrightarrow> i * b + b \<le> n * b"
  using mult_le_mono1 [of "Suc i" n b] by simp

lemma patch_lines:
  assumes len: "length d = n * b" and i: "i < n" and x: "off + length x \<le> b" and j: "j < n"
  shows "take b (drop (j * b) (patch (i * b + off) x d)) =
    (if j = i then patch off x (take b (drop (i * b) d)) else take b (drop (j * b) d))"
proof -
  note bi = line_index_bound [OF i, of b] and bj = line_index_bound [OF j, of b]
  have fit: "i * b + off + length x \<le> length d"
    using bi x len by linarith
  have far: "j * b + m < i * b + off \<or> i * b + off + length x \<le> j * b + m" if "m < b" "j \<noteq> i" for m
  proof (cases "j < i")
    case True
    then show ?thesis using line_index_bound [OF True, of b] that by linarith
  next
    case False
    then have "i < j" using that by simp
    from line_index_bound [OF this, of b] show ?thesis using x by linarith
  qed
  have at: "take b (drop (l * b) e) ! m = e ! (l * b + m)" if "l < n" "m < b" "length e = n * b" for l m and e :: "'a list"
    using that line_index_bound [of l n b] by simp
  show ?thesis
  proof (rule nth_equalityI)
    show "length (take b (drop (j * b) (patch (i * b + off) x d))) = length
      (if j = i then patch off x (take b (drop (i * b) d)) else take b (drop (j * b) d))"
      using bi bj len fit x by auto
  next
    fix m
    assume "m < length (take b (drop (j * b) (patch (i * b + off) x d)))"
    then have m: "m < b" "j * b + m < length d"
      using fit by auto
    have fit': "off + length x \<le> length (take b (drop (i * b) d))" "m < length (take b (drop (i * b) d))"
      using bi len x m by simp_all
    have "patch (i * b + off) x d ! (j * b + m) = (if j = i
        then (if m < off then d ! (i * b + m) else if m < off + length x then x ! (m - off) else d ! (i * b + m))
        else d ! (j * b + m))"
      using nth_patch [OF fit m(2)] far [OF m(1)] by auto
    then show "take b (drop (j * b) (patch (i * b + off) x d)) ! m =
      (if j = i then patch off x (take b (drop (i * b) d)) else take b (drop (j * b) d)) ! m"
      using at [OF j m(1), of "patch (i * b + off) x d"] at [OF j m(1) len] at [OF i m(1) len] nth_patch [OF fit'] fit len
      by auto
  qed
qed

section \<open>Sets\<close>

definition block_set :: "bool \<Rightarrow> nat \<Rightarrow> nat \<Rightarrow> CacheSet \<Rightarrow> bool" where
  "block_set fi n b s \<longleftrightarrow> set_wf n s \<and> lru_one_attempt (cs_policy s) \<and> cs_blocksize s = b \<and> (cs_blocks s \<noteq> None \<longleftrightarrow> fi)"

lemma block_set_bytes:
  assumes "block_set fi n b s"
  shows "line_bytes s i = (case cs_blocks s of None \<Rightarrow> None | Some d \<Rightarrow> Some (take b (drop (i * b) d)))"
    and "cs_blocks s = Some d \<Longrightarrow> length d = n * b"
  using assms by (auto simp: block_set_def set_wf_def line_bytes_def split: option.splits)

lemma block_set_line:
  assumes "block_set fi n b s" and "i < n"
  shows "if fi then \<exists>x. line_bytes s i = Some x \<and> length x = b else line_bytes s i = None"
  using assms block_set_bytes [OF assms(1)] line_index_bound [OF assms(2), of b]
  by (auto simp: block_set_def split: option.splits)

lemma block_set_touch:
  assumes "block_set fi n b s" and "i < n" and "info_live n info"
  shows "\<exists>s' info'. (if upd then touch_line i s info else Some (s, info)) = Some (s', info') \<and> block_set fi n b s' \<and>
    info_live n info' \<and> cs_lines s' = cs_lines s \<and> cs_blocks s' = cs_blocks s"
proof (cases upd)
  case True
  have wf: "set_wf n s" and "lru_one_attempt (cs_policy s)" and len: "length (cs_lines s) = n"
    using assms(1) by (simp_all add: block_set_def set_wf_def)
  then obtain p' info' where "updateReplacementIndex n i (cs_policy s) info = Some (p', info')"
    and l: "lru_one_attempt p'" "info_live n info'"
    using lru_touch_live [of "cs_policy s" n i info] assms(2,3) by (auto simp: set_wf_def)
  then have t: "touch_line i s info = Some (s\<lparr>cs_policy := p'\<rparr>, info')"
    using len by (simp add: touch_line_def)
  then show ?thesis
    using True l assms(1) touch_line_wf [OF t wf assms(2)] by (simp add: block_set_def)
qed (use assms in auto)

lemma block_set_read:
  assumes "block_set fi n b s" and "i < n" and "info_live n info" and "off + bytes \<le> b"
  shows "\<exists>s' info'. read_line i off bytes upd s info =
      Some (map_option (\<lambda>d. take bytes (drop off d)) (line_bytes s i), s', info') \<and> block_set fi n b s' \<and>
    info_live n info' \<and> cs_lines s' = cs_lines s \<and> cs_blocks s' = cs_blocks s"
proof -
  obtain s' info' where t: "(if upd then touch_line i s info else Some (s, info)) = Some (s', info')"
    "block_set fi n b s'" "info_live n info'" "cs_lines s' = cs_lines s" "cs_blocks s' = cs_blocks s"
    using block_set_touch [OF assms(1-3), of upd] by blast
  have b: "cs_blocksize s = b" using assms(1) by (simp add: block_set_def)
  have at: "bytes_at d (i * b + off) bytes = Some (take bytes (drop off (take b (drop (i * b) d))))"
    if "cs_blocks s = Some d" for d
    using block_set_bytes(2) [OF assms(1) that] line_index_bound [OF assms(2), of b] assms(4)
    by (simp add: bytes_at_def drop_take add.commute)
  show ?thesis
    using t b at assms(4) by (cases "cs_blocks s") (auto simp: read_line_def block_set_bytes(1) [OF assms(1)])
qed

lemma block_set_blocks:
  assumes "block_set fi n b s" and "cs_blocks s = Some d" and "length d' = n * b"
  shows "block_set fi n b (s\<lparr>cs_blocks := Some d'\<rparr>)"
  using assms by (auto simp: block_set_def set_wf_def)

lemma block_set_write:
  assumes s: "block_set fi n b s" and i: "i < n" and "info_live n info" and x: "off + length x \<le> b"
  shows "\<exists>s' info'. write_line i off (Some x) (length x) upd s info = Some (s', info') \<and> block_set fi n b s' \<and>
    info_live n info' \<and> cs_lines s' = cs_lines s \<and>
    (\<forall>j < n. line_bytes s' j = (if j = i then map_option (patch off x) (line_bytes s i) else line_bytes s j))"
proof -
  have b: "cs_blocksize s = b" using s by (simp add: block_set_def)
  show ?thesis
  proof (cases "cs_blocks s")
    case None
    then show ?thesis
      using block_set_touch [OF assms(1-3), of upd] b x
      by (auto simp: write_line_def line_bytes_def)
  next
    case (Some d)
    note len = block_set_bytes(2) [OF s Some]
    let ?d = "patch (i * b + off) x d"
    have fit: "i * b + off + length x \<le> length d"
      using len line_index_bound [OF i, of b] x by linarith
    have s1: "block_set fi n b (s\<lparr>cs_blocks := Some ?d\<rparr>)"
      using block_set_blocks [OF s Some] len fit by simp
    obtain s' info' where t: "(if upd then touch_line i (s\<lparr>cs_blocks := Some ?d\<rparr>) info else Some (s\<lparr>cs_blocks := Some ?d\<rparr>, info)) = Some (s', info')"
      "block_set fi n b s'" "info_live n info'" "cs_lines s' = cs_lines s" "cs_blocks s' = Some ?d"
      using block_set_touch [OF s1 i assms(3), of upd] by auto
    have w: "write_line i off (Some x) (length x) upd s info = Some (s', info')"
      using t(1) b x Some fit by (simp add: write_line_def bytes_put_patch)
    have "line_bytes s' j = (if j = i then map_option (patch off x) (line_bytes s i) else line_bytes s j)" if "j < n" for j
      using patch_lines [OF len i x that] t(5) Some
      by (simp add: block_set_bytes(1) [OF s] block_set_bytes(1) [OF t(2)])
    then show ?thesis
      using w t by blast
  qed
qed

lemma block_set_invalidate:
  assumes "block_set fi n b s" and "tag \<noteq> - 1"
  shows "block_set fi n b (snd (cs_invalidate tag s)) \<and> set_view (snd (cs_invalidate tag s)) = (set_view s)(tag := None)"
proof -
  let ?s = "snd (cs_invalidate tag s)"
  have wf: "set_wf n s" using assms(1) by (simp add: block_set_def)
  note wf' = set_wf_invalidate [OF wf, of tag]
  have d: "tags_distinct (cs_lines s)" "tags_distinct (cs_lines ?s)"
    using wf wf' by (simp_all add: set_wf_def)
  have live: "block_set fi n b ?s"
    using assms(1) wf' by (auto simp: block_set_def cs_invalidate_def split: option.split)
  show ?thesis
  proof (cases "cs_find tag s")
    case None
    then have "set_view s tag = None" by (simp add: set_view_def)
    then show ?thesis
      using live None by (auto simp: cs_invalidate_def fun_eq_iff)
  next
    case (Some i)
    note i = cs_find_Some [OF Some]
    have lines: "cs_lines ?s = (cs_lines s)[i := bi_invalidate (cs_lines s ! i)]" "line_bytes ?s = line_bytes s"
      by (simp_all add: cs_invalidate_def Some line_bytes_def fun_eq_iff)
    from set_view_update [OF d(1) _ d(2) lines(1)] i lines(2) live show ?thesis
      by (simp add: fun_eq_iff)
  qed
qed

lemma block_set_insert:
  assumes s: "block_set fi n b s" and n: "0 < n" and info: "info_live n info"
    and fresh: "set_view s (bi_tag block) = None" "bi_tag block \<noteq> - 1" and x: "length x = b"
  shows "\<exists>r s' info'. cs_insert block (Some x) evict cntlr s info = Some (r, s', info') \<and> block_set fi n b s' \<and>
    info_live n info' \<and>
    (\<forall>l \<in> set (cs_lines s'). l \<in> set (cs_lines s) \<or> bi_tag l = bi_tag block) \<and>
    set_view s' = (if ins_eviction r then (set_view s)(bi_tag (ins_evict_info r) := None) else set_view s)
      (bi_tag block \<mapsto> (bi_cstate block, if fi then Some x else None)) \<and>
    (ins_eviction r \<longrightarrow> (\<exists>l \<in> set (cs_lines s). isValid l \<and> bi_tag (ins_evict_info r) = bi_tag l) \<and>
      set_view s (bi_tag (ins_evict_info r)) = Some (bi_cstate (ins_evict_info r), ins_evict_buff r))"
proof -
  have wf: "set_wf n s" and pol: "policy_wf n (cs_policy s)" and len: "length (cs_lines s) = n"
    and d: "tags_distinct (cs_lines s)" and one: "lru_one_attempt (cs_policy s)" and bs: "cs_blocksize s = b"
    using s by (simp_all add: block_set_def set_wf_def)
  have ne: "cs_lines s \<noteq> []" using len n by auto
  obtain i p' info' cost where g: "getReplacementIndex cntlr (cs_lines s) (cs_policy s) info = Some (i, p', info', cost)"
    and l: "lru_one_attempt p'" "info_live n info'"
    using lru_victim_live [OF one ne info, of cntlr] by blast
  have i: "i < n"
    using policy.victim_law [OF _ ne g] len pol by simp
  let ?old = "cs_lines s ! i" and ?new = "bi_clone (cs_lines s ! i) block"
  have out: "copy_out i s = Some (line_bytes s i)"
    using block_set_bytes [OF s] line_index_bound [OF i, of b] bs
    by (auto simp: copy_out_def bytes_at_def split: option.split)
  define blocks where "blocks = map_option (patch (i * b) x) (cs_blocks s)"
  have "copy_in (Some x) i s = Some blocks"
    using block_set_bytes(2) [OF s] line_index_bound [OF i, of b] bs x
    by (auto simp: copy_in_def blocks_def bytes_put_patch split: option.split)
  note inn = this
  define r where "r = \<lparr>ins_index = i, ins_eviction = isValid ?old, ins_evict_info = evict_info ?old evict,
    ins_evict_buff = (if isValid ?old then line_bytes s i else None), ins_qbs_cost = cost\<rparr>"
  define s' where "s' = s\<lparr>cs_lines := (cs_lines s)[i := ?new], cs_blocks := blocks, cs_policy := p'\<rparr>"
  have ins: "cs_insert block (Some x) evict cntlr s info = Some (r, s', info')"
    using inn g i len out by (simp add: cs_insert_def Let_def r_def s'_def)
  have r: "ins_index r = i" "ins_eviction r = isValid ?old" "ins_evict_info r = evict_info ?old evict"
      "isValid ?old \<Longrightarrow> ins_evict_buff r = line_bytes s i"
    by (simp_all add: r_def)
  note s' = s'_def
  have "set_abs s (bi_tag block) = None"
    using fresh by (simp add: set_view_def set_abs_def)
  note wf' = set_wf_insert [OF wf n this ins]
  have live': "block_set fi n b s'"
    using wf' s l(1) by (auto simp: block_set_def s' blocks_def)
  have bytes: "line_bytes s' j = (if j = i then (if fi then Some x else None) else line_bytes s j)" if "j < n" for j
  proof (cases "cs_blocks s")
    case None
    then show ?thesis using s by (auto simp: s' line_bytes_def blocks_def block_set_def)
  next
    case (Some e)
    note e = block_set_bytes(2) [OF s Some]
    have "length (take b (drop (i * b) e)) = b"
      using e line_index_bound [OF i, of b] by simp
    then have "patch 0 x (take b (drop (i * b) e)) = x"
      using x by (simp add: patch_all)
    then show ?thesis
      using patch_lines [OF e i, of 0 x, OF _ that] x Some bs s
      by (auto simp: s' line_bytes_def blocks_def block_set_def)
  qed
  have view: "set_view s' = (\<lambda>tag. if tag = bi_tag block \<and> tag \<noteq> - 1 then Some (bi_cstate block, line_bytes s' i)
      else if tag = bi_tag ?old then None else set_view s tag)"
  proof -
    have "set_view s' = (\<lambda>tag. if tag = bi_tag ?new \<and> tag \<noteq> - 1 then Some (bi_cstate ?new, line_bytes s' i)
      else if tag = bi_tag ?old then None else set_view s tag)"
      by (rule set_view_update [OF d]) (use i len wf' bytes in \<open>simp_all add: set_wf_def s'\<close>)
    then show ?thesis by (simp only: clone_fields)
  qed
  have "set_view s' = (if ins_eviction r then (set_view s)(bi_tag (ins_evict_info r) := None) else set_view s)
      (bi_tag block \<mapsto> (bi_cstate block, if fi then Some x else None))"
  proof (cases "isValid ?old")
    case True
    then show ?thesis
      unfolding view using fresh(2) r evict_info_fields [OF True, of evict] bytes [OF i] by (auto simp: fun_eq_iff)
  next
    case False
    then have "bi_tag ?old = - 1" by (simp add: isValid_def)
    with False show ?thesis
      unfolding view using fresh(2) r bytes [OF i] by (auto simp: fun_eq_iff set_view_def)
  qed
  moreover have "(\<exists>l \<in> set (cs_lines s). isValid l \<and> bi_tag (ins_evict_info r) = bi_tag l) \<and>
      set_view s (bi_tag (ins_evict_info r)) = Some (bi_cstate (ins_evict_info r), ins_evict_buff r)" if "ins_eviction r"
  proof -
    have v: "isValid ?old" using that r by simp
    have "?old \<in> set (cs_lines s)" using i len by simp
    moreover have "set_view s (bi_tag ?old) = Some (bi_cstate ?old, line_bytes s i)"
      unfolding set_view_Some [OF d] using v i len by (auto simp: isValid_def)
    ultimately show ?thesis
      using v r evict_info_fields [OF v, of evict] by auto
  qed
  moreover have "l \<in> set (cs_lines s) \<or> bi_tag l = bi_tag block" if "l \<in> set (cs_lines s')" for l
    using that set_update_subset_insert [of "cs_lines s" i ?new] by (auto simp: s')
  ultimately show ?thesis
    using ins live' l(2) by blast
qed

section \<open>Caches\<close>

definition mask_set :: "CacheBase \<Rightarrow> IntPtr \<Rightarrow> nat" where
  "mask_set cb a = unat (ucast (drop_bit (cb_log_blocksize cb) a AND ucast (cb_num_sets cb - 1)) :: u32)"

text \<open>The line of a block is in the set that the address selects.\<close>

definition placed :: "Cache \<Rightarrow> bool" where
  "placed c \<longleftrightarrow> (\<forall>i < length (ca_sets c). \<forall>l \<in> set (cs_lines (ca_sets c ! i)). isValid l \<longrightarrow>
     drop_bit (cb_log_blocksize (ca_base c)) (tagToAddress (ca_base c) (bi_tag l)) = bi_tag l \<and>
     mask_set (ca_base c) (tagToAddress (ca_base c) (bi_tag l)) = i)"

definition block_live :: "bool \<Rightarrow> nat \<Rightarrow> Cache \<Rightarrow> bool" where
  "block_live fi k c \<longleftrightarrow> 0 < unat (cb_associativity (ca_base c)) \<and> cb_hash (ca_base c) = HASH_MASK \<and>
     cb_ahl (ca_base c) = None \<and> cb_num_sets (ca_base c) \<noteq> 0 \<and> length (ca_sets c) = unat (cb_num_sets (ca_base c)) \<and>
     cb_log_blocksize (ca_base c) = k \<and> 0 < k \<and> k < 32 \<and> cb_blocksize (ca_base c) = 2 ^ k \<and>
     list_all (block_set fi (unat (cb_associativity (ca_base c))) (2 ^ k)) (ca_sets c) \<and>
     info_live (unat (cb_associativity (ca_base c))) (ca_info c) \<and> placed c"

definition block_aligned :: "nat \<Rightarrow> IntPtr \<Rightarrow> bool" where
  "block_aligned k a \<longleftrightarrow> take_bit k a = 0"

definition block_at :: "Cache \<Rightarrow> IntPtr \<Rightarrow> (cstate \<times> u8 list option) option" where
  "block_at c a = (if block_aligned (cb_log_blocksize (ca_base c)) a
     then set_view (ca_sets c ! mask_set (ca_base c) a) (drop_bit (cb_log_blocksize (ca_base c)) a) else None)"

lemma block_addr_eq:
  assumes "block_aligned k a"
  shows "push_bit k (drop_bit k a) = a"
  using assms bits_ident [of k a] by (simp add: block_aligned_def)

lemma block_live_set:
  assumes "block_live fi k c"
  shows "mask_set (ca_base c) a < length (ca_sets c)"
    and "i < length (ca_sets c) \<Longrightarrow> block_set fi (unat (cb_associativity (ca_base c))) (2 ^ k) (ca_sets c ! i)"
proof -
  have "(ucast (drop_bit (cb_log_blocksize (ca_base c)) a AND ucast (cb_num_sets (ca_base c) - 1)) :: u32) < cb_num_sets (ca_base c)"
    using assms by (intro mask_range) (simp add: block_live_def)
  then show "mask_set (ca_base c) a < length (ca_sets c)"
    using assms by (simp add: block_live_def mask_set_def word_less_nat_alt)
  show "i < length (ca_sets c) \<Longrightarrow> block_set fi (unat (cb_associativity (ca_base c))) (2 ^ k) (ca_sets c ! i)"
    using assms by (simp add: block_live_def list_all_length)
qed

lemma block_live_split:
  assumes "block_live fi k c"
  shows "\<exists>i. splitAddress (ca_base c) a = Some (drop_bit k a, i) \<and> unat i = mask_set (ca_base c) a"
  using assms by (auto simp: block_live_def splitAddress_def set_index_of_def mask_set_def)

lemma block_tag_valid:
  assumes "block_live fi k c"
  shows "drop_bit k a \<noteq> (- 1 :: IntPtr)"
  using block_live_split [OF assms, of a] tag_not_invalid [of "ca_base c" a] assms
  by (auto simp: block_live_def)

text \<open>Replacing one set updates the map at the blocks of that set.\<close>

lemma block_live_update:
  assumes live: "block_live fi k c" and i: "i < length (ca_sets c)"
    and s': "block_set fi (unat (cb_associativity (ca_base c))) (2 ^ k) s'" and "info_live (unat (cb_associativity (ca_base c))) info'"
    and lines: "\<forall>l \<in> set (cs_lines s'). isValid l \<longrightarrow> (\<exists>m \<in> set (cs_lines (ca_sets c ! i)). isValid m \<and> bi_tag m = bi_tag l) \<or>
      (\<exists>a. mask_set (ca_base c) a = i \<and> bi_tag l = drop_bit k a)"
  shows "block_live fi k (c\<lparr>ca_sets := (ca_sets c)[i := s'], ca_info := info'\<rparr>)"
proof -
  have k: "cb_log_blocksize (ca_base c) = k" and pl: "placed c"
    using live by (simp_all add: block_live_def)
  have tag: "drop_bit k (push_bit k (drop_bit k a)) = drop_bit k a" for a :: IntPtr
    by (rule bit_eqI) (auto simp: bit_simps dest: bit_imp_le_length)
  have ms: "mask_set (ca_base c) (push_bit k (drop_bit k a)) = mask_set (ca_base c) a" for a
    by (simp add: mask_set_def k tag)
  have "placed (c\<lparr>ca_sets := (ca_sets c)[i := s'], ca_info := info'\<rparr>)"
    unfolding placed_def
  proof (intro allI impI ballI)
    fix j l
    assume j: "j < length (ca_sets (c\<lparr>ca_sets := (ca_sets c)[i := s'], ca_info := info'\<rparr>))"
      and l: "l \<in> set (cs_lines (ca_sets (c\<lparr>ca_sets := (ca_sets c)[i := s'], ca_info := info'\<rparr>) ! j))" and v: "isValid l"
    show "drop_bit (cb_log_blocksize (ca_base (c\<lparr>ca_sets := (ca_sets c)[i := s'], ca_info := info'\<rparr>)))
        (tagToAddress (ca_base (c\<lparr>ca_sets := (ca_sets c)[i := s'], ca_info := info'\<rparr>)) (bi_tag l)) = bi_tag l \<and>
      mask_set (ca_base (c\<lparr>ca_sets := (ca_sets c)[i := s'], ca_info := info'\<rparr>))
        (tagToAddress (ca_base (c\<lparr>ca_sets := (ca_sets c)[i := s'], ca_info := info'\<rparr>)) (bi_tag l)) = j"
    proof (cases "j = i")
      case True
      then have "l \<in> set (cs_lines s')" using l i by simp
      with lines v consider m where "m \<in> set (cs_lines (ca_sets c ! i))" "isValid m" "bi_tag m = bi_tag l"
        | a where "mask_set (ca_base c) a = i" "bi_tag l = drop_bit k a" by blast
      then show ?thesis
      proof cases
        case (1 m)
        then have "drop_bit (cb_log_blocksize (ca_base c)) (tagToAddress (ca_base c) (bi_tag m)) = bi_tag m"
          "mask_set (ca_base c) (tagToAddress (ca_base c) (bi_tag m)) = i"
          using pl i unfolding placed_def by blast+
        then show ?thesis using True 1(3) by simp
      next
        case (2 a)
        then show ?thesis using True tag ms by (simp add: tagToAddress_def k)
      qed
    next
      case False
      then show ?thesis using l j v pl unfolding placed_def by simp
    qed
  qed
  then show ?thesis
    using assms by (auto simp: block_live_def list_all_length nth_list_update)
qed

lemma block_at_update:
  assumes live: "block_live fi k c"
  shows "block_at (c\<lparr>ca_sets := (ca_sets c)[mask_set (ca_base c) a := s'], ca_info := info'\<rparr>) =
    (\<lambda>b. if block_aligned k b \<and> mask_set (ca_base c) b = mask_set (ca_base c) a then set_view s' (drop_bit k b) else block_at c b)"
  using assms block_live_set(1) [OF live, of a] by (auto simp: fun_eq_iff block_at_def block_live_def)

lemma block_at_upd:
  assumes live: "block_live fi k c" and a: "block_aligned k a"
    and view: "set_view s' = (set_view (ca_sets c ! mask_set (ca_base c) a))(drop_bit k a := x)"
  shows "block_at (c\<lparr>ca_sets := (ca_sets c)[mask_set (ca_base c) a := s'], ca_info := info'\<rparr>) = (block_at c)(a := x)"
proof
  fix b
  have k: "cb_log_blocksize (ca_base c) = k" using live by (simp add: block_live_def)
  have "b = a" if "block_aligned k b" "drop_bit k b = drop_bit k a"
    using block_addr_eq [OF a] block_addr_eq [OF that(1)] that(2) by metis
  then show "block_at (c\<lparr>ca_sets := (ca_sets c)[mask_set (ca_base c) a := s'], ca_info := info'\<rparr>) b = ((block_at c)(a := x)) b"
    unfolding block_at_update [OF live] view using a k by (auto simp: block_at_def)
qed

text \<open>An offset inside a block changes neither the tag nor the set.\<close>

lemma block_offset:
  fixes a :: IntPtr and off :: u32
  assumes a: "block_aligned k a" and off: "unat off < 2 ^ k" and k: "k < 32"
  shows "drop_bit k (a + ucast off) = drop_bit k a"
    and "ucast ((a + ucast off) AND ucast ((2 ^ k :: u32) - 1)) = off"
proof -
  have "take_bit k off = off"
    using off by (simp add: word_unat_eq_iff unsigned_take_bit_eq take_bit_nat_eq_self)
  then have low: "bit off n \<Longrightarrow> n < k" for n
    by (metis bit_take_bit_iff)
  have hi: "bit a n \<Longrightarrow> k \<le> n" for n
    using a by (metis block_aligned_def bit_take_bit_iff linorder_not_le bit_0_eq bot_apply bot_bool_def)
  have plus: "a + ucast off = a OR ucast off"
    using low hi by (intro disjunctive_add) (auto simp: bit_simps dest: leD)
  show "drop_bit k (a + ucast off) = drop_bit k a"
    unfolding plus using low by (intro bit_eqI) (fastforce simp: bit_simps)
  have "ucast ((2 ^ k :: u32) - 1) = (mask k :: u64)"
    unfolding mask_eq_exp_minus_1 [symmetric] using k by (intro bit_eqI) (auto simp: bit_simps)
  moreover have "(a OR ucast off) AND mask k = ucast off"
    using low hi by (intro bit_eqI) (fastforce simp: bit_simps)
  moreover have "ucast (ucast off :: u64) = off"
    by (rule bit_eqI) (auto simp: bit_simps)
  ultimately show "ucast ((a + ucast off) AND ucast ((2 ^ k :: u32) - 1)) = off"
    unfolding plus by simp
qed

lemma block_live_split_offset:
  fixes off :: u32
  assumes live: "block_live fi k c" and a: "block_aligned k a" and off: "unat off < 2 ^ k"
  shows "\<exists>i. splitAddress_offset (ca_base c) (a + ucast off) = Some (drop_bit k a, i, off) \<and> unat i = mask_set (ca_base c) a"
proof -
  have k: "k < 32" "cb_log_blocksize (ca_base c) = k" "cb_blocksize (ca_base c) = 2 ^ k"
    using live by (simp_all add: block_live_def)
  note o = block_offset [OF a off k(1)]
  obtain i where i: "splitAddress (ca_base c) (a + ucast off) = Some (drop_bit k (a + ucast off), i)"
    "unat i = mask_set (ca_base c) (a + ucast off)"
    using block_live_split [OF live] by blast
  have "mask_set (ca_base c) (a + ucast off) = mask_set (ca_base c) a"
    by (simp add: mask_set_def k o(1))
  then show ?thesis
    using i o k(3) by (simp add: splitAddress_offset_def Let_def)
qed

lemma block_found:
  assumes live: "block_live fi k c" and a: "block_aligned k a"
  shows "case cs_find (drop_bit k a) (ca_sets c ! mask_set (ca_base c) a) of
      None \<Rightarrow> block_at c a = None
    | Some w \<Rightarrow> w < unat (cb_associativity (ca_base c)) \<and> w < length (cs_lines (ca_sets c ! mask_set (ca_base c) a)) \<and>
        bi_tag (cs_lines (ca_sets c ! mask_set (ca_base c) a) ! w) = drop_bit k a \<and>
        block_at c a = Some (bi_cstate (cs_lines (ca_sets c ! mask_set (ca_base c) a) ! w), line_bytes (ca_sets c ! mask_set (ca_base c) a) w)"
  using block_live_set(2) [OF live block_live_set(1) [OF live, of a]] live a block_tag_valid [OF live, of a]
    cs_find_Some [of "drop_bit k a" "ca_sets c ! mask_set (ca_base c) a"]
  by (auto simp: block_at_def set_view_def block_live_def block_set_def set_wf_def split: option.split)

lemma peek_block:
  assumes live: "block_live fi k c" and a: "block_aligned k a"
  shows "\<exists>pos. peekSingleLine a c = Some pos \<and> (case pos of None \<Rightarrow> block_at c a = None
    | Some p \<Rightarrow> (\<exists>d. block_at c a = Some (bi_cstate (line_at p c), d)))"
proof -
  obtain i where i: "splitAddress (ca_base c) a = Some (drop_bit k a, i)" "unat i = mask_set (ca_base c) a"
    using block_live_split [OF live] by blast
  have len: "unat i < length (ca_sets c)" using block_live_set(1) [OF live] i(2) by simp
  show ?thesis
    using block_found [OF assms] i len
    by (auto simp: peekSingleLine_def line_at_def split: option.splits)
qed

text \<open>The pointer to a line stays valid under updates of the line.\<close>

lemma set_block:
  assumes live: "block_live fi k c" and a: "block_aligned k a" and p: "peekSingleLine a c = Some (Some p)"
    and d: "block_at c a = Some (st, d)" and f: "bi_tag (f (line_at p c)) = bi_tag (line_at p c)"
  shows "block_live fi k (update_line p f c) \<and> block_at (update_line p f c) = (block_at c)(a \<mapsto> (bi_cstate (f (line_at p c)), d)) \<and>
    peekSingleLine a (update_line p f c) = Some (Some p) \<and> line_at p (update_line p f c) = f (line_at p c)"
proof -
  let ?i = "mask_set (ca_base c) a" and ?tag = "drop_bit k a" and ?n = "unat (cb_associativity (ca_base c))"
  obtain i where i: "splitAddress (ca_base c) a = Some (?tag, i)" "unat i = ?i"
    using block_live_split [OF live] by blast
  note len = block_live_set(1) [OF live, of a]
  note bs = block_live_set(2) [OF live len]
  obtain w where w: "cs_find ?tag (ca_sets c ! ?i) = Some w" "p = (?i, w)"
    using p i len by (auto simp: peekSingleLine_def)
  have wl: "w < length (cs_lines (ca_sets c ! ?i))" "bi_tag (cs_lines (ca_sets c ! ?i) ! w) = ?tag"
    "d = line_bytes (ca_sets c ! ?i) w"
    using block_found [OF live a] w(1) d by auto
  have line: "line_at p c = cs_lines (ca_sets c ! ?i) ! w" by (simp add: line_at_def w(2))
  define s' where "s' = (ca_sets c ! ?i)\<lparr>cs_lines := (cs_lines (ca_sets c ! ?i))[w := f (line_at p c)]\<rparr>"
  have c': "update_line p f c = c\<lparr>ca_sets := (ca_sets c)[?i := s'], ca_info := ca_info c\<rparr>"
    by (simp add: update_line_def w(2) s'_def)
  have dist: "tags_distinct (cs_lines (ca_sets c ! ?i))" using bs by (simp add: block_set_def set_wf_def)
  have bytes: "line_bytes s' = line_bytes (ca_sets c ! ?i)" by (simp add: s'_def line_bytes_def fun_eq_iff)
  have lines: "cs_lines s' = (cs_lines (ca_sets c ! ?i))[w := f (line_at p c)]" by (simp add: s'_def)
  have v: "tags_distinct (cs_lines s')"
    "set_view s' = (set_view (ca_sets c ! ?i))(?tag \<mapsto> (bi_cstate (f (line_at p c)), d))"
    using set_view_same_tag [OF dist wl(1) lines] f line wl bytes block_tag_valid [OF live, of a] by auto
  have s': "block_set fi ?n (2 ^ k) s'"
    using bs v(1) by (auto simp: block_set_def set_wf_def s'_def)
  have "\<exists>m \<in> set (cs_lines (ca_sets c ! ?i)). isValid m \<and> bi_tag m = bi_tag l" if "l \<in> set (cs_lines s')" "isValid l" for l
  proof -
    have "l = f (line_at p c) \<or> l \<in> set (cs_lines (ca_sets c ! ?i))"
      using that(1) lines set_update_subset_insert [of "cs_lines (ca_sets c ! ?i)" w "f (line_at p c)"] by auto
    then show ?thesis
      using that(2) f line wl(1) nth_mem [OF wl(1)] by (auto simp: isValid_def)
  qed
  then have "block_live fi k (update_line p f c)"
    unfolding c' using live by (intro block_live_update [OF live len s']) (auto simp: block_live_def)
  moreover have "block_at (update_line p f c) = (block_at c)(a \<mapsto> (bi_cstate (f (line_at p c)), d))"
    unfolding c' by (rule block_at_upd [OF live a v(2)])
  moreover have "cs_find ?tag s' = Some w"
    using cs_find_iff [OF v(1), of ?tag] block_tag_valid [OF live, of a] wl lines f line by simp
  then have "peekSingleLine a (update_line p f c) = Some (Some p)"
    unfolding c' using i len w(2) by (simp add: peekSingleLine_def)
  moreover have "line_at p (update_line p f c) = f (line_at p c)"
    unfolding c' using len lines wl(1) by (simp add: line_at_def w(2))
  ultimately show ?thesis by blast
qed

text \<open>A change of one set that keeps its lines.\<close>

lemma keep_lines:
  assumes live: "block_live fi k c" and a: "block_aligned k a"
    and s': "block_set fi (unat (cb_associativity (ca_base c))) (2 ^ k) s'" and info: "info_live (unat (cb_associativity (ca_base c))) info'"
    and lines: "cs_lines s' = cs_lines (ca_sets c ! mask_set (ca_base c) a)"
    and w: "cs_find (drop_bit k a) (ca_sets c ! mask_set (ca_base c) a) = Some w"
    and bytes: "\<And>j. j < unat (cb_associativity (ca_base c)) \<Longrightarrow> j \<noteq> w \<Longrightarrow> line_bytes s' j = line_bytes (ca_sets c ! mask_set (ca_base c) a) j"
  shows "block_live fi k (c\<lparr>ca_sets := (ca_sets c)[mask_set (ca_base c) a := s'], ca_info := info'\<rparr>) \<and>
    (\<exists>st d. block_at c a = Some (st, d) \<and>
      block_at (c\<lparr>ca_sets := (ca_sets c)[mask_set (ca_base c) a := s'], ca_info := info'\<rparr>) = (block_at c)(a \<mapsto> (st, line_bytes s' w)))"
proof -
  let ?s = "ca_sets c ! mask_set (ca_base c) a"
  note len = block_live_set(1) [OF live, of a]
  have f: "w < length (cs_lines ?s)" "bi_tag (cs_lines ?s ! w) = drop_bit k a"
    "block_at c a = Some (bi_cstate (cs_lines ?s ! w), line_bytes ?s w)"
    using block_found [OF live a] w by auto
  have d: "tags_distinct (cs_lines ?s)" "length (cs_lines ?s) = unat (cb_associativity (ca_base c))"
    using block_live_set(2) [OF live len] by (simp_all add: block_set_def set_wf_def)
  have upd: "cs_lines s' = (cs_lines ?s)[w := cs_lines ?s ! w]" using lines by simp
  have "set_view s' = (set_view ?s)(drop_bit k a \<mapsto> (bi_cstate (cs_lines ?s ! w), line_bytes s' w))"
    using set_view_same_tag [OF d(1) f(1) upd] f(2) block_tag_valid [OF live, of a] bytes d(2) by auto
  from block_at_upd [OF live a this] f(3)
  have "\<exists>st d. block_at c a = Some (st, d) \<and>
      block_at (c\<lparr>ca_sets := (ca_sets c)[mask_set (ca_base c) a := s'], ca_info := info'\<rparr>) = (block_at c)(a \<mapsto> (st, line_bytes s' w))"
    by simp
  moreover have "block_live fi k (c\<lparr>ca_sets := (ca_sets c)[mask_set (ca_base c) a := s'], ca_info := info'\<rparr>)"
    by (intro block_live_update [OF live len s' info]) (simp add: lines, fast)
  ultimately show ?thesis by blast
qed

text \<open>The pointer to a line depends only on the tags.\<close>

lemma peek_keep:
  assumes "cs_lines s' = cs_lines (ca_sets c ! i)"
  shows "peekSingleLine b (c\<lparr>ca_sets := (ca_sets c)[i := s'], ca_info := info'\<rparr>) = peekSingleLine b c"
proof -
  have "cs_find tag ((ca_sets c)[i := s'] ! j) = cs_find tag (ca_sets c ! j)" if "j < length (ca_sets c)" for tag j
    using assms that by (cases "j = i") (simp_all add: cs_find_def)
  then show ?thesis
    by (cases "splitAddress (ca_base c) b") (auto simp: peekSingleLine_def nth_opt_def)
qed

lemma load_block:
  fixes off :: u32
  assumes live: "block_live fi k c" and a: "block_aligned k a" and off: "unat off < 2 ^ k" "unat off + n \<le> 2 ^ k"
    and at: "block_at c a = Some (st, d)"
  shows "\<exists>p c'. accessSingleLine (a + ucast off) LOAD buff n upd c = Some (Some p, map_option (\<lambda>d. take n (drop (unat off) d)) d, c') \<and>
    block_live fi k c' \<and> block_at c' = block_at c \<and> (\<forall>b. peekSingleLine b c' = peekSingleLine b c)"
proof -
  let ?i = "mask_set (ca_base c) a" and ?n = "unat (cb_associativity (ca_base c))"
  obtain i where i: "splitAddress_offset (ca_base c) (a + ucast off) = Some (drop_bit k a, i, off)" "unat i = ?i"
    using block_live_split_offset [OF live a off(1)] by blast
  note len = block_live_set(1) [OF live, of a]
  obtain w where w: "cs_find (drop_bit k a) (ca_sets c ! ?i) = Some w" "w < ?n" "d = line_bytes (ca_sets c ! ?i) w"
    using block_found [OF live a] at by (auto split: option.splits)
  have info: "info_live ?n (ca_info c)" using live by (simp add: block_live_def)
  obtain s' info' where r: "read_line w (unat off) n upd (ca_sets c ! ?i) (ca_info c) = Some (map_option (\<lambda>d. take n (drop (unat off) d)) d, s', info')"
    and s': "block_set fi ?n (2 ^ k) s'" "info_live ?n info'" "cs_lines s' = cs_lines (ca_sets c ! ?i)" "cs_blocks s' = cs_blocks (ca_sets c ! ?i)"
    using block_set_read [OF block_live_set(2) [OF live len] w(2) info off(2), of upd] w(3) by blast
  have bytes: "line_bytes s' j = line_bytes (ca_sets c ! ?i) j" for j
    using block_set_bytes(1) [OF s'(1)] block_set_bytes(1) [OF block_live_set(2) [OF live len]] s'(4) by simp
  have "accessSingleLine (a + ucast off) LOAD buff n upd c = Some (Some (?i, w), map_option (\<lambda>d. take n (drop (unat off) d)) d,
      c\<lparr>ca_sets := (ca_sets c)[?i := s'], ca_info := info'\<rparr>)"
    using i len w(1) r by (simp add: accessSingleLine_def)
  moreover have "(block_at c)(a \<mapsto> (st, line_bytes s' w)) = block_at c"
    using at w(3) bytes by (simp add: fun_upd_idem)
  then have "block_live fi k (c\<lparr>ca_sets := (ca_sets c)[?i := s'], ca_info := info'\<rparr>) \<and>
      block_at (c\<lparr>ca_sets := (ca_sets c)[?i := s'], ca_info := info'\<rparr>) = block_at c"
    using keep_lines [OF live a s'(1-3) w(1) bytes] at by auto
  ultimately show ?thesis using peek_keep [where c = c and i = ?i, OF s'(3)] by blast
qed

lemma store_block:
  fixes off :: u32
  assumes live: "block_live fi k c" and a: "block_aligned k a" and off: "unat off < 2 ^ k" "unat off + length x \<le> 2 ^ k"
    and at: "block_at c a = Some (st, d)"
  shows "\<exists>p c'. accessSingleLine (a + ucast off) STORE (Some x) (length x) upd c = Some (Some p, None, c') \<and>
    block_live fi k c' \<and> block_at c' = (block_at c)(a \<mapsto> (st, map_option (patch (unat off) x) d)) \<and> bi_cstate (line_at p c') = st"
proof -
  let ?i = "mask_set (ca_base c) a" and ?n = "unat (cb_associativity (ca_base c))"
  obtain i where i: "splitAddress_offset (ca_base c) (a + ucast off) = Some (drop_bit k a, i, off)" "unat i = ?i"
    using block_live_split_offset [OF live a off(1)] by blast
  note len = block_live_set(1) [OF live, of a]
  obtain w where w: "cs_find (drop_bit k a) (ca_sets c ! ?i) = Some w" "w < ?n" "d = line_bytes (ca_sets c ! ?i) w"
      "st = bi_cstate (cs_lines (ca_sets c ! ?i) ! w)"
    using block_found [OF live a] at by (auto split: option.splits)
  have info: "info_live ?n (ca_info c)" using live by (simp add: block_live_def)
  obtain s' info' where r: "write_line w (unat off) (Some x) (length x) upd (ca_sets c ! ?i) (ca_info c) = Some (s', info')"
    and s': "block_set fi ?n (2 ^ k) s'" "info_live ?n info'" "cs_lines s' = cs_lines (ca_sets c ! ?i)"
    and bytes: "\<forall>j < ?n. line_bytes s' j = (if j = w then map_option (patch (unat off) x) (line_bytes (ca_sets c ! ?i) w) else line_bytes (ca_sets c ! ?i) j)"
    using block_set_write [OF block_live_set(2) [OF live len] w(2) info off(2), of upd] by blast
  have acc: "accessSingleLine (a + ucast off) STORE (Some x) (length x) upd c = Some (Some (?i, w), None,
      c\<lparr>ca_sets := (ca_sets c)[?i := s'], ca_info := info'\<rparr>)"
    using i len w(1) r by (simp add: accessSingleLine_def)
  have "line_bytes s' j = line_bytes (ca_sets c ! ?i) j" if "j < ?n" "j \<noteq> w" for j
    using bytes that by simp
  then have "block_live fi k (c\<lparr>ca_sets := (ca_sets c)[?i := s'], ca_info := info'\<rparr>) \<and>
      block_at (c\<lparr>ca_sets := (ca_sets c)[?i := s'], ca_info := info'\<rparr>) = (block_at c)(a \<mapsto> (st, map_option (patch (unat off) x) d))"
    using keep_lines [OF live a s' w(1)] at bytes w(2,3) by auto
  moreover have "bi_cstate (line_at (?i, w) (c\<lparr>ca_sets := (ca_sets c)[?i := s'], ca_info := info'\<rparr>)) = st"
    using len s'(3) w(4) by (simp add: line_at_def)
  ultimately show ?thesis
    using acc by blast
qed

lemma invalidate_block:
  assumes live: "block_live fi k c" and a: "block_aligned k a"
  shows "\<exists>found c'. invalidateSingleLine a c = Some (found, c') \<and> block_live fi k c' \<and> block_at c' = (block_at c)(a := None)"
proof -
  let ?i = "mask_set (ca_base c) a" and ?n = "unat (cb_associativity (ca_base c))"
  let ?s = "ca_sets c ! ?i" and ?t = "snd (cs_invalidate (drop_bit k a) (ca_sets c ! ?i))"
  obtain i where i: "splitAddress (ca_base c) a = Some (drop_bit k a, i)" "unat i = ?i"
    using block_live_split [OF live] by blast
  note len = block_live_set(1) [OF live, of a]
  note inv = block_set_invalidate [OF block_live_set(2) [OF live len] block_tag_valid [OF live, of a]]
  have "i < cb_num_sets (ca_base c)"
    using len i(2) live by (simp add: block_live_def word_less_nat_alt)
  then have c': "invalidateSingleLine a c = Some (fst (cs_invalidate (drop_bit k a) ?s),
      c\<lparr>ca_sets := (ca_sets c)[?i := ?t], ca_info := ca_info c\<rparr>)"
    using i len by (simp add: invalidateSingleLine_def split: prod.split)
  have "isValid l \<longrightarrow> (\<exists>m \<in> set (cs_lines ?s). isValid m \<and> bi_tag m = bi_tag l)" if l: "l \<in> set (cs_lines ?t)" for l
  proof (cases "cs_find (drop_bit k a) ?s")
    case None
    then show ?thesis using l by (auto simp: cs_invalidate_def)
  next
    case (Some w)
    then have "l \<in> set ((cs_lines ?s)[w := bi_invalidate (cs_lines ?s ! w)])"
      using l by (simp add: cs_invalidate_def)
    then have "l = bi_invalidate (cs_lines ?s ! w) \<or> l \<in> set (cs_lines ?s)"
      using set_update_subset_insert [of "cs_lines ?s" w "bi_invalidate (cs_lines ?s ! w)"] by auto
    then show ?thesis by (auto simp: isValid_def)
  qed
  then have "block_live fi k (c\<lparr>ca_sets := (ca_sets c)[?i := ?t], ca_info := ca_info c\<rparr>)"
    using inv live by (intro block_live_update [OF live len]) (auto simp: block_live_def)
  then show ?thesis
    using c' block_at_upd [OF live a conjunct2 [OF inv]] by blast
qed

text \<open>The victim of an insertion was present, with the state and the data that are reported.\<close>

lemma insert_block:
  assumes live: "block_live fi k c" and a: "block_aligned k a" and fresh: "block_at c a = None" and x: "length x = 2 ^ k"
  shows "\<exists>r v c'. insertSingleLine a (Some x) evict cntlr c = Some (r, v, c') \<and> block_live fi k c' \<and>
    block_at c' = (if ins_eviction r then (block_at c)(v := None) else block_at c)(a \<mapsto> (INVALID, if fi then Some x else None)) \<and>
    (ins_eviction r \<longrightarrow> block_aligned k v \<and> v \<noteq> a \<and> block_at c v = Some (bi_cstate (ins_evict_info r), ins_evict_buff r))"
proof -
  let ?b = "ca_base c" and ?i = "mask_set (ca_base c) a" and ?n = "unat (cb_associativity (ca_base c))"
  let ?s = "ca_sets c ! ?i" and ?block = "(CacheBlockInfo_create (ca_type c))\<lparr>bi_tag := drop_bit k a\<rparr>"
  have k: "cb_log_blocksize ?b = k" "0 < ?n" and info: "info_live ?n (ca_info c)" and pl: "placed c"
    using live by (simp_all add: block_live_def)
  obtain i where i: "splitAddress ?b a = Some (drop_bit k a, i)" "unat i = ?i"
    using block_live_split [OF live] by blast
  note len = block_live_set(1) [OF live, of a]
  have new: "set_view ?s (bi_tag ?block) = None" "bi_tag ?block \<noteq> - 1"
    using fresh a k block_tag_valid [OF live, of a] by (simp_all add: block_at_def)
  obtain r s' info' where ins: "cs_insert ?block (Some x) evict cntlr ?s (ca_info c) = Some (r, s', info')"
    and s': "block_set fi ?n (2 ^ k) s'" "info_live ?n info'"
    and lines: "\<forall>l \<in> set (cs_lines s'). l \<in> set (cs_lines ?s) \<or> bi_tag l = drop_bit k a"
    and view: "set_view s' = (if ins_eviction r then (set_view ?s)(bi_tag (ins_evict_info r) := None) else set_view ?s)
      (drop_bit k a \<mapsto> (INVALID, if fi then Some x else None))"
    and ev: "ins_eviction r \<longrightarrow> (\<exists>l \<in> set (cs_lines ?s). isValid l \<and> bi_tag (ins_evict_info r) = bi_tag l) \<and>
      set_view ?s (bi_tag (ins_evict_info r)) = Some (bi_cstate (ins_evict_info r), ins_evict_buff r)"
    using block_set_insert [OF block_live_set(2) [OF live len] k(2) info new x, of evict cntlr]
    by (auto simp: CacheBlockInfo_create_def CacheBlockInfo_new_def)
  let ?v = "tagToAddress ?b (bi_tag (ins_evict_info r))"
  let ?c = "c\<lparr>ca_sets := (ca_sets c)[?i := s'], ca_info := info'\<rparr>"
  have "insertSingleLine a (Some x) evict cntlr c = Some (r, ?v, ?c)"
    using i len ins by (simp add: insertSingleLine_def Let_def)
  moreover have "block_live fi k ?c"
  proof (rule block_live_update [OF live len s'], intro ballI impI)
    fix l assume "l \<in> set (cs_lines s')" "isValid l"
    then show "(\<exists>m \<in> set (cs_lines ?s). isValid m \<and> bi_tag m = bi_tag l) \<or> (\<exists>b. mask_set ?b b = ?i \<and> bi_tag l = drop_bit k b)"
      using lines by blast
  qed
  moreover have v: "block_aligned k ?v \<and> drop_bit k ?v = bi_tag (ins_evict_info r) \<and> mask_set ?b ?v = ?i" if "ins_eviction r"
    using ev that pl len k unfolding placed_def
    by (auto simp: block_aligned_def tagToAddress_def take_bit_push_bit)
  have "block_at ?c = (if ins_eviction r then (block_at c)(?v := None) else block_at c)(a \<mapsto> (INVALID, if fi then Some x else None))"
  proof
    fix b
    have same: "b = b'" if "block_aligned k b" "block_aligned k b'" "drop_bit k b = drop_bit k b'" for b'
      using block_addr_eq [OF that(1)] block_addr_eq [OF that(2)] that(3) by metis
    show "block_at ?c b = ((if ins_eviction r then (block_at c)(?v := None) else block_at c)(a \<mapsto> (INVALID, if fi then Some x else None))) b"
      unfolding block_at_update [OF live] view using a k v same [of a] same [of ?v] by (auto simp: block_at_def)
  qed
  moreover have "ins_eviction r \<longrightarrow> block_aligned k ?v \<and> ?v \<noteq> a \<and> block_at c ?v = Some (bi_cstate (ins_evict_info r), ins_evict_buff r)"
  proof
    assume e: "ins_eviction r"
    then have "block_at c ?v = Some (bi_cstate (ins_evict_info r), ins_evict_buff r)"
      using v [OF e] ev k by (simp add: block_at_def)
    then show "block_aligned k ?v \<and> ?v \<noteq> a \<and> block_at c ?v = Some (bi_cstate (ins_evict_info r), ins_evict_buff r)"
      using v [OF e] fresh by auto
  qed
  ultimately show ?thesis by blast
qed

section \<open>Construction\<close>

lemma Cache_new_block:
  assumes "num_sets \<noteq> 0" and "isPower2 num_sets" and "associativity \<noteq> 0" and "unat associativity \<le> 256"
    and k: "0 < k" "k < 32" and "0 < cfg_srrip_bits cfg"
  shows "\<exists>c. Cache_new cfg num_sets associativity (2 ^ k) ''lru'' t HASH_MASK None = Some c \<and>
    block_live (cfg_fault_injection cfg) k c \<and> block_at c = Map.empty"
proof -
  have "\<exists>c. Cache_new (cfg\<lparr>cfg_fault_injection := False\<rparr>) num_sets associativity (2 ^ k) ''lru'' t HASH_MASK None = Some c"
    using Cache_new_live [OF assms(1-4), of "2 ^ k" "cfg\<lparr>cfg_fault_injection := False\<rparr>" t] k assms(7)
    by (auto simp: unat_exp self_le_power)
  then obtain base where base: "CacheBase_new num_sets associativity (2 ^ k) HASH_MASK None = Some base"
    by (auto simp: Cache_new_def abort_simps)
  have bf: "cb_hash base = HASH_MASK" "cb_ahl base = None" "cb_num_sets base = num_sets"
    "cb_associativity base = associativity" "cb_blocksize base = 2 ^ k" "cb_log_blocksize base = k"
    using base floorLog2_power [OF k(2)] by (auto simp: CacheBase_new_def abort_simps)
  let ?p = "PolicyLRU (CacheSetLRU_new (unat associativity) 1)"
  let ?s = "CacheSet_new (cfg_fault_injection cfg) t (unat associativity) (2 ^ k) ?p"
  obtain c where c: "Cache_new cfg num_sets associativity (2 ^ k) ''lru'' t HASH_MASK None = Some c"
    and cf: "ca_base c = base" "ca_sets c = replicate (unat num_sets) ?s" "ca_info c = CacheSetInfoLRU_new (unat associativity) 1"
    using base k(2) by (simp add: Cache_new_def parsePolicyType_def getNumQBSAttempts_def unat_exp)
  have two: "2 \<le> unat (2 ^ k :: u32)" using k by (simp add: unat_exp self_le_power)
  have "cache_wf c" using Cache_new_wf [OF c assms(3,4) two assms(7)] by blast
  then have wf: "set_wf (unat associativity) ?s"
    using assms(1) by (auto simp: cache_wf_def cf bf list_all_iff unat_eq_zero)
  have empty: "\<forall>l \<in> set (cs_lines ?s). bi_tag l = - 1" by (simp add: CacheSet_new_def CacheBlockInfo_create_def CacheBlockInfo_new_def)
  have "block_set (cfg_fault_injection cfg) (unat associativity) (2 ^ k) ?s"
    using wf by (simp add: block_set_def CacheSet_new_def lru_one_attempt_def CacheSetLRU_new_def)
  then have live: "block_live (cfg_fault_injection cfg) k c"
    using assms(1,3) k empty by (auto simp: block_live_def cf bf unat_gt_0 list_all_length info_live_def CacheSetInfoLRU_new_def placed_def isValid_def)
  have "block_at c a = None" for a
  proof -
    have "set_view ?s tag = None" for tag using empty by (auto simp: set_view_None)
    moreover have "mask_set (ca_base c) a < unat num_sets"
      using block_live_set(1) [OF live, of a] by (simp add: cf)
    ultimately show ?thesis by (simp add: block_at_def cf)
  qed
  then show ?thesis using c live by (auto simp: fun_eq_iff)
qed

end
