(* ===== verification/HierarchyInv.thy ===== *)
theory HierarchyInv
  imports Hierarchy BlockStore
begin

text \<open>
  The hierarchy of caches as a tree of block stores. The state of a hierarchy is viewed as the map from caches and
  block addresses to the coherence state and the data, the eviction buffers, and the data in the DRAM. Every operation of
  the controllers on a well-formed hierarchy with direct access to the DRAM returns, and its effect on this view is
  given.
\<close>

section \<open>The tree of caches\<close>

definition h_par :: "hier \<Rightarrow> nat \<Rightarrow> nat option" where
  "h_par s x = (case List.find (\<lambda>n. cc_master (h_cntlrs s ! n) = x) [0..<length (h_cntlrs s)] of
     None \<Rightarrow> None
   | Some n \<Rightarrow> map_option (\<lambda>k. cc_master (h_cntlrs s ! k)) (cc_next (h_cntlrs s ! n)))"

definition below :: "hier \<Rightarrow> nat \<Rightarrow> nat \<Rightarrow> bool" where
  "below s = (\<lambda>x y. h_par s x = Some y)\<^sup>*\<^sup>*"

text \<open>
  A well-formed hierarchy: the next level of a controller belongs to the parent of its cache, the previous-level
  controllers of a cache are exactly the masters of its children, levels increase towards the last level, and the
  last level has direct access to the DRAM. All caches are write-back and coherent and have one block size, and the
  dead block predictor, which only counts and may leave its arrays, is off.
\<close>

definition cntlr_ok :: "nat \<Rightarrow> hier \<Rightarrow> nat \<Rightarrow> bool" where
  "cntlr_ok k s n \<longleftrightarrow>
     (let cc = h_cntlrs s ! n in
      cc_master cc < length (h_masters s) \<and> cc_coherent cc \<and> \<not> cc_perfect cc \<and> \<not> cc_passthrough cc \<and> \<not> cc_writethrough cc \<and>
      (cc_mem_component cc = L3_CACHE \<longrightarrow> \<not> cc_cbpred cc) \<and> cc_block_size cc = 2 ^ k \<and> 2 \<le> cc_mem_component cc \<and> cc_mem_component cc \<noteq> HW_MISS \<and>
      cc_mem_component cc < length (h_cntlrs s) + 2 \<and>
      h_par s (cc_master cc) = map_option (\<lambda>j. cc_master (h_cntlrs s ! j)) (cc_next cc) \<and>
      list_all (\<lambda>n'. cc_master (h_cntlrs s ! n') = cc_master cc \<longrightarrow> cc_mem_component (h_cntlrs s ! n') = cc_mem_component cc)
        [0..<length (h_cntlrs s)] \<and>
      (case cc_next cc of
         None \<Rightarrow> cm_dram_cntlr (h_masters s ! cc_master cc)
       | Some j \<Rightarrow> j < length (h_cntlrs s) \<and> cc_mem_component cc < cc_mem_component (h_cntlrs s ! j) \<and>
           list_ex (\<lambda>p. cc_master (h_cntlrs s ! p) = cc_master cc) (cm_prev (h_masters s ! cc_master (h_cntlrs s ! j)))))"

definition master_ok :: "hier \<Rightarrow> nat \<Rightarrow> bool" where
  "master_ok s x \<longleftrightarrow>
     list_all (\<lambda>p. p < length (h_cntlrs s) \<and> h_par s (cc_master (h_cntlrs s ! p)) = Some x) (cm_prev (h_masters s ! x)) \<and>
     distinct (map (\<lambda>p. cc_master (h_cntlrs s ! p)) (cm_prev (h_masters s ! x)))"

definition topology :: "nat \<Rightarrow> hier \<Rightarrow> bool" where
  "topology k s \<longleftrightarrow> list_all (cntlr_ok k s) [0..<length (h_cntlrs s)] \<and> list_all (master_ok s) [0..<length (h_masters s)]"

text \<open>What the operations never change.\<close>

definition fixed :: "hier \<Rightarrow> CacheCntlr list \<times> nat list list \<times> bool list \<times> u8 list \<times> bool \<times> u32" where
  "fixed s = (h_cntlrs s, map cm_prev (h_masters s), map cm_dram_cntlr (h_masters s), h_uninit s,
     dr_fault_injection (h_dram s), dr_block_size (h_dram s))"

lemma fixed_cntlrs: "fixed s' = fixed s \<Longrightarrow> h_cntlrs s' = h_cntlrs s"
  by (simp add: fixed_def)

lemma fixed_masters:
  assumes "fixed s' = fixed s"
  shows "length (h_masters s') = length (h_masters s)"
    and "x < length (h_masters s) \<Longrightarrow> cm_prev (h_masters s' ! x) = cm_prev (h_masters s ! x)"
    and "x < length (h_masters s) \<Longrightarrow> cm_dram_cntlr (h_masters s' ! x) = cm_dram_cntlr (h_masters s ! x)"
proof -
  have p: "map cm_prev (h_masters s') = map cm_prev (h_masters s)" "map cm_dram_cntlr (h_masters s') = map cm_dram_cntlr (h_masters s)"
    using assms by (simp_all add: fixed_def)
  show l: "length (h_masters s') = length (h_masters s)"
    using p(1) by (metis length_map)
  show "x < length (h_masters s) \<Longrightarrow> cm_prev (h_masters s' ! x) = cm_prev (h_masters s ! x)"
    using p(1) l by (metis nth_map)
  show "x < length (h_masters s) \<Longrightarrow> cm_dram_cntlr (h_masters s' ! x) = cm_dram_cntlr (h_masters s ! x)"
    using p(2) l by (metis nth_map)
qed

lemma fixed_par:
  assumes "fixed s' = fixed s"
  shows "h_par s' = h_par s"
  unfolding fun_eq_iff h_par_def fixed_cntlrs [OF assms] by simp

lemma fixed_below: "fixed s' = fixed s \<Longrightarrow> below s' = below s"
  unfolding below_def by (drule fixed_par) simp

lemma topology_cntlr:
  assumes "topology k s" and "n < length (h_cntlrs s)"
  shows "cntlr_ok k s n"
  using assms by (simp add: topology_def list_all_iff)

lemma topology_fixed:
  assumes "topology k s" and f: "fixed s' = fixed s"
  shows "topology k s'"
proof -
  have "cntlr_ok k s' n" if "n < length (h_cntlrs s)" for n
  proof -
    have ok: "cntlr_ok k s n" using topology_cntlr [OF assms(1) that] .
    show ?thesis
    proof (cases "cc_next (h_cntlrs s ! n)")
      case None
      then show ?thesis
        using ok by (simp add: cntlr_ok_def Let_def fixed_cntlrs [OF f] fixed_par [OF f] fixed_masters [OF f])
    next
      case (Some j)
      then have "j < length (h_cntlrs s)" using ok by (simp add: cntlr_ok_def Let_def)
      from topology_cntlr [OF assms(1) this] have "cc_master (h_cntlrs s ! j) < length (h_masters s)"
        by (simp add: cntlr_ok_def Let_def)
      then show ?thesis
        using ok Some by (simp add: cntlr_ok_def Let_def fixed_cntlrs [OF f] fixed_par [OF f] fixed_masters [OF f])
    qed
  qed
  moreover have "master_ok s' x" if "x < length (h_masters s)" for x
    using assms(1) that by (simp add: topology_def list_all_iff master_ok_def fixed_cntlrs [OF f] fixed_par [OF f] fixed_masters [OF f])
  ultimately show ?thesis
    by (simp add: topology_def list_all_iff fixed_cntlrs [OF f] fixed_masters [OF f])
qed

abbreviation (input) mst :: "hier \<Rightarrow> nat \<Rightarrow> nat" where
  "mst s n \<equiv> cc_master (h_cntlrs s ! n)"

abbreviation (input) lev :: "hier \<Rightarrow> nat \<Rightarrow> nat" where
  "lev s n \<equiv> cc_mem_component (h_cntlrs s ! n)"

lemma topology_facts:
  assumes "topology k s" and "n < length (h_cntlrs s)"
  shows "mst s n < length (h_masters s)" "cc_coherent (h_cntlrs s ! n)" "\<not> cc_perfect (h_cntlrs s ! n)"
    "\<not> cc_passthrough (h_cntlrs s ! n)" "\<not> cc_writethrough (h_cntlrs s ! n)" "lev s n = L3_CACHE \<longrightarrow> \<not> cc_cbpred (h_cntlrs s ! n)"
    "cc_block_size (h_cntlrs s ! n) = 2 ^ k" "2 \<le> lev s n" "lev s n \<noteq> HW_MISS" "lev s n < length (h_cntlrs s) + 2"
    "h_par s (mst s n) = map_option (mst s) (cc_next (h_cntlrs s ! n))"
  using topology_cntlr [OF assms] by (simp_all add: cntlr_ok_def Let_def)

lemma topology_next:
  assumes "topology k s" and "n < length (h_cntlrs s)" and "cc_next (h_cntlrs s ! n) = Some j"
  shows "j < length (h_cntlrs s)" "lev s n < lev s j" "h_par s (mst s n) = Some (mst s j)"
    "\<exists>p \<in> set (cm_prev (h_masters s ! mst s j)). mst s p = mst s n"
  using topology_cntlr [OF assms(1,2)] assms(3) by (auto simp: cntlr_ok_def Let_def list_ex_iff)

lemma topology_root:
  assumes "topology k s" and "n < length (h_cntlrs s)" and "cc_next (h_cntlrs s ! n) = None"
  shows "cm_dram_cntlr (h_masters s ! mst s n)" "h_par s (mst s n) = None"
  using topology_cntlr [OF assms(1,2)] assms(3) by (auto simp: cntlr_ok_def Let_def)

lemma topology_prev:
  assumes "topology k s" and "x < length (h_masters s)" and "p \<in> set (cm_prev (h_masters s ! x))"
  shows "p < length (h_cntlrs s)" "h_par s (mst s p) = Some x"
  using assms by (auto simp: topology_def list_all_iff master_ok_def)

lemma topology_distinct:
  assumes "topology k s" and "x < length (h_masters s)"
  shows "distinct (map (mst s) (cm_prev (h_masters s ! x)))"
  using assms by (auto simp: topology_def list_all_iff master_ok_def)

lemma topology_level:
  assumes "topology k s" and "n < length (h_cntlrs s)" and "n' < length (h_cntlrs s)" and "mst s n' = mst s n"
  shows "lev s n' = lev s n"
  using topology_cntlr [OF assms(1,2)] assms(3,4) by (auto simp: cntlr_ok_def Let_def list_all_iff)

text \<open>A cache with a parent has a controller, whose next level belongs to the parent.\<close>

lemma par_cntlr:
  assumes "h_par s x = Some y"
  obtains n j where "n < length (h_cntlrs s)" "mst s n = x" "cc_next (h_cntlrs s ! n) = Some j" "mst s j = y"
  using assms by (auto simp: h_par_def find_Some_iff split: option.splits)

lemma prev_of_child:
  assumes "topology k s" and "h_par s x = Some y"
  shows "y < length (h_masters s) \<and> x < length (h_masters s) \<and> (\<exists>p \<in> set (cm_prev (h_masters s ! y)). mst s p = x)"
proof -
  obtain n j where n: "n < length (h_cntlrs s)" "mst s n = x" "cc_next (h_cntlrs s ! n) = Some j" "mst s j = y"
    using par_cntlr [OF assms(2)] .
  note t = topology_next [OF assms(1) n(1,3)]
  show ?thesis
    using t(4) topology_facts(1) [OF assms(1) n(1)] topology_facts(1) [OF assms(1) t(1)] n by auto
qed

definition rank :: "hier \<Rightarrow> nat \<Rightarrow> nat" where
  "rank s x = (case List.find (\<lambda>n. cc_master (h_cntlrs s ! n) = x) [0..<length (h_cntlrs s)] of
     None \<Rightarrow> 0 | Some n \<Rightarrow> lev s n)"

lemma rank_mst:
  assumes "topology k s" and "n < length (h_cntlrs s)"
  shows "rank s (mst s n) = lev s n"
proof -
  obtain n' where n': "List.find (\<lambda>i. cc_master (h_cntlrs s ! i) = mst s n) [0..<length (h_cntlrs s)] = Some n'"
    using assms(2) by (cases "List.find (\<lambda>i. cc_master (h_cntlrs s ! i) = mst s n) [0..<length (h_cntlrs s)]")
      (auto simp: find_None_iff)
  then have "n' < length (h_cntlrs s)" "mst s n' = mst s n" by (auto simp: find_Some_iff)
  then show ?thesis
    using topology_level [OF assms, of n'] n' by (simp add: rank_def)
qed

lemma rank_par:
  assumes "topology k s" and "h_par s x = Some y"
  shows "rank s x < rank s y"
proof -
  obtain n j where n: "n < length (h_cntlrs s)" "mst s n = x" "cc_next (h_cntlrs s ! n) = Some j" "mst s j = y"
    using par_cntlr [OF assms(2)] .
  note t = topology_next [OF assms(1) n(1,3)]
  show ?thesis
    using t rank_mst [OF assms(1) n(1)] rank_mst [OF assms(1) t(1)] n by simp
qed

lemma below_rank:
  assumes "topology k s" and "below s x y"
  shows "x = y \<or> rank s x < rank s y"
  using assms(2) unfolding below_def
  by (induction rule: rtranclp_induct) (auto dest: rank_par [OF assms(1)])

lemma below_refl [simp]: "below s x x"
  by (simp add: below_def)

lemma below_step: "h_par s x = Some y \<Longrightarrow> below s y z \<Longrightarrow> below s x z"
  by (auto simp: below_def intro: converse_rtranclp_into_rtranclp)

lemma below_par: "below s x y \<Longrightarrow> h_par s y = Some z \<Longrightarrow> below s x z"
  by (auto simp: below_def intro: rtranclp.rtrancl_into_rtrancl)

lemma below_cases:
  assumes "below s x y"
  obtains "x = y" | z where "h_par s x = Some z" "below s z y"
  using assms unfolding below_def by (auto elim: converse_rtranclpE)

text \<open>Two caches above the same cache lie on one path.\<close>

lemma below_linear:
  assumes "below s x y" and "below s x z"
  shows "below s y z \<or> below s z y"
  using assms unfolding below_def
proof (induction rule: rtranclp_induct)
  case (step y w)
  then consider "(\<lambda>x y. h_par s x = Some y)\<^sup>*\<^sup>* y z" | "(\<lambda>x y. h_par s x = Some y)\<^sup>*\<^sup>* z y" by blast
  then show ?case
  proof cases
    case 1
    then show ?thesis using step.hyps(2)
      by (auto elim: converse_rtranclpE intro: rtranclp.rtrancl_into_rtrancl)
  next
    case 2
    then show ?thesis using step.hyps(2) by (auto intro: rtranclp.rtrancl_into_rtrancl)
  qed
qed simp

lemma one_child:
  assumes "topology k s" and "below s x c" and "below s x c'" and "h_par s c = Some y" and "h_par s c' = Some y"
  shows "c = c'"
proof -
  have "False" if "below s a b" "h_par s a = Some y" "h_par s b = Some y" "a \<noteq> b" for a b
  proof -
    have "below s y b" using that by (auto elim: below_cases)
    then show False using below_rank [OF assms(1)] rank_par [OF assms(1) that(3)] by fastforce
  qed
  then show ?thesis using below_linear [OF assms(2,3)] assms(4,5) by metis
qed

section \<open>The view of a hierarchy\<close>

type_synonym block_view = "cstate \<times> u8 list option"

definition hv :: "hier \<Rightarrow> nat \<Rightarrow> IntPtr \<Rightarrow> block_view option" where
  "hv s x = (if x < length (h_masters s) then block_at (cm_cache (h_masters s ! x)) else Map.empty)"

definition evicting :: "CacheMasterCntlr \<Rightarrow> (IntPtr \<times> u8 list) option" where
  "evicting m = map_option (Pair (cm_evicting_address m)) (cm_evicting_buf m)"

definition evb :: "hier \<Rightarrow> nat \<Rightarrow> (IntPtr \<times> u8 list) option" where
  "evb s x = (if x < length (h_masters s) then evicting (h_masters s ! x) else None)"

definition hgood :: "bool \<Rightarrow> nat \<Rightarrow> hier \<Rightarrow> bool" where
  "hgood fi k s \<longleftrightarrow> topology k s \<and> list_all (\<lambda>m. block_live fi k (cm_cache m)) (h_masters s) \<and> length (h_uninit s) = 2 ^ k \<and>
     dr_fault_injection (h_dram s) = fi \<and> dr_block_size (h_dram s) = 2 ^ k \<and> k < 32 \<and> (\<forall>n. h_last_remote s n \<noteq> HW_MISS)"

definition becomes :: "bool \<Rightarrow> nat \<Rightarrow> hier \<Rightarrow> (nat \<Rightarrow> IntPtr \<Rightarrow> block_view option) \<Rightarrow> (nat \<Rightarrow> (IntPtr \<times> u8 list) option) \<Rightarrow>
    (IntPtr \<rightharpoonup> u8 list) \<Rightarrow> hier \<Rightarrow> bool" where
  "becomes fi k s H E D s' \<longleftrightarrow> hgood fi k s' \<and> fixed s' = fixed s \<and> hv s' = H \<and> evb s' = E \<and> dr_data_map (h_dram s') = D"

abbreviation (input) dmap :: "hier \<Rightarrow> IntPtr \<rightharpoonup> u8 list" where
  "dmap s \<equiv> dr_data_map (h_dram s)"

lemma becomes_refl: "hgood fi k s \<Longrightarrow> becomes fi k s (hv s) (evb s) (dmap s) s"
  by (simp add: becomes_def)

lemma becomes_trans:
  "becomes fi k s H E D s' \<Longrightarrow> becomes fi k s' H' E' D' s'' \<Longrightarrow> becomes fi k s H' E' D' s''"
  by (simp add: becomes_def)

lemma becomes_view:
  assumes "becomes fi k s H E D s'"
  shows "hgood fi k s'" "fixed s' = fixed s" "hv s' = H" "evb s' = E" "dmap s' = D" "h_cntlrs s' = h_cntlrs s"
    "h_par s' = h_par s" "below s' = below s" "length (h_masters s') = length (h_masters s)" "h_uninit s' = h_uninit s"
    "h_depth s' = h_depth s"
    "x < length (h_masters s) \<Longrightarrow> cm_prev (h_masters s' ! x) = cm_prev (h_masters s ! x)"
proof -
  have f: "fixed s' = fixed s" using assms by (simp add: becomes_def)
  show "x < length (h_masters s) \<Longrightarrow> cm_prev (h_masters s' ! x) = cm_prev (h_masters s ! x)"
    using fixed_masters(2) [OF f] .
  show "h_uninit s' = h_uninit s" using f by (simp add: fixed_def)
qed (use assms fixed_cntlrs [of s' s] fixed_par [of s' s] fixed_below [of s' s] fixed_masters(1) [of s' s] in
  \<open>simp_all add: becomes_def h_depth_def\<close>)

lemma good_topology: "hgood fi k s \<Longrightarrow> topology k s"
  by (simp add: hgood_def)

lemma cntlr_Some:
  assumes "hgood fi k s" and "n < length (h_cntlrs s)"
  shows "cntlr n s = Some (h_cntlrs s ! n, h_masters s ! mst s n)"
  using assms topology_facts(1) [OF good_topology assms(2)] by (simp add: cntlr_def nth_opt_def)

lemma good_live:
  assumes "hgood fi k s" and "x < length (h_masters s)"
  shows "block_live fi k (cm_cache (h_masters s ! x))"
  using assms by (simp add: hgood_def list_all_length)

lemma hv_mst:
  assumes "hgood fi k s" and "n < length (h_cntlrs s)"
  shows "hv s (mst s n) = block_at (cm_cache (h_masters s ! mst s n))"
  using topology_facts(1) [OF good_topology [OF assms(1)] assms(2)] by (simp add: hv_def)

lemma put_master_becomes:
  assumes good: "hgood fi k s" and n: "n < length (h_cntlrs s)"
    and f: "cm_prev (f (h_masters s ! mst s n)) = cm_prev (h_masters s ! mst s n)"
      "cm_dram_cntlr (f (h_masters s ! mst s n)) = cm_dram_cntlr (h_masters s ! mst s n)"
      "block_live fi k (cm_cache (f (h_masters s ! mst s n)))"
  shows "becomes fi k s ((hv s)(mst s n := block_at (cm_cache (f (h_masters s ! mst s n)))))
    ((evb s)(mst s n := evicting (f (h_masters s ! mst s n)))) (dmap s) (put_master n f s)"
proof -
  let ?x = "mst s n" and ?s = "put_master n f s"
  have x: "?x < length (h_masters s)" using topology_facts(1) [OF good_topology [OF good] n] .
  have ms: "h_masters ?s = (h_masters s)[?x := f (h_masters s ! ?x)]" by (simp add: put_master_def)
  have fx: "fixed ?s = fixed s"
    using x f(1,2) by (simp add: fixed_def put_master_def map_update) (metis list_update_id nth_map)
  moreover have "list_all (\<lambda>m. block_live fi k (cm_cache m)) (h_masters ?s)"
    using good f(3) x unfolding ms by (auto simp: hgood_def list_all_length nth_list_update)
  then have "hgood fi k ?s"
    using good topology_fixed [OF good_topology [OF good] fx] by (simp add: hgood_def put_master_def)
  moreover have "hv ?s = (hv s)(?x := block_at (cm_cache (f (h_masters s ! ?x))))"
    using x by (auto simp: hv_def ms fun_eq_iff nth_list_update)
  moreover have "evb ?s = (evb s)(?x := evicting (f (h_masters s ! ?x)))"
    using x by (auto simp: evb_def ms fun_eq_iff nth_list_update)
  ultimately show ?thesis by (simp add: becomes_def put_master_def)
qed

lemma put_cache_becomes:
  assumes "hgood fi k s" and "n < length (h_cntlrs s)" and "block_live fi k c"
  shows "becomes fi k s ((hv s)(mst s n := block_at c)) (evb s) (dmap s) (put_cache n c s)"
proof -
  have "(evb s)(mst s n := evicting (h_masters s ! mst s n)) = evb s"
    using topology_facts(1) [OF good_topology [OF assms(1)] assms(2)] by (simp add: evb_def fun_eq_iff)
  moreover have "evicting (m\<lparr>cm_cache := c\<rparr>) = evicting m" for m by (simp add: evicting_def)
  ultimately show ?thesis
    using put_master_becomes [OF assms(1,2), of "\<lambda>m. m\<lparr>cm_cache := c\<rparr>"] assms(3) by (simp add: put_cache_def)
qed

lemma set_remote_becomes:
  assumes "hgood fi k s" and "w \<noteq> HW_MISS"
  shows "becomes fi k s (hv s) (evb s) (dmap s) (s\<lparr>h_last_remote := (h_last_remote s)(n := w)\<rparr>)"
proof -
  let ?s = "s\<lparr>h_last_remote := (h_last_remote s)(n := w)\<rparr>"
  have "fixed ?s = fixed s" by (simp add: fixed_def)
  then show ?thesis
    using assms topology_fixed [of k s ?s] by (auto simp: becomes_def hgood_def hv_def evb_def fun_eq_iff)
qed

lemma set_dram_becomes:
  assumes "hgood fi k s" and "dr_fault_injection d = fi" "dr_block_size d = 2 ^ k"
  shows "becomes fi k s (hv s) (evb s) (dr_data_map d) (s\<lparr>h_dram := d\<rparr>)"
proof -
  have "fixed (s\<lparr>h_dram := d\<rparr>) = fixed s" using assms by (simp add: fixed_def hgood_def)
  then show ?thesis
    using assms topology_fixed [of k s "s\<lparr>h_dram := d\<rparr>"] by (auto simp: becomes_def hgood_def hv_def evb_def fun_eq_iff)
qed

section \<open>Operations on the blocks of one cache\<close>

lemma peek_law:
  assumes "hgood fi k s" and "n < length (h_cntlrs s)" and "block_aligned k a"
  shows "\<exists>pos. peekSingleLine a (cm_cache (h_masters s ! mst s n)) = Some pos \<and>
    (case pos of None \<Rightarrow> hv s (mst s n) a = None
     | Some p \<Rightarrow> (\<exists>d. hv s (mst s n) a = Some (bi_cstate (line_at p (cm_cache (h_masters s ! mst s n))), d)))"
  unfolding hv_mst [OF assms(1,2)]
  by (rule peek_block [OF good_live [OF assms(1) topology_facts(1) [OF good_topology [OF assms(1)] assms(2)]] assms(3)])

lemma peek_present:
  assumes "hgood fi k s" and "n < length (h_cntlrs s)" and "block_aligned k a" and "hv s (mst s n) a = Some (st, d)"
  obtains p where "peekSingleLine a (cm_cache (h_masters s ! mst s n)) = Some (Some p)"
    and "bi_cstate (line_at p (cm_cache (h_masters s ! mst s n))) = st"
  using peek_law [OF assms(1-3)] assms(4) by (auto split: option.splits)

lemma peek_absent:
  assumes "hgood fi k s" and "n < length (h_cntlrs s)" and "block_aligned k a" and "hv s (mst s n) a = None"
  shows "peekSingleLine a (cm_cache (h_masters s ! mst s n)) = Some None"
proof -
  obtain pos where "peekSingleLine a (cm_cache (h_masters s ! mst s n)) = Some pos"
    "case pos of None \<Rightarrow> hv s (mst s n) a = None
     | Some p \<Rightarrow> (\<exists>d. hv s (mst s n) a = Some (bi_cstate (line_at p (cm_cache (h_masters s ! mst s n))), d))"
    using peek_law [OF assms(1-3)] by blast
  then show ?thesis using assms(4) by (cases pos) auto
qed

definition view_state :: "block_view option \<Rightarrow> cstate" where
  "view_state b = (case b of None \<Rightarrow> INVALID | Some (st, d) \<Rightarrow> st)"

lemma view_state_simps [simp]: "view_state None = INVALID" "view_state (Some (st, d)) = st"
  by (simp_all add: view_state_def)

lemma state_law:
  assumes "hgood fi k s" and "n < length (h_cntlrs s)" and "block_aligned k a"
  shows "getCacheState n a s = Some (view_state (hv s (mst s n) a))"
proof (cases "hv s (mst s n) a")
  case None
  then show ?thesis
    by (simp add: getCacheState_def cntlr_Some [OF assms(1,2)] peek_absent [OF assms])
next
  case (Some b)
  then obtain st d where at: "hv s (mst s n) a = Some (st, d)" by (cases b) auto
  obtain p where "peekSingleLine a (cm_cache (h_masters s ! mst s n)) = Some (Some p)"
    "bi_cstate (line_at p (cm_cache (h_masters s ! mst s n))) = st"
    using peek_present [OF assms at] .
  then show ?thesis
    by (simp add: getCacheState_def cntlr_Some [OF assms(1,2)] at)
qed

lemma permissible_law:
  assumes "hgood fi k s" and "n < length (h_cntlrs s)" and "block_aligned k a"
  shows "operationPermissibleinCache n a op s = Some (case op of READ \<Rightarrow> readable (view_state (hv s (mst s n) a))
    | _ \<Rightarrow> writable (view_state (hv s (mst s n) a)))"
  by (simp add: operationPermissibleinCache_def state_law [OF assms])

lemma set_line_law:
  assumes good: "hgood fi k s" and n: "n < length (h_cntlrs s)" and a: "block_aligned k a"
    and p: "peekSingleLine a (cm_cache (h_masters s ! mst s n)) = Some (Some p)" and at: "hv s (mst s n) a = Some (st, d)"
    and f: "\<And>l. bi_tag (f l) = bi_tag l"
  shows "\<exists>s'. set_line n p f s = Some s' \<and>
    becomes fi k s ((hv s)(mst s n := (hv s (mst s n))(a \<mapsto> (bi_cstate (f (line_at p (cm_cache (h_masters s ! mst s n)))), d))))
      (evb s) (dmap s) s' \<and>
    peekSingleLine a (cm_cache (h_masters s' ! mst s n)) = Some (Some p) \<and>
    line_at p (cm_cache (h_masters s' ! mst s n)) = f (line_at p (cm_cache (h_masters s ! mst s n)))"
proof -
  let ?x = "mst s n" and ?c = "cm_cache (h_masters s ! mst s n)"
  have x: "?x < length (h_masters s)" using topology_facts(1) [OF good_topology [OF good] n] .
  have at': "block_at ?c a = Some (st, d)" using at by (simp add: hv_mst [OF good n])
  note b = set_block [where f = f, OF good_live [OF good x] a p at' f]
  have eq: "set_line n p f s = Some (put_cache n (update_line p f ?c) s)"
    by (simp add: set_line_def cntlr_Some [OF good n])
  have m: "cm_cache (h_masters (put_cache n (update_line p f ?c) s) ! ?x) = update_line p f ?c"
    using x by (simp add: put_cache_def put_master_def)
  show ?thesis
    using b put_cache_becomes [OF good n, of "update_line p f ?c"] unfolding eq by (simp add: m hv_mst [OF good n])
qed

text \<open>A change of the options of a line is not visible.\<close>

lemma set_options_law:
  assumes good: "hgood fi k s" and n: "n < length (h_cntlrs s)" and a: "block_aligned k a"
    and p: "peekSingleLine a (cm_cache (h_masters s ! mst s n)) = Some (Some p)"
    and f: "\<And>l. bi_tag (f l) = bi_tag l" "\<And>l. bi_cstate (f l) = bi_cstate l"
  shows "\<exists>s'. set_line n p f s = Some s' \<and> becomes fi k s (hv s) (evb s) (dmap s) s' \<and>
    peekSingleLine a (cm_cache (h_masters s' ! mst s n)) = Some (Some p)"
proof -
  obtain d where d: "hv s (mst s n) a = Some (bi_cstate (line_at p (cm_cache (h_masters s ! mst s n))), d)"
    using peek_law [OF good n a] p by auto
  show ?thesis
    using set_line_law [OF good n a p d, of f] f d by (auto simp: fun_upd_idem)
qed

lemma setOption_keeps [simp]: "bi_tag (setOption opt l) = bi_tag l" "bi_cstate (setOption opt l) = bi_cstate l"
  "bi_tag (clearOption opt l) = bi_tag l" "bi_cstate (clearOption opt l) = bi_cstate l"
  by (simp_all add: setOption_def clearOption_def)

lemma setCacheState_law:
  assumes good: "hgood fi k s" and n: "n < length (h_cntlrs s)" and a: "block_aligned k a" and at: "hv s (mst s n) a = Some (st0, d)"
  shows "\<exists>s'. setCacheState n a st s = Some s' \<and>
    becomes fi k s ((hv s)(mst s n := (hv s (mst s n))(a \<mapsto> (st, d)))) (evb s) (dmap s) s'"
proof -
  obtain p where p: "peekSingleLine a (cm_cache (h_masters s ! mst s n)) = Some (Some p)" using peek_present [OF good n a at] .
  show ?thesis
    using set_line_law [OF good n a p at, of "\<lambda>b. b\<lparr>bi_cstate := st\<rparr>"]
    by (auto simp: setCacheState_def cntlr_Some [OF good n] p)
qed

lemma invalidate_law:
  assumes good: "hgood fi k s" and n: "n < length (h_cntlrs s)" and a: "block_aligned k a" and at: "hv s (mst s n) a = Some (st, d)"
    and st: "st \<noteq> MODIFIED" "st \<noteq> INVALID"
  shows "\<exists>s'. invalidateCacheBlock n a s = Some s' \<and>
    becomes fi k s ((hv s)(mst s n := (hv s (mst s n))(a := None))) (evb s) (dmap s) s'"
proof -
  have x: "mst s n < length (h_masters s)" using topology_facts(1) [OF good_topology [OF good] n] .
  obtain found c' where c': "invalidateSingleLine a (cm_cache (h_masters s ! mst s n)) = Some (found, c')" "block_live fi k c'"
    "block_at c' = (block_at (cm_cache (h_masters s ! mst s n)))(a := None)"
    using invalidate_block [OF good_live [OF good x] a] by blast
  then show ?thesis
    using put_cache_becomes [OF good n c'(2)] st at
    by (simp add: invalidateCacheBlock_def cntlr_Some [OF good n] state_law [OF good n a] hv_mst [OF good n])
qed

text \<open>The contents of a buffer filled from a block.\<close>

definition buf_of :: "hier \<Rightarrow> u8 list option \<Rightarrow> u8 list" where
  "buf_of s d = (case d of Some x \<Rightarrow> x | None \<Rightarrow> h_uninit s)"

lemma block_data:
  assumes good: "hgood fi k s" and at: "hv s x a = Some (st, d)"
  shows "if fi then \<exists>v. d = Some v \<and> length v = 2 ^ k else d = None"
proof -
  have x: "x < length (h_masters s)" using at by (auto simp: hv_def split: if_splits)
  let ?c = "cm_cache (h_masters s ! x)"
  have live: "block_live fi k ?c" using good_live [OF good x] .
  have a: "block_aligned k a" and at': "block_at ?c a = Some (st, d)"
    using at x live by (auto simp: hv_def block_at_def block_live_def split: if_splits)
  have "\<exists>w < unat (cb_associativity (ca_base ?c)). d = line_bytes (ca_sets ?c ! mask_set (ca_base ?c) a) w"
    using block_found [OF live a] at' by (auto split: option.splits)
  then show ?thesis
    using block_set_line [OF block_live_set(2) [OF live block_live_set(1) [OF live]]] by blast
qed

lemma buf_of_length:
  assumes "hgood fi k s" and "hv s x a = Some (st, d)"
  shows "length (buf_of s d) = 2 ^ k"
  using block_data [OF assms] assms(1) by (auto simp: buf_of_def hgood_def split: if_splits)

lemma unat_block_size:
  assumes "hgood fi k s" and "n < length (h_cntlrs s)"
  shows "unat (cc_block_size (h_cntlrs s ! n)) = 2 ^ k"
proof -
  have "k < 32" using assms(1) by (simp add: hgood_def)
  then show ?thesis
    by (simp add: topology_facts(7) [OF good_topology [OF assms(1)] assms(2)] unat_exp)
qed

lemma retrieve_law:
  assumes good: "hgood fi k s" and n: "n < length (h_cntlrs s)" and a: "block_aligned k a" and at: "hv s (mst s n) a = Some (st, d)"
  shows "\<exists>s'. retrieveCacheBlock n a upd s = Some (buf_of s d, s') \<and> becomes fi k s (hv s) (evb s) (dmap s) s' \<and>
    (\<forall>z b. peekSingleLine b (cm_cache (h_masters s' ! z)) = peekSingleLine b (cm_cache (h_masters s ! z)))"
proof -
  have x: "mst s n < length (h_masters s)" using topology_facts(1) [OF good_topology [OF good] n] .
  have at': "block_at (cm_cache (h_masters s ! mst s n)) a = Some (st, d)" using at by (simp add: hv_mst [OF good n])
  obtain p c' where c': "accessSingleLine a LOAD None (2 ^ k) upd (cm_cache (h_masters s ! mst s n)) =
      Some (Some p, map_option (\<lambda>d. take (2 ^ k) (drop 0 d)) d, c')" "block_live fi k c'"
      "block_at c' = block_at (cm_cache (h_masters s ! mst s n))"
      "\<forall>b. peekSingleLine b c' = peekSingleLine b (cm_cache (h_masters s ! mst s n))"
    using load_block [OF good_live [OF good x] a _ _ at', of 0 "2 ^ k" None upd] by auto
  moreover have "map_option (\<lambda>d. take (2 ^ k) (drop 0 d)) d = d"
    using block_data [OF good at] by (auto split: if_splits)
  moreover have "becomes fi k s (hv s) (evb s) (dmap s) (put_cache n c' s)"
    using put_cache_becomes [OF good n c'(2)] c'(3) by (simp add: hv_mst [OF good n, symmetric] fun_upd_idem)
  moreover have "peekSingleLine b (cm_cache (h_masters (put_cache n c' s) ! z)) = peekSingleLine b (cm_cache (h_masters s ! z))" for z b
    using c'(4) x by (simp add: put_cache_def put_master_def nth_list_update)
  ultimately show ?thesis
    by (simp add: retrieveCacheBlock_def cntlr_Some [OF good n] unat_block_size [OF good n] buf_of_def)
qed

text \<open>A block is written into the eviction buffer when the receiving cache is evicting it, and into its line otherwise.\<close>

lemma write_evicting_law:
  assumes good: "hgood fi k s" and n: "n < length (h_cntlrs s)" and ev: "evb s (mst s n) = Some (a, old)" and x: "length x = 2 ^ k"
    and depth: "0 < depth" and b: "b = 2 ^ k"
  shows "\<exists>s'. writeCacheBlock depth n a 0 (Some x) b s = Some s' \<and>
    becomes fi k s (hv s) ((evb s)(mst s n \<mapsto> (a, x))) (dmap s) s' \<and>
    (\<forall>z. z \<noteq> mst s n \<longrightarrow> cm_cache (h_masters s' ! z) = cm_cache (h_masters s ! z))"
proof -
  note t = topology_facts [OF good_topology [OF good] n]
  let ?m = "h_masters s ! mst s n"
  have e: "cm_evicting_address ?m = a" "cm_evicting_buf ?m = Some old"
    using ev t(1) by (auto simp: evb_def evicting_def)
  obtain depth' where depth': "depth = Suc depth'" using depth by (cases depth) auto
  have "(hv s)(mst s n := block_at (cm_cache ?m)) = hv s" by (simp add: hv_mst [OF good n, symmetric])
  then have "becomes fi k s (hv s) ((evb s)(mst s n \<mapsto> (a, x))) (dmap s) (put_master n (\<lambda>m. m\<lparr>cm_evicting_buf := Some x\<rparr>) s)"
    using put_master_becomes [OF good n, of "\<lambda>m. m\<lparr>cm_evicting_buf := Some x\<rparr>"] good_live [OF good t(1)] e
    by (simp add: evicting_def)
  moreover have "writeCacheBlock depth n a 0 (Some x) b s = Some (put_master n (\<lambda>m. m\<lparr>cm_evicting_buf := Some x\<rparr>) s)"
    using t x e b unat_block_size [OF good n] by (simp add: depth' cntlr_Some [OF good n])
  ultimately show ?thesis by (auto simp: put_master_def)
qed

lemma write_line_law:
  assumes good: "hgood fi k s" and n: "n < length (h_cntlrs s)" and a: "block_aligned k a" and ev: "evb s (mst s n) = None"
    and at: "hv s (mst s n) a = Some (MODIFIED, d)" and x: "length x = 2 ^ k" and depth: "0 < depth" and b: "b = 2 ^ k"
  shows "\<exists>s'. writeCacheBlock depth n a 0 (Some x) b s = Some s' \<and>
    becomes fi k s ((hv s)(mst s n := (hv s (mst s n))(a \<mapsto> (MODIFIED, if fi then Some x else None)))) (evb s) (dmap s) s' \<and>
    (\<forall>z. z \<noteq> mst s n \<longrightarrow> cm_cache (h_masters s' ! z) = cm_cache (h_masters s ! z))"
proof -
  note t = topology_facts [OF good_topology [OF good] n]
  let ?m = "h_masters s ! mst s n"
  have e: "cm_evicting_buf ?m = None" using ev t(1) by (auto simp: evb_def evicting_def)
  have bs: "unat b = 2 ^ k" using unat_block_size [OF good n] t(7) b by simp
  obtain depth' where depth': "depth = Suc depth'" using depth by (cases depth) auto
  have at': "block_at (cm_cache ?m) a = Some (MODIFIED, d)" using at by (simp add: hv_mst [OF good n])
  obtain p c' where c': "accessSingleLine a STORE (Some x) (2 ^ k) False (cm_cache ?m) = Some (Some p, None, c')"
    "block_live fi k c'" "block_at c' = (block_at (cm_cache ?m))(a \<mapsto> (MODIFIED, map_option (patch 0 x) d))"
    "bi_cstate (line_at p c') = MODIFIED"
    using store_block [OF good_live [OF good t(1)] a _ _ at', of 0 x False] x by auto
  have "map_option (patch 0 x) d = (if fi then Some x else None)"
    using block_data [OF good at] x by (auto simp: patch_all split: if_splits)
  moreover have "writeCacheBlock depth n a 0 (Some x) b s = Some (put_cache n c' s)"
    using t e bs c' by (simp add: depth' cntlr_Some [OF good n])
  ultimately show ?thesis
    using put_cache_becomes [OF good n c'(2)] c'(3) by (simp add: hv_mst [OF good n] put_cache_def put_master_def)
qed

section \<open>Coherence of a block\<close>

text \<open>
  The caches that hold a block lie on the path of its owner \<open>own\<close>. \<open>coherent_below\<close> is coherence in the subtree of the
  cache \<open>c\<close>: a copy is included in the next level, a modified copy only below modified copies, a shared copy has
  the data of the next level, and the lowest copy has the current value \<open>dv\<close>.
\<close>

definition coherent_at :: "hier \<Rightarrow> nat \<Rightarrow> (nat \<Rightarrow> block_view option) \<Rightarrow> u8 list option \<Rightarrow> nat \<Rightarrow> bool" where
  "coherent_at s own H dv z \<longleftrightarrow> (\<forall>st d. H z = Some (st, d) \<longrightarrow> below s own z \<and> (st = SHARED \<or> st = MODIFIED) \<and>
     ((\<forall>w. h_par s w = Some z \<longrightarrow> H w = None) \<longrightarrow> d = dv))"

definition included_at :: "hier \<Rightarrow> (nat \<Rightarrow> block_view option) \<Rightarrow> nat \<Rightarrow> bool" where
  "included_at s H z \<longleftrightarrow> (\<forall>st d y. H z = Some (st, d) \<longrightarrow> h_par s z = Some y \<longrightarrow>
     (\<exists>st' d'. H y = Some (st', d') \<and> (st = MODIFIED \<longrightarrow> st' = MODIFIED) \<and> (st = SHARED \<longrightarrow> d' = d)))"

definition coherent_below :: "hier \<Rightarrow> nat \<Rightarrow> (nat \<Rightarrow> block_view option) \<Rightarrow> u8 list option \<Rightarrow> nat \<Rightarrow> bool" where
  "coherent_below s own H dv c \<longleftrightarrow> (\<forall>z. below s z c \<longrightarrow> coherent_at s own H dv z \<and> (z \<noteq> c \<longrightarrow> included_at s H z))"

lemma coherent_below_step:
  assumes "topology k s" and "coherent_below s own H dv c" and "h_par s c' = Some c"
  shows "coherent_below s own H dv c'" "included_at s H c'"
proof -
  have ne: "z \<noteq> c" if "below s z c'" for z
    using below_rank [OF assms(1) that] rank_par [OF assms(1,3)] by auto
  show "coherent_below s own H dv c'"
    using assms(2) ne below_par [OF _ assms(3)] by (auto simp: coherent_below_def)
  show "included_at s H c'"
    using assms(2) ne [of c'] below_step [OF assms(3)] by (auto simp: coherent_below_def)
qed

text \<open>A cache that does not hold the block has no copy below it.\<close>

lemma none_below:
  assumes "coherent_below s own H dv c" and "H c = None" and "below s z c"
  shows "H z = None"
  using assms(3) unfolding below_def
proof (induction rule: converse_rtranclp_induct)
  case (step y z)
  have "below s y c" using below_step [OF step.hyps(1), of c] step.hyps(2) by (simp add: below_def)
  then have "y \<noteq> c \<Longrightarrow> included_at s H y" using assms(1) by (simp add: coherent_below_def)
  then show ?case
    using step.IH step.hyps(1) assms(2) by (cases "y = c"; cases "H y") (auto simp: included_at_def)
qed (rule assms(2))

text \<open>At most one child of a cache holds the block.\<close>

lemma one_holder:
  assumes "topology k s" and "coherent_below s own H dv c" and "h_par s p = Some c" "h_par s q = Some c"
    and "H p \<noteq> None" and "H q \<noteq> None"
  shows "p = q"
proof -
  have "below s own p" "below s own q"
    using assms(2-6) below_step by (fastforce simp: coherent_below_def coherent_at_def)+
  then show ?thesis using one_child [OF assms(1)] assms(3,4) by blast
qed

end
