(* ===== verification/HierarchyOps.thy ===== *)
theory HierarchyOps
  imports HierarchyInv
begin

text \<open>
  The operations that walk through the tree of caches: invalidation of a subtree, insertion with eviction, and the
  requests of the previous level. On a coherent hierarchy each of them returns and keeps the hierarchy coherent.
\<close>

section \<open>Invalidation of a subtree\<close>

lemma fold_opt_idle: "(\<And>p. p \<in> set ps \<Longrightarrow> f p acc = Some acc) \<Longrightarrow> fold_opt f ps acc = Some acc"
  by (induction ps) auto

text \<open>An update is the identity where no cache of the subtree holds the block.\<close>

lemma update_absent:
  assumes good: "hgood fi k s" and a: "block_aligned k a" and new: "new = INVALID \<or> new = SHARED"
    and "n < length (h_cntlrs s)" and "lev s n < depth + 2" and "\<And>z. below s z (mst s n) \<Longrightarrow> hv s z a = None"
  shows "updateCacheBlock depth n a new False s = Some (False, None, s)"
  using assms(4-)
proof (induction depth arbitrary: n)
  case 0
  then show ?case using topology_facts(8) [OF good_topology [OF good] 0(1)] by simp
next
  case (Suc depth)
  let ?x = "mst s n"
  have x: "?x < length (h_masters s)" using topology_facts(1) [OF good_topology [OF good] Suc.prems(1)] .
  have idle: "updateCacheBlock depth p a new False s = Some (False, None, s)" if p: "p \<in> set (cm_prev (h_masters s ! ?x))" for p
  proof -
    note t = topology_prev [OF good_topology [OF good] x p]
    have "lev s p < lev s n"
      using rank_par [OF good_topology [OF good] t(2)] rank_mst [OF good_topology [OF good]] t(1) Suc.prems(1) by simp
    then show ?thesis
      using Suc.IH [OF t(1)] Suc.prems(2,3) below_par [OF _ t(2)] by auto
  qed
  have "fold_opt (\<lambda>p (h, t). do { (h', b, t') \<leftarrow> updateCacheBlock depth p a new False t; Some (h \<or> h', t') })
      (cm_prev (h_masters s ! ?x)) (False, s) = Some (False, s)"
    by (rule fold_opt_idle) (simp add: idle)
  moreover have "update_own n a new False False s = Some (False, None, s)"
    using peek_absent [OF good Suc.prems(1) a] Suc.prems(3) [of ?x] by (simp add: update_own_def cntlr_Some [OF good Suc.prems(1)])
  ultimately show ?case
    using new by (auto simp: cntlr_Some [OF good Suc.prems(1)])
qed

text \<open>The cache \<open>y\<close> can take the data of the block back: it is evicting the block, or it holds it in state \<open>MODIFIED\<close>.\<close>

definition takes_back :: "hier \<Rightarrow> nat \<Rightarrow> IntPtr \<Rightarrow> cstate \<Rightarrow> bool" where
  "takes_back s y a st \<longleftrightarrow> (case evb s y of
     None \<Rightarrow> st = MODIFIED \<longrightarrow> (\<exists>d. hv s y a = Some (MODIFIED, d))
   | Some (a', B) \<Rightarrow> a' = a)"

text \<open>The view after the data \<open>d\<close> of a block in state \<open>st\<close> went back to \<open>y\<close>.\<close>

definition given_back :: "hier \<Rightarrow> nat \<Rightarrow> IntPtr \<Rightarrow> cstate \<Rightarrow> u8 list option \<Rightarrow> nat \<Rightarrow> IntPtr \<Rightarrow> block_view option" where
  "given_back s y a st d = (if st = MODIFIED \<and> evb s y = None then (hv s)(y := (hv s y)(a \<mapsto> (MODIFIED, d))) else hv s)"

definition given_buf :: "hier \<Rightarrow> nat \<Rightarrow> IntPtr \<Rightarrow> cstate \<Rightarrow> u8 list option \<Rightarrow> nat \<Rightarrow> (IntPtr \<times> u8 list) option" where
  "given_buf s y a st d = (if st = MODIFIED \<and> evb s y \<noteq> None then (evb s)(y \<mapsto> (a, buf_of s d)) else evb s)"

lemma takes_back_cong:
  assumes "hv s' = hv s" and "evb s' = evb s"
  shows "takes_back s' = takes_back s"
  unfolding takes_back_def fun_eq_iff assms by simp

lemma buf_of_cong: "h_uninit s' = h_uninit s \<Longrightarrow> buf_of s' d = buf_of s d"
  by (simp add: buf_of_def split: option.split)

lemma buf_of_data:
  assumes "hgood fi k s" and "hv s x a = Some (st, d)"
  shows "(if fi then Some (buf_of s d) else None) = d"
  using block_data [OF assms] by (auto simp: buf_of_def split: if_splits)

lemma write_back_law:
  assumes good: "hgood fi k s" and j: "j < length (h_cntlrs s)" and a: "block_aligned k a"
    and tb: "takes_back s (mst s j) a MODIFIED" and x: "length x = 2 ^ k" and d: "(if fi then Some x else None) = d" "buf_of s d = x"
    and b: "b = 2 ^ k"
  shows "\<exists>s'. writeCacheBlock (h_depth s) j a 0 (Some x) b s = Some s' \<and>
    becomes fi k s (given_back s (mst s j) a MODIFIED d) (given_buf s (mst s j) a MODIFIED d) (dmap s) s' \<and>
    (\<forall>z. z \<noteq> mst s j \<longrightarrow> cm_cache (h_masters s' ! z) = cm_cache (h_masters s ! z))"
proof (cases "evb s (mst s j)")
  case None
  then obtain d' where at: "hv s (mst s j) a = Some (MODIFIED, d')" using tb by (auto simp: takes_back_def)
  have "0 < h_depth s" using j by (auto simp: h_depth_def)
  from write_line_law [OF good j a None at x this b] show ?thesis
    using None d by (simp add: given_back_def given_buf_def)
next
  case (Some e)
  then obtain B where ev: "evb s (mst s j) = Some (a, B)" using tb by (cases e) (auto simp: takes_back_def)
  have "0 < h_depth s" using j by (auto simp: h_depth_def)
  from write_evicting_law [OF good j ev x this b] show ?thesis
    using ev d by (simp add: given_back_def given_buf_def)
qed

lemma next_above:
  assumes "hgood fi k s" and "n < length (h_cntlrs s)" and "cc_next (h_cntlrs s ! n) = Some j"
  shows "mst s j \<noteq> mst s n"
  using rank_par [OF good_topology [OF assms(1)] topology_next(3) [OF good_topology [OF assms(1)] assms(2,3)]] by auto

lemma given_back_other [simp]:
  "z \<noteq> y \<Longrightarrow> given_back s y a st d z = hv s z" "given_back s y a SHARED d = hv s" "given_buf s y a SHARED d = evb s"
  by (simp_all add: given_back_def given_buf_def)

lemma own_invalidate:
  assumes good: "hgood fi k s" and n: "n < length (h_cntlrs s)" and a: "block_aligned k a" and at: "hv s (mst s n) a = Some (st, d)"
    and st: "st = SHARED \<or> st = MODIFIED" and j: "cc_next (h_cntlrs s ! n) = Some j" and tb: "takes_back s (mst s j) a st"
  shows "\<exists>h s'. update_own n a INVALID False h0 s = Some (h, None, s') \<and>
    becomes fi k s ((given_back s (mst s j) a st d)(mst s n := (hv s (mst s n))(a := None))) (given_buf s (mst s j) a st d) (dmap s) s'"
proof -
  let ?x = "mst s n" and ?y = "mst s j"
  note t = topology_facts [OF good_topology [OF good] n] and jl = topology_next(1) [OF good_topology [OF good] n j]
  have xy: "?y \<noteq> ?x" using next_above [OF good n j] .
  obtain p where p: "peekSingleLine a (cm_cache (h_masters s ! ?x)) = Some (Some p)"
      "bi_cstate (line_at p (cm_cache (h_masters s ! ?x))) = st"
    using peek_present [OF good n a at] .
  show ?thesis
  proof (cases "st = MODIFIED")
    case False
    then have st: "st = SHARED" using st by simp
    obtain s' where s': "invalidateCacheBlock n a s = Some s'"
        "becomes fi k s ((hv s)(?x := (hv s ?x)(a := None))) (evb s) (dmap s) s'"
      using invalidate_law [OF good n a at] st by auto
    note v = becomes_view [OF s'(2)]
    have "getCacheState n a s' = Some INVALID"
      using state_law [OF v(1) _ a, of n] n v(3,6) by simp
    then show ?thesis
      using s' st p t(2) by (simp add: update_own_def cntlr_Some [OF good n])
  next
    case True
    obtain t1 where t1: "retrieveCacheBlock n a False s = Some (buf_of s d, t1)" "becomes fi k s (hv s) (evb s) (dmap s) t1"
        "\<forall>z b. peekSingleLine b (cm_cache (h_masters t1 ! z)) = peekSingleLine b (cm_cache (h_masters s ! z))"
      using retrieve_law [OF good n a at] by blast
    note v1 = becomes_view [OF t1(2)]
    have tb1: "takes_back t1 (mst t1 j) a MODIFIED" using tb True takes_back_cong [OF v1(3,4)] v1(6) by simp
    have d1: "(if fi then Some (buf_of s d) else None) = d" "buf_of t1 d = buf_of s d"
      using buf_of_data [OF good at] buf_of_cong [OF v1(10)] by simp_all
    have jl1: "j < length (h_cntlrs t1)" using jl v1(6) by simp
    obtain t2 where "writeCacheBlock (h_depth t1) j a 0 (Some (buf_of s d)) (cc_block_size (h_cntlrs s ! n)) t1 = Some t2"
        "becomes fi k t1 (given_back t1 (mst t1 j) a MODIFIED d) (given_buf t1 (mst t1 j) a MODIFIED d) (dmap t1) t2"
        "\<forall>z. z \<noteq> mst t1 j \<longrightarrow> cm_cache (h_masters t2 ! z) = cm_cache (h_masters t1 ! z)"
      using write_back_law [OF v1(1) jl1 a tb1 buf_of_length [OF good at] d1 t(7)] by blast
    moreover have "given_back t1 ?y a MODIFIED d = given_back s ?y a MODIFIED d" "given_buf t1 ?y a MODIFIED d = given_buf s ?y a MODIFIED d"
      using v1 d1(2) by (simp_all add: given_back_def given_buf_def)
    ultimately have t2: "writeCacheBlock (h_depth s) j a 0 (Some (buf_of s d)) (cc_block_size (h_cntlrs s ! n)) t1 = Some t2"
        "becomes fi k s (given_back s ?y a MODIFIED d) (given_buf s ?y a MODIFIED d) (dmap s) t2"
        "cm_cache (h_masters t2 ! ?x) = cm_cache (h_masters t1 ! ?x)"
      using v1 xy becomes_trans [OF t1(2)] by simp_all
    note v2 = becomes_view [OF t2(2)]
    have n2: "n < length (h_cntlrs t2)" using n v2(6) by simp
    have at2: "hv t2 (mst t2 n) a = Some (MODIFIED, d)" using at True xy v2 by simp
    have p2: "peekSingleLine a (cm_cache (h_masters t2 ! mst t2 n)) = Some (Some p)" using t2(3) t1(3) p(1) v2(6) by simp
    obtain t3 where t3: "set_line n p (\<lambda>l. l\<lparr>bi_cstate := SHARED\<rparr>) t2 = Some t3"
        "becomes fi k t2 ((hv t2)(?x := (hv t2 ?x)(a \<mapsto> (SHARED, d)))) (evb t2) (dmap t2) t3"
      using set_line_law [OF v2(1) n2 a p2 at2, of "\<lambda>l. l\<lparr>bi_cstate := SHARED\<rparr>"] v2(6) by auto
    note v3 = becomes_view [OF t3(2)]
    have n3: "n < length (h_cntlrs t3)" using n2 v3(6) by simp
    have at3: "hv t3 (mst t3 n) a = Some (SHARED, d)" using v3 v2 by simp
    obtain t4 where t4: "invalidateCacheBlock n a t3 = Some t4"
        "becomes fi k t3 ((hv t3)(?x := (hv t3 ?x)(a := None))) (evb t3) (dmap t3) t4"
      using invalidate_law [OF v3(1) n3 a at3] v3 v2 by auto
    note v4 = becomes_view [OF t4(2)]
    have "getCacheState n a t4 = Some INVALID"
      using state_law [OF v4(1) _ a, of n] n3 v4 v3 v2 by simp
    then have "update_own n a INVALID False h0 s = Some (True, None, t4)"
      using t1 t2(1) t3(1) t4(1) True p t(2,5) j by (simp add: update_own_def cntlr_Some [OF good n])
    moreover have "becomes fi k s ((given_back s ?y a st d)(?x := (hv s ?x)(a := None))) (given_buf s ?y a st d) (dmap s) t4"
      using becomes_trans [OF becomes_trans [OF t2(2) t3(2)] t4(2)] v3 v2 True xy by simp
    ultimately show ?thesis by blast
  qed
qed

lemma below_child:
  assumes "below s z x" and "z \<noteq> x"
  obtains c where "h_par s c = Some x" and "below s z c"
  using assms unfolding below_def by (auto elim: rtranclp.cases)

lemma fold_opt_single:
  assumes "\<And>q. q \<in> set qs \<Longrightarrow> f q acc = Some acc" and "f p acc = Some acc'" and "\<And>q. q \<in> set rs \<Longrightarrow> f q acc' = Some acc'"
  shows "fold_opt f (qs @ p # rs) acc = Some acc'"
proof -
  have "fold_opt f qs acc = Some acc" "fold_opt f rs acc' = Some acc'"
    using assms(1,3) by (auto intro: fold_opt_idle)
  then show ?thesis using assms(2) by (simp add: fold_opt_append)
qed

text \<open>Either no cache below \<open>x\<close> holds the block, or the holders below \<open>x\<close> are below one of its children.\<close>

lemma children_cases:
  assumes top: "topology k s" and x: "x < length (h_masters s)" and coh: "\<And>c. h_par s c = Some x \<Longrightarrow> coherent_below s own H dv c"
  obtains (none) "\<And>z. below s z x \<Longrightarrow> z \<noteq> x \<Longrightarrow> H z = None"
    | (one) qs p rs where "cm_prev (h_masters s ! x) = qs @ p # rs" and "H (mst s p) \<noteq> None"
      and "\<And>q z. q \<in> set (qs @ rs) \<Longrightarrow> below s z (mst s q) \<Longrightarrow> H z = None"
      and "\<And>z. below s z x \<Longrightarrow> z \<noteq> x \<Longrightarrow> \<not> below s z (mst s p) \<Longrightarrow> H z = None"
proof (cases "\<exists>c. h_par s c = Some x \<and> H c \<noteq> None")
  case False
  then have "H z = None" if "below s z x" "z \<noteq> x" for z
    using that none_below [OF coh] by (metis below_child)
  then show ?thesis using none by blast
next
  case True
  then obtain w where w: "h_par s w = Some x" "H w \<noteq> None" by blast
  obtain p where p: "p \<in> set (cm_prev (h_masters s ! x))" "mst s p = w"
    using prev_of_child [OF top w(1)] by blast
  obtain qs rs where qr: "cm_prev (h_masters s ! x) = qs @ p # rs" using p(1) by (auto simp: in_set_conv_decomp)
  have own: "below s own c" if "h_par s c = Some x" "H c \<noteq> None" for c
    using coh [OF that(1)] that(2) by (auto simp: coherent_below_def coherent_at_def)
  have other: "H c = None" if "h_par s c = Some x" "c \<noteq> w" for c
    using one_child [OF top own own] that w by blast
  show ?thesis
  proof (rule one [OF qr])
    show "H (mst s p) \<noteq> None" using w p by simp
    show "H z = None" if "q \<in> set (qs @ rs)" "below s z (mst s q)" for q z
    proof -
      have "q \<in> set (cm_prev (h_masters s ! x))" using that qr by auto
      note t = topology_prev [OF top x this]
      have "mst s q \<noteq> w" using topology_distinct [OF top x] that(1) qr p(2) by (auto simp: image_iff)
      then show ?thesis using none_below [OF coh [OF t(2)]] other t(2) that(2) by blast
    qed
    show "H z = None" if "below s z x" "z \<noteq> x" "\<not> below s z (mst s p)" for z
      using that none_below [OF coh] other p(2) by (metis below_child)
  qed
qed

definition cleared :: "hier \<Rightarrow> nat \<Rightarrow> IntPtr \<Rightarrow> (nat \<Rightarrow> IntPtr \<Rightarrow> block_view option) \<Rightarrow> nat \<Rightarrow> IntPtr \<Rightarrow> block_view option" where
  "cleared s c a H = (\<lambda>z. if below s z c then (H z)(a := None) else H z)"

lemma cleared_idle: "(\<And>z. below s z c \<Longrightarrow> H z a = None) \<Longrightarrow> cleared s c a H = H"
  by (auto simp: cleared_def fun_eq_iff)

lemma below_strict:
  assumes "topology k s" and "h_par s c = Some x" and "below s z c"
  shows "z \<noteq> x" "below s z x" "\<not> below s x z"
proof -
  show "below s z x" using below_par [OF assms(3,2)] .
  have "rank s z < rank s x" using below_rank [OF assms(1,3)] rank_par [OF assms(1,2)] by auto
  then show "z \<noteq> x" "\<not> below s x z" using below_rank [OF assms(1), of x z] by auto
qed

text \<open>What the invalidation of a child that holds the block does.\<close>

definition flushes :: "bool \<Rightarrow> nat \<Rightarrow> nat \<Rightarrow> IntPtr \<Rightarrow> u8 list option \<Rightarrow> nat \<Rightarrow> hier \<Rightarrow> nat \<Rightarrow> bool" where
  "flushes fi k depth a dv y s n \<longleftrightarrow> (\<forall>st d. hv s (mst s n) a = Some (st, d) \<longrightarrow> takes_back s y a st \<longrightarrow>
     (st = SHARED \<longrightarrow> d = dv) \<and>
     (\<exists>h s'. updateCacheBlock depth n a INVALID False s = Some (h, None, s') \<and>
       becomes fi k s (cleared s (mst s n) a (given_back s y a st dv)) (given_buf s y a st dv) (dmap s) s'))"

lemma lev_prev:
  assumes "topology k s" and "n < length (h_cntlrs s)" and "p \<in> set (cm_prev (h_masters s ! mst s n))"
  shows "lev s p < lev s n"
  using rank_par [OF assms(1) topology_prev(2) [OF assms(1) topology_facts(1) [OF assms(1,2)] assms(3)]]
    rank_mst [OF assms(1)] topology_prev(1) [OF assms(1) topology_facts(1) [OF assms(1,2)] assms(3)] assms(2) by simp

text \<open>The loop over the children, with the bit \<^verbatim>\<open>sibling_hit\<close> or without it.\<close>

lemma flush_loop:
  fixes f :: "nat \<Rightarrow> 'b \<times> hier \<Rightarrow> ('b \<times> hier) option"
  assumes good: "hgood fi k s" and n: "n < length (h_cntlrs s)" and a: "block_aligned k a" and lev: "lev s n < Suc depth + 2"
    and coh: "\<And>c. h_par s c = Some (mst s n) \<Longrightarrow> coherent_below s own (\<lambda>z. hv s z a) dv c"
    and tb: "\<And>c st d. h_par s c = Some (mst s n) \<Longrightarrow> hv s c a = Some (st, d) \<Longrightarrow> takes_back s (mst s n) a st"
    and IH: "\<And>p. p \<in> set (cm_prev (h_masters s ! mst s n)) \<Longrightarrow> flushes fi k depth a dv (mst s n) s p"
    and f: "\<And>p h t h' b t'. updateCacheBlock depth p a INVALID False t = Some (h', b, t') \<Longrightarrow> f p (h, t) = Some (g h h', t')"
      "\<And>h. g h False = h"
  shows "(\<exists>h. fold_opt f (cm_prev (h_masters s ! mst s n)) (h0, s) = Some (h, s)) \<and> (\<forall>z. below s z (mst s n) \<longrightarrow> z \<noteq> mst s n \<longrightarrow> hv s z a = None) \<or>
    (\<exists>c st d h s'. h_par s c = Some (mst s n) \<and> hv s c a = Some (st, d) \<and> (st = SHARED \<longrightarrow> d = dv) \<and>
      fold_opt f (cm_prev (h_masters s ! mst s n)) (h0, s) = Some (h, s') \<and>
      becomes fi k s (cleared s c a (given_back s (mst s n) a st dv)) (given_buf s (mst s n) a st dv) (dmap s) s' \<and>
      (\<forall>z. below s z (mst s n) \<longrightarrow> z \<noteq> mst s n \<longrightarrow> \<not> below s z c \<longrightarrow> hv s z a = None))"
proof -
  let ?x = "mst s n" and ?prev = "cm_prev (h_masters s ! mst s n)"
  note top = good_topology [OF good]
  have x: "?x < length (h_masters s)" using topology_facts(1) [OF top n] .
  have f_idle: "f q (b, t) = Some (b, t)" if "updateCacheBlock depth q a INVALID False t = Some (False, None, t)" for q b t
    using f(1) [OF that, of b] f(2) [of b] by simp
  have lv: "lev s p < depth + 2" if "p \<in> set ?prev" for p using lev_prev [OF top n that] lev by simp
  show ?thesis
  proof (rule children_cases [OF top x coh])
    show ?thesis if none: "\<And>z. below s z ?x \<Longrightarrow> z \<noteq> ?x \<Longrightarrow> hv s z a = None"
    proof -
      have "f p (h0, s) = Some (h0, s)" if p: "p \<in> set ?prev" for p
      proof -
        note t = topology_prev [OF top x p]
        have "hv s z a = None" if z: "below s z (mst s p)" for z
          using none below_strict [OF top t(2) z] by blast
        then show ?thesis by (intro f_idle update_absent [OF good a _ t(1) lv [OF p]]) simp_all
      qed
      then show ?thesis using none fold_opt_idle [of ?prev f] by blast
    qed
  next
    fix qs p rs
    assume qr: "?prev = qs @ p # rs" and p: "hv s (mst s p) a \<noteq> None"
      and idle: "\<And>q z. q \<in> set (qs @ rs) \<Longrightarrow> below s z (mst s q) \<Longrightarrow> hv s z a = None"
      and rest: "\<And>z. below s z ?x \<Longrightarrow> z \<noteq> ?x \<Longrightarrow> \<not> below s z (mst s p) \<Longrightarrow> hv s z a = None"
    have pin: "p \<in> set ?prev" and sub: "set (qs @ rs) \<subseteq> set ?prev" using qr by auto
    note t = topology_prev [OF top x pin]
    obtain st d where at: "hv s (mst s p) a = Some (st, d)" using p by auto
    obtain h s' where s': "updateCacheBlock depth p a INVALID False s = Some (h, None, s')" "st = SHARED \<longrightarrow> d = dv"
        "becomes fi k s (cleared s (mst s p) a (given_back s ?x a st dv)) (given_buf s ?x a st dv) (dmap s) s'"
      using IH [OF pin] at tb [OF t(2) at] unfolding flushes_def by blast
    note v = becomes_view [OF s'(3)]
    have "f q (b, s) = Some (b, s)" if q: "q \<in> set qs" for q b
      by (intro f_idle update_absent [OF good a]) (use idle q topology_prev(1) [OF top x] lv sub in auto)
    moreover have "f q (b, s') = Some (b, s')" if q: "q \<in> set rs" for q b
    proof -
      have qp: "q \<in> set ?prev" using q sub by auto
      have "hv s' z a = None" if z: "below s z (mst s q)" for z
      proof -
        have "z \<noteq> ?x" using below_strict(1) [OF top topology_prev(2) [OF top x qp] z] .
        then show ?thesis using idle [of q z] q z by (simp add: v(3) cleared_def)
      qed
      then show ?thesis
        by (intro f_idle update_absent [OF v(1) a]) (use topology_prev(1) [OF top x qp] lv [OF qp] v(6,8) in simp_all)
    qed
    ultimately have "fold_opt f ?prev (h0, s) = Some (g h0 h, s')"
      unfolding qr by (intro fold_opt_single) (auto intro: f(1) [OF s'(1)])
    then show ?thesis using s' at t(2) rest by blast
  qed
qed

lemma coherent_below_holder:
  assumes "coherent_below s own H dv c" and "H c = Some (st, d)"
  shows "below s own c" "st = SHARED \<or> st = MODIFIED" "(\<forall>w. h_par s w = Some c \<longrightarrow> H w = None) \<longrightarrow> d = dv"
proof -
  have "coherent_at s own H dv c" using assms(1) below_refl unfolding coherent_below_def by blast
  then show "below s own c" "st = SHARED \<or> st = MODIFIED" "(\<forall>w. h_par s w = Some c \<longrightarrow> H w = None) \<longrightarrow> d = dv"
    using assms(2) unfolding coherent_at_def by blast+
qed

lemma prev_next:
  assumes "topology k s" and "x < length (h_masters s)" and "p \<in> set (cm_prev (h_masters s ! x))"
  obtains j where "cc_next (h_cntlrs s ! p) = Some j" and "mst s j = x"
  using topology_prev [OF assms] topology_facts(11) [OF assms(1) topology_prev(1) [OF assms]] by auto

text \<open>The loop at a cache that holds the block and is not evicting: afterwards it has the current value.\<close>

lemma flush_loop_holder:
  assumes good: "hgood fi k s" and n: "n < length (h_cntlrs s)" and a: "block_aligned k a" and lev: "lev s n < Suc depth + 2"
    and coh: "coherent_below s own (\<lambda>z. hv s z a) dv (mst s n)" and at: "hv s (mst s n) a = Some (st, d)" and ev: "evb s (mst s n) = None"
    and IH: "\<And>p. p \<in> set (cm_prev (h_masters s ! mst s n)) \<Longrightarrow> flushes fi k depth a dv (mst s n) s p"
  shows "(st = SHARED \<longrightarrow> d = dv) \<and>
    (\<exists>h s'. fold_opt (\<lambda>p (h, t). do { (h', b, t') \<leftarrow> updateCacheBlock depth p a INVALID False t; Some (h \<or> h', t') })
        (cm_prev (h_masters s ! mst s n)) (False, s) = Some (h, s') \<and>
      becomes fi k s ((cleared s (mst s n) a (hv s))(mst s n := (hv s (mst s n))(a \<mapsto> (st, dv)))) (evb s) (dmap s) s')"
    (is "?A \<and> ?B")
proof -
  let ?x = "mst s n" and ?f = "\<lambda>p (h, t). do { (h', b, t') \<leftarrow> updateCacheBlock depth p a INVALID False t; Some (h \<or> h', t') }"
  note top = good_topology [OF good]
  have sub: "coherent_below s own (\<lambda>z. hv s z a) dv c" "included_at s (\<lambda>z. hv s z a) c" if "h_par s c = Some ?x" for c
    using coherent_below_step [OF top coh that] by blast+
  have st: "st = SHARED \<or> st = MODIFIED" "(\<forall>w. h_par s w = Some ?x \<longrightarrow> hv s w a = None) \<longrightarrow> d = dv"
    using coherent_below_holder [OF coh, of st d] at by blast+
  have tb: "takes_back s ?x a st1" if "h_par s c = Some ?x" "hv s c a = Some (st1, d1)" for c st1 d1
    using sub(2) [OF that(1)] that ev by (auto simp: takes_back_def included_at_def)
  have "(\<exists>h. fold_opt ?f (cm_prev (h_masters s ! ?x)) (False, s) = Some (h, s)) \<and> (\<forall>z. below s z ?x \<longrightarrow> z \<noteq> ?x \<longrightarrow> hv s z a = None) \<or>
    (\<exists>c st1 d1 h s'. h_par s c = Some ?x \<and> hv s c a = Some (st1, d1) \<and> (st1 = SHARED \<longrightarrow> d1 = dv) \<and>
      fold_opt ?f (cm_prev (h_masters s ! ?x)) (False, s) = Some (h, s') \<and>
      becomes fi k s (cleared s c a (given_back s ?x a st1 dv)) (given_buf s ?x a st1 dv) (dmap s) s' \<and>
      (\<forall>z. below s z ?x \<longrightarrow> z \<noteq> ?x \<longrightarrow> \<not> below s z c \<longrightarrow> hv s z a = None))"
    by (rule flush_loop [OF good n a lev sub(1) tb IH, where g = "(\<or>)"]) auto
  then consider (none) h where "fold_opt ?f (cm_prev (h_masters s ! ?x)) (False, s) = Some (h, s)"
      "\<forall>z. below s z ?x \<longrightarrow> z \<noteq> ?x \<longrightarrow> hv s z a = None"
    | (one) c st1 d1 h s' where "h_par s c = Some ?x" "hv s c a = Some (st1, d1)" "st1 = SHARED \<longrightarrow> d1 = dv"
      "fold_opt ?f (cm_prev (h_masters s ! ?x)) (False, s) = Some (h, s')"
      "becomes fi k s (cleared s c a (given_back s ?x a st1 dv)) (given_buf s ?x a st1 dv) (dmap s) s'"
      "\<forall>z. below s z ?x \<longrightarrow> z \<noteq> ?x \<longrightarrow> \<not> below s z c \<longrightarrow> hv s z a = None"
    by blast
  then show ?thesis
  proof cases
    case none
    have "\<forall>w. h_par s w = Some ?x \<longrightarrow> hv s w a = None" using none(2) below_strict [OF top] below_refl by blast
    then have d: "d = dv" using st(2) by simp
    have "(cleared s ?x a (hv s))(?x := (hv s ?x)(a \<mapsto> (st, dv))) = hv s"
      using none(2) at d by (auto simp: cleared_def fun_eq_iff)
    then show ?thesis using none(1) d becomes_refl [OF good] by auto
  next
    case one
    have inc: "st1 = MODIFIED \<longrightarrow> st = MODIFIED" "st1 = SHARED \<longrightarrow> d = d1"
      using sub(2) [OF one(1)] one(1,2) at by (auto simp: included_at_def)
    have st1: "st1 = SHARED \<or> st1 = MODIFIED"
      using coherent_below_holder(2) [OF sub(1) [OF one(1)], of st1 d1] one(2) by blast
    have A: "st = SHARED \<longrightarrow> d = dv" using st1 inc one(3) by auto
    have "((cleared s ?x a (hv s))(?x := (hv s ?x)(a \<mapsto> (st, dv)))) z = cleared s c a (given_back s ?x a st1 dv) z" for z
    proof (cases "z = ?x")
      case True
      then show ?thesis
        using below_strict(3) [OF top one(1) below_refl] st1 inc one(3) at ev
        by (auto simp: cleared_def given_back_def fun_eq_iff)
    next
      case False
      then show ?thesis
        using one(6) below_strict(2) [OF top one(1)] by (auto simp: cleared_def fun_eq_iff)
    qed
    then have "(cleared s ?x a (hv s))(?x := (hv s ?x)(a \<mapsto> (st, dv))) = cleared s c a (given_back s ?x a st1 dv)" by blast
    moreover have "given_buf s ?x a st1 dv = evb s" using ev by (simp add: given_buf_def)
    ultimately show ?thesis using one(4,5) A by auto
  qed
qed

lemma flush_subtree:
  assumes good: "hgood fi k s" and a: "block_aligned k a" and "n < length (h_cntlrs s)" and "lev s n < depth + 2"
    and "coherent_below s own (\<lambda>z. hv s z a) dv (mst s n)" and "cc_next (h_cntlrs s ! n) = Some j"
    and "\<And>z. below s z (mst s n) \<Longrightarrow> evb s z = None"
  shows "flushes fi k depth a dv (mst s j) s n"
  using assms(3-)
proof (induction depth arbitrary: n j)
  case 0
  then show ?case using topology_facts(8) [OF good_topology [OF good] 0(1)] by simp
next
  case (Suc depth)
  let ?x = "mst s n" and ?y = "mst s j"
  note top = good_topology [OF good] and n = Suc.prems(1) and coh = Suc.prems(3)
  have x: "?x < length (h_masters s)" using topology_facts(1) [OF top n] .
  have par: "h_par s ?x = Some ?y" using topology_next(3) [OF top n Suc.prems(4)] .
  have IH: "flushes fi k depth a dv ?x s p" if p: "p \<in> set (cm_prev (h_masters s ! ?x))" for p
  proof -
    note t = topology_prev [OF top x p]
    obtain j' where j': "cc_next (h_cntlrs s ! p) = Some j'" "mst s j' = ?x" using prev_next [OF top x p] .
    have "lev s p < depth + 2" using lev_prev [OF top n p] Suc.prems(2) by simp
    from Suc.IH [OF t(1) this coherent_below_step(1) [OF top coh t(2)] j'(1)] show ?thesis
      using Suc.prems(5) below_strict(2) [OF top t(2)] j'(2) by simp
  qed
  show ?case
    unfolding flushes_def
  proof (intro allI impI)
    fix st d
    assume at: "hv s ?x a = Some (st, d)" and tb: "takes_back s ?y a st"
    have st: "st = SHARED \<or> st = MODIFIED" using coherent_below_holder(2) [OF coh, of st d] at by blast
    from flush_loop_holder [OF good n a Suc.prems(2) coh at Suc.prems(5) [OF below_refl] IH]
    obtain h1 s1 where A: "st = SHARED \<longrightarrow> d = dv"
      and s1: "fold_opt (\<lambda>p (h, t). do { (h', b, t') \<leftarrow> updateCacheBlock depth p a INVALID False t; Some (h \<or> h', t') })
        (cm_prev (h_masters s ! ?x)) (False, s) = Some (h1, s1)"
        "becomes fi k s ((cleared s ?x a (hv s))(?x := (hv s ?x)(a \<mapsto> (st, dv)))) (evb s) (dmap s) s1"
      by blast
    note v = becomes_view [OF s1(2)]
    have yx: "\<not> below s ?y ?x" "?y \<noteq> ?x" using below_strict [OF top par below_refl] by auto
    have at1: "hv s1 (mst s1 n) a = Some (st, dv)" and n1: "n < length (h_cntlrs s1)" using v n by simp_all
    have hy: "hv s1 ?y = hv s ?y" using v(3) yx by (simp add: cleared_def)
    have tb1: "takes_back s1 (mst s1 j) a st" using tb unfolding takes_back_def v(4,6) hy .
    obtain h s2 where s2: "update_own n a INVALID False h1 s1 = Some (h, None, s2)"
        "becomes fi k s1 ((given_back s1 ?y a st dv)(?x := (hv s1 ?x)(a := None))) (given_buf s1 ?y a st dv) (dmap s1) s2"
      using own_invalidate [OF v(1) n1 a at1 st _ tb1, of h1] Suc.prems(4) v(6) by auto
    have "(given_back s1 ?y a st dv)(?x := (hv s1 ?x)(a := None)) = cleared s ?x a (given_back s ?y a st dv)"
      using yx hy unfolding given_back_def v(3,4) by (auto simp: cleared_def fun_eq_iff)
    moreover have "given_buf s1 ?y a st dv = given_buf s ?y a st dv"
      unfolding given_buf_def v(4) buf_of_cong [OF v(10)] ..
    ultimately have "becomes fi k s (cleared s ?x a (given_back s ?y a st dv)) (given_buf s ?y a st dv) (dmap s) s2"
      using becomes_trans [OF s1(2) s2(2)] v(5) by simp
    moreover have "updateCacheBlock (Suc depth) n a INVALID False s = Some (h, None, s2)"
      using s1(1) s2(1) by (simp add: cntlr_Some [OF good n])
    ultimately show "(st = SHARED \<longrightarrow> d = dv) \<and> (\<exists>h s'. updateCacheBlock (Suc depth) n a INVALID False s = Some (h, None, s') \<and>
        becomes fi k s (cleared s ?x a (given_back s ?y a st dv)) (given_buf s ?y a st dv) (dmap s) s')"
      using A by blast
  qed
qed

end
