(* ===== verification/HierarchyCoh.thy ===== *)
theory HierarchyCoh
  imports HierarchyOps
begin

text \<open>
  Coherence of a block in the whole hierarchy, and the changes of the view that keep it: a new copy below a cache that
  has the block, the removal of a subtree whose data went back to the next level or to the DRAM, the removal of
  the lowest copy, the step from shared to modified, and a write to the lowest copy.
\<close>

section \<open>Coherence\<close>

definition val :: "bool \<Rightarrow> u8 list \<Rightarrow> u8 list option" where
  "val fi v = (if fi then Some v else None)"

definition dram_value :: "nat \<Rightarrow> u8 list option \<Rightarrow> u8 list" where
  "dram_value k dm = (case dm of None \<Rightarrow> replicate (2 ^ k) 0 | Some w \<Rightarrow> w)"

definition coherent_block :: "bool \<Rightarrow> nat \<Rightarrow> hier \<Rightarrow> nat \<Rightarrow> (nat \<Rightarrow> block_view option) \<Rightarrow> u8 list option \<Rightarrow> u8 list \<Rightarrow> bool" where
  "coherent_block fi k s own H dm v \<longleftrightarrow>
     (\<forall>z. coherent_at s own H (val fi v) z \<and> included_at s H z) \<and>
     (\<forall>x st d. H x = Some (st, d) \<longrightarrow> h_par s x = None \<longrightarrow> fi \<longrightarrow> (\<exists>w. dm = Some w \<and> (st = SHARED \<longrightarrow> d = Some w))) \<and>
     ((\<forall>x. H x = None) \<longrightarrow> fi \<longrightarrow> dram_value k dm = v)"

lemma coherent_block_cong:
  assumes "h_par s' = h_par s"
  shows "coherent_block fi k s' = coherent_block fi k s"
  unfolding fun_eq_iff coherent_block_def coherent_at_def included_at_def below_def assms by simp

lemma coherent_block_below: "coherent_block fi k s own H dm v \<Longrightarrow> coherent_below s own H (val fi v) c"
  by (simp add: coherent_block_def coherent_below_def)

lemma coherent_holder:
  assumes "coherent_block fi k s own H dm v" and "H x = Some (st, d)"
  shows "below s own x" "st = SHARED \<or> st = MODIFIED" "(\<And>w. h_par s w = Some x \<Longrightarrow> H w = None) \<Longrightarrow> d = val fi v"
proof -
  have "coherent_at s own H (val fi v) x" using assms(1) unfolding coherent_block_def by blast
  then show "below s own x" "st = SHARED \<or> st = MODIFIED" "(\<And>w. h_par s w = Some x \<Longrightarrow> H w = None) \<Longrightarrow> d = val fi v"
    using assms(2) unfolding coherent_at_def by blast+
qed

lemma coherent_parent:
  assumes "coherent_block fi k s own H dm v" and "H x = Some (st, d)" and "h_par s x = Some y"
  obtains st' d' where "H y = Some (st', d')" "st = MODIFIED \<longrightarrow> st' = MODIFIED" "st = SHARED \<longrightarrow> d' = d"
proof -
  have "included_at s H x" using assms(1) unfolding coherent_block_def by blast
  then show ?thesis using assms(2,3) that unfolding included_at_def by blast
qed

lemma coherent_root:
  assumes "coherent_block fi k s own H dm v" and "H x = Some (st, d)" and "h_par s x = None" and fi
  shows "\<exists>w. dm = Some w \<and> (st = SHARED \<longrightarrow> d = Some w)"
  using assms unfolding coherent_block_def by blast

text \<open>Holders are closed upwards.\<close>

lemma holds_above:
  assumes "coherent_block fi k s own H dm v" and "H x \<noteq> None" and "below s x y"
  shows "H y \<noteq> None"
  using assms(2) none_below [OF coherent_block_below [OF assms(1)] _ assms(3)] by metis

lemma one_holding_child:
  assumes "topology k' s" and "coherent_block fi k s own H dm v" and "h_par s p = Some c" "h_par s q = Some c"
    and "H p \<noteq> None" "q \<noteq> p"
  shows "H q = None"
proof (rule ccontr)
  assume "H q \<noteq> None"
  then obtain st d st' d' where "H p = Some (st, d)" "H q = Some (st', d')" using assms(5) by auto
  then have "below s own p" "below s own q" using coherent_holder(1) [OF assms(2)] by blast+
  then show False using one_child [OF assms(1)] assms(3,4,6) by blast
qed

text \<open>Every shared copy is current.\<close>

lemma shared_current:
  assumes top: "topology k' s" and coh: "coherent_block fi k s own H dm v"
  shows "H x = Some (SHARED, d) \<Longrightarrow> d = val fi v"
proof (induction "rank s x" arbitrary: x rule: less_induct)
  case less
  show ?case
  proof (cases "\<exists>w. h_par s w = Some x \<and> H w \<noteq> None")
    case True
    then obtain w st' d' where w: "h_par s w = Some x" "H w = Some (st', d')" by auto
    obtain st2 d2 where "H x = Some (st2, d2)" "st' = MODIFIED \<longrightarrow> st2 = MODIFIED" "st' = SHARED \<longrightarrow> d2 = d'"
      using coherent_parent [OF coh w(2,1)] .
    then have "st' = SHARED" "d' = d" using less.prems coherent_holder(2) [OF coh w(2)] by auto
    then show ?thesis using less.hyps [OF rank_par [OF top w(1)]] w(2) by simp
  next
    case False
    then show ?thesis using coherent_holder(3) [OF coh less.prems] by blast
  qed
qed

lemma root_above:
  assumes "below s own z" and "below s own x" and "h_par s x = None"
  shows "below s z x"
  using below_linear [OF assms(1,2)] assms(3) by (auto elim: below_cases)

section \<open>Changes that keep coherence\<close>

lemma coherent_insert:
  assumes top: "topology k' s" and coh: "coherent_block fi k s own H dm v" and new: "H x = None" and own: "below s own x"
    and st: "st = SHARED \<or> st = MODIFIED"
    and par: "\<And>y. h_par s x = Some y \<Longrightarrow> \<exists>st'. H y = Some (st', val fi v) \<and> (st = MODIFIED \<longrightarrow> st' = MODIFIED)"
    and root: "h_par s x = None \<Longrightarrow> fi \<Longrightarrow> dm = Some v"
  shows "coherent_block fi k s own (H(x \<mapsto> (st, val fi v))) dm v"
proof -
  let ?H = "H(x \<mapsto> (st, val fi v))"
  have child: "H w = None" if "h_par s w = Some x" for w
    using none_below [OF coherent_block_below [OF coh] new below_step [OF that below_refl]] .
  have "coherent_at s own ?H (val fi v) z" for z
  proof (cases "z = x")
    case False
    then show ?thesis
      using coh unfolding coherent_block_def coherent_at_def by (metis fun_upd_other fun_upd_same option.distinct(1))
  qed (use own st in \<open>simp add: coherent_at_def\<close>)
  moreover have "included_at s ?H z" for z
  proof (cases "z = x")
    case True
    then show ?thesis using par rank_par [OF top] by (fastforce simp: included_at_def)
  next
    case False
    have "included_at s H z" using coh by (simp add: coherent_block_def)
    then show ?thesis using False child [of z] by (auto simp: included_at_def)
  qed
  moreover have "\<exists>w. dm = Some w \<and> (st' = SHARED \<longrightarrow> d = Some w)"
    if "?H z = Some (st', d)" "h_par s z = None" fi for z st' d
    using that root coherent_root [OF coh, of z st' d] by (cases "z = x") (auto simp: val_def)
  ultimately show ?thesis
    unfolding coherent_block_def by (metis fun_upd_same option.distinct(1))
qed

lemma coherent_drop:
  assumes top: "topology k' s" and coh: "coherent_block fi k s own H dm v" and at: "H x = Some (SHARED, d)"
    and low: "\<And>w. h_par s w = Some x \<Longrightarrow> H w = None"
  shows "coherent_block fi k s own (H(x := None)) dm v"
proof -
  let ?H = "H(x := None)"
  have d: "d = val fi v" using shared_current [OF top coh at] .
  have "coherent_at s own ?H (val fi v) z" for z
    unfolding coherent_at_def
  proof (intro allI impI)
    fix st' d'
    assume z: "?H z = Some (st', d')"
    then have zx: "z \<noteq> x" "H z = Some (st', d')" by (auto split: if_splits)
    have "d' = val fi v" if none: "\<forall>w. h_par s w = Some z \<longrightarrow> ?H w = None"
    proof (cases "h_par s x = Some z")
      case True
      then show ?thesis using coherent_parent [OF coh at True] zx(2) d by auto
    next
      case False
      then show ?thesis using coherent_holder(3) [OF coh zx(2)] none by (metis fun_upd_other)
    qed
    then show "below s own z \<and> (st' = SHARED \<or> st' = MODIFIED) \<and> ((\<forall>w. h_par s w = Some z \<longrightarrow> ?H w = None) \<longrightarrow> d' = val fi v)"
      using coherent_holder(1,2) [OF coh zx(2)] by blast
  qed
  moreover have "included_at s ?H z" for z
  proof -
    have "included_at s H z" using coh by (simp add: coherent_block_def)
    then show ?thesis using low [of z] by (auto simp: included_at_def)
  qed
  moreover have "\<exists>w. dm = Some w \<and> (st' = SHARED \<longrightarrow> d' = Some w)"
    if "?H z = Some (st', d')" "h_par s z = None" fi for z st' d'
    using that coherent_root [OF coh, of z st' d'] by (auto split: if_splits)
  moreover have "dram_value k dm = v" if none: "\<forall>z. ?H z = None" and fi
  proof (cases "h_par s x")
    case None
    then show ?thesis using coherent_root [OF coh at None \<open>fi\<close>] d \<open>fi\<close> by (auto simp: val_def dram_value_def)
  next
    case (Some y)
    obtain st' d' where "H y = Some (st', d')" using coherent_parent [OF coh at Some] .
    then have "H y \<noteq> None" "y \<noteq> x" using rank_par [OF top Some] by auto
    then show ?thesis using none by (metis fun_upd_other)
  qed
  ultimately show ?thesis unfolding coherent_block_def by blast
qed

lemma coherent_upgrade:
  assumes coh: "coherent_block fi k s own H dm v" and at: "H x = Some (SHARED, d)" and root: "h_par s x = None"
    and low: "\<And>w. h_par s w = Some x \<Longrightarrow> H w = None"
  shows "coherent_block fi k s own (H(x \<mapsto> (MODIFIED, d))) dm v"
proof -
  let ?H = "H(x \<mapsto> (MODIFIED, d))"
  have "coherent_at s own ?H (val fi v) z" for z
  proof (cases "z = x")
    case True
    then show ?thesis using coherent_holder [OF coh at] low by (auto simp: coherent_at_def)
  next
    case False
    have "coherent_at s own H (val fi v) z" using coh by (simp add: coherent_block_def)
    then show ?thesis using False at unfolding coherent_at_def by (metis fun_upd_other fun_upd_same option.distinct(1))
  qed
  moreover have "included_at s ?H z" for z
  proof -
    have "included_at s H z" using coh by (simp add: coherent_block_def)
    then show ?thesis using root low [of z] by (auto simp: included_at_def)
  qed
  moreover have "\<exists>w. dm = Some w \<and> (st' = SHARED \<longrightarrow> d' = Some w)"
    if "?H z = Some (st', d')" "h_par s z = None" fi for z st' d'
    using that coherent_root [OF coh, of z st' d'] coherent_root [OF coh at root] by (cases "z = x") auto
  ultimately show ?thesis
    unfolding coherent_block_def by (metis fun_upd_same option.distinct(1))
qed

lemma coherent_evict:
  assumes top: "topology k' s" and coh: "coherent_block fi k s own H dm v" and at: "H x = Some (st, d)" and y: "h_par s x = Some y"
  shows "coherent_block fi k s own
    (\<lambda>z. if below s z x then None else if z = y \<and> st = MODIFIED then Some (MODIFIED, val fi v) else H z) dm v" (is "coherent_block fi k s own ?H dm v")
proof -
  obtain st' d' where up: "H y = Some (st', d')" "st = MODIFIED \<longrightarrow> st' = MODIFIED" "st = SHARED \<longrightarrow> d' = d"
    using coherent_parent [OF coh at y] .
  have st: "st = SHARED \<or> st = MODIFIED" using coherent_holder(2) [OF coh at] .
  have yx: "\<not> below s y x" using below_strict(3) [OF top y below_refl] .
  have Hy: "?H y = Some (st', if st = MODIFIED then val fi v else d')" using yx up by auto
  have d': "(if st = MODIFIED then val fi v else d') = val fi v"
    using st up(3) shared_current [OF top coh] at by auto
  have "coherent_at s own ?H (val fi v) z" for z
    unfolding coherent_at_def
  proof (intro allI impI)
    fix st1 d1
    assume z: "?H z = Some (st1, d1)"
    then have nz: "\<not> below s z x" by (auto split: if_splits)
    show "below s own z \<and> (st1 = SHARED \<or> st1 = MODIFIED) \<and> ((\<forall>w. h_par s w = Some z \<longrightarrow> ?H w = None) \<longrightarrow> d1 = val fi v)"
    proof (cases "z = y")
      case True
      then show ?thesis using z Hy d' coherent_holder [OF coh up(1)] by auto
    next
      case False
      then have Hz: "H z = Some (st1, d1)" using z nz by auto
      have "H w = None" if "h_par s w = Some z" "?H w = None" for w
        using that nz False y up(1) below_step [OF that(1)] by (auto elim: below_cases split: if_splits)
      then show ?thesis using coherent_holder [OF coh Hz] by blast
    qed
  qed
  moreover have "included_at s ?H z" for z
    unfolding included_at_def
  proof (intro allI impI)
    fix st1 d1 p
    assume z: "?H z = Some (st1, d1)" and p: "h_par s z = Some p"
    then have nz: "\<not> below s z x" by (auto split: if_splits)
    then have np: "\<not> below s p x" using below_step [OF p] by blast
    show "\<exists>st2 d2. ?H p = Some (st2, d2) \<and> (st1 = MODIFIED \<longrightarrow> st2 = MODIFIED) \<and> (st1 = SHARED \<longrightarrow> d2 = d1)"
    proof (cases "z = y")
      case True
      have py: "p \<noteq> y" using rank_par [OF top p] True by auto
      obtain st2 d2 where p2: "H p = Some (st2, d2)" "st' = MODIFIED \<longrightarrow> st2 = MODIFIED" "st' = SHARED \<longrightarrow> d2 = d'"
        using coherent_parent [OF coh up(1)] p True by blast
      have "st1 = st'" "st' = SHARED \<longrightarrow> d1 = d'" using z Hy True up(2) by auto
      moreover have "?H p = Some (st2, d2)" using np py p2(1) by simp
      ultimately show ?thesis using p2(2,3) by metis
    next
      case False
      then have Hz: "H z = Some (st1, d1)" using z nz by auto
      have "z \<noteq> x" using nz by auto
      then have "p \<noteq> y" using one_holding_child [OF top coh y, of z] p at Hz by auto
      then have "?H p = H p" using np by simp
      moreover obtain st2 d2 where "H p = Some (st2, d2)" "st1 = MODIFIED \<longrightarrow> st2 = MODIFIED" "st1 = SHARED \<longrightarrow> d2 = d1"
        using coherent_parent [OF coh Hz p] .
      ultimately show ?thesis by metis
    qed
  qed
  moreover have "\<exists>w. dm = Some w \<and> (st1 = SHARED \<longrightarrow> d1 = Some w)" if "?H z = Some (st1, d1)" "h_par s z = None" fi for z st1 d1
    using that coherent_root [OF coh, of z st1 d1] coherent_root [OF coh up(1)] up(2) by (auto split: if_splits)
  moreover have "\<not> (\<forall>z. ?H z = None)" using Hy by (metis option.distinct(1))
  ultimately show ?thesis
    unfolding coherent_block_def by blast
qed

lemma coherent_evict_root:
  assumes coh: "coherent_block fi k s own H dm v" and top: "topology k' s" and at: "H x = Some (st, d)" and root: "h_par s x = None"
    and dm': "st = MODIFIED \<Longrightarrow> fi \<Longrightarrow> dm' = Some v" "st = SHARED \<Longrightarrow> dm' = dm"
  shows "(\<lambda>z. if below s z x then None else H z) = Map.empty" "coherent_block fi k s own Map.empty dm' v"
proof -
  have "H z = None" if "\<not> below s z x" for z
    using root_above [OF _ coherent_holder(1) [OF coh at] root] coherent_holder(1) [OF coh, of z] that
    by (cases "H z") auto
  then show "(\<lambda>z. if below s z x then None else H z) = Map.empty" by auto
  have "dram_value k dm' = v" if fi
  proof (cases "st = MODIFIED")
    case False
    then have S: "st = SHARED" using coherent_holder(2) [OF coh at] by simp
    then have "d = val fi v" using shared_current [OF top coh] at by simp
    then show ?thesis using coherent_root [OF coh at root that] S that dm' by (auto simp: val_def dram_value_def)
  qed (use dm' that in \<open>simp add: dram_value_def\<close>)
  then show "coherent_block fi k s own Map.empty dm' v"
    by (simp add: coherent_block_def coherent_at_def included_at_def)
qed

lemma coherent_write:
  assumes top: "topology k' s" and coh: "coherent_block fi k s own H dm v" and at: "H own = Some (MODIFIED, d)"
  shows "coherent_block fi k s own (H(own \<mapsto> (MODIFIED, val fi v'))) dm v'"
proof -
  let ?H = "H(own \<mapsto> (MODIFIED, val fi v'))"
  have low: "H w = None" if "h_par s w = Some own" for w
  proof (rule ccontr)
    assume "H w \<noteq> None"
    then have "below s own w" using coherent_holder(1) [OF coh] by auto
    then show False using below_strict(3) [OF top that below_refl] by blast
  qed
  have "coherent_at s own ?H (val fi v') z" for z
  proof (cases "z = own")
    case False
    have "\<exists>w. h_par s w = Some z \<and> ?H w \<noteq> None" if "?H z = Some (st', d')" for st' d'
    proof -
      have "below s own z" using coherent_holder(1) [OF coh, of z st' d'] that False by simp
      then obtain c where c: "h_par s c = Some z" "below s own c" using below_child False by metis
      then have "H c \<noteq> None" using holds_above [OF coh, of own c] at by simp
      then show ?thesis using c(1) by auto
    qed
    then show ?thesis using coherent_holder [OF coh, of z] False unfolding coherent_at_def by (metis fun_upd_other)
  qed (simp add: coherent_at_def)
  moreover have "included_at s ?H z" for z
  proof -
    have "included_at s H z" using coh by (simp add: coherent_block_def)
    then show ?thesis using low [of z] at rank_par [OF top] by (fastforce simp: included_at_def)
  qed
  moreover have "\<exists>w. dm = Some w \<and> (st' = SHARED \<longrightarrow> d' = Some w)"
    if "?H z = Some (st', d')" "h_par s z = None" fi for z st' d'
    using that coherent_root [OF coh, of z st' d'] coherent_root [OF coh at] by (cases "z = own") auto
  ultimately show ?thesis
    unfolding coherent_block_def by (metis fun_upd_same option.distinct(1))
qed

end
