(* ===== verification/HierarchyMem.thy ===== *)
theory HierarchyMem
  imports HierarchyCoh
begin

text \<open>
  The operations of the cores on a hierarchy with direct access to the DRAM implement a flat memory, as long as every
  block is accessed through one first-level cache. Each operation returns.
\<close>

section \<open>Eviction\<close>

lemma coherent_below_local:
  assumes coh: "coherent_below s own H dv c" and eq: "\<And>z. below s z c \<Longrightarrow> H' z = H z"
  shows "coherent_below s own H' dv c"
  unfolding coherent_below_def
proof (intro allI impI conjI)
  fix z
  assume z: "below s z c"
  have w: "H' w = H w" if "h_par s w = Some z" for w using eq below_step [OF that z] by blast
  show "coherent_at s own H' dv z"
    using coh z eq [OF z] w unfolding coherent_below_def coherent_at_def by metis
  assume zc: "z \<noteq> c"
  have "H' y = H y" if "h_par s z = Some y" for y using eq z zc that by (auto elim: below_cases)
  then show "included_at s H' z"
    using coh z zc eq [OF z] unfolding coherent_below_def included_at_def by metis
qed

lemma fold_opt_unit:
  "fold_opt (\<lambda>p t. do { (h, b, t') \<leftarrow> u p t; Some t' }) ps s =
   map_option snd (fold_opt (\<lambda>p (x :: unit, t). do { (h, b, t') \<leftarrow> u p t; Some ((), t') }) ps ((), s))"
  by (induction ps arbitrary: s) (auto split: bind_splits)

lemma back_invalidate_law:
  assumes good: "hgood fi k s" and n: "n < length (h_cntlrs s)" and v: "block_aligned k v" and absent: "hv s (mst s n) v = None"
    and ev: "\<And>z. evb s z = None" and coh: "\<And>c. h_par s c = Some (mst s n) \<Longrightarrow> coherent_below s own (\<lambda>z. hv s z v) dv c"
  shows "\<exists>B' s'. back_invalidate n v B s = Some (B', s') \<and>
    becomes fi k s (cleared s (mst s n) v (hv s)) (evb s) (dmap s) s' \<and>
    (B' = B \<and> (\<forall>c. h_par s c = Some (mst s n) \<longrightarrow> hv s c v = None) \<or>
     (\<exists>c st d. h_par s c = Some (mst s n) \<and> hv s c v = Some (st, d) \<and> (st = SHARED \<longrightarrow> d = dv) \<and>
        B' = (if st = MODIFIED then buf_of s dv else B)))"
proof (cases "cm_prev (h_masters s ! mst s n) = []")
  case True
  have leaf: "h_par s c \<noteq> Some (mst s n)" for c
    using prev_of_child [OF good_topology [OF good], of c "mst s n"] True by auto
  then have "cleared s (mst s n) v (hv s) = hv s"
    using absent by (intro cleared_idle) (metis below_child)
  then show ?thesis
    using True leaf becomes_refl [OF good] by (simp add: back_invalidate_def cntlr_Some [OF good n])
next
  case False
  let ?x = "mst s n"
  define s1 where "s1 = put_master n (\<lambda>m. m\<lparr>cm_evicting_address := v, cm_evicting_buf := Some B\<rparr>) s"
  note top = good_topology [OF good]
  have x: "?x < length (h_masters s)" using topology_facts(1) [OF top n] .
  have b1: "becomes fi k s (hv s) ((evb s)(?x \<mapsto> (v, B))) (dmap s) s1"
    using put_master_becomes [OF good n, of "\<lambda>m. m\<lparr>cm_evicting_address := v, cm_evicting_buf := Some B\<rparr>"] good_live [OF good x]
    by (simp add: s1_def evicting_def hv_mst [OF good n, symmetric] fun_upd_idem)
  note v1 = becomes_view [OF b1]
  have n1: "n < length (h_cntlrs s1)" using n v1(6) by simp
  note top1 = good_topology [OF v1(1)]
  have coh1: "coherent_below s1 own (\<lambda>z. hv s1 z v) dv c" if "h_par s1 c = Some (mst s1 n)" for c
    using coh [of c] that unfolding coherent_below_def coherent_at_def included_at_def v1(3,6,7,8) by blast
  have prev: "cm_prev (h_masters s1 ! ?x) = cm_prev (h_masters s ! ?x)" using v1(12) [OF x] .
  have fl: "flushes fi k (h_depth s) v dv (mst s1 n) s1 p" if p: "p \<in> set (cm_prev (h_masters s1 ! mst s1 n))" for p
  proof -
    have x1: "mst s1 n < length (h_masters s1)" using x v1 by simp
    note t = topology_prev [OF top1 x1 p]
    obtain j where j: "cc_next (h_cntlrs s1 ! p) = Some j" "mst s1 j = mst s1 n" using prev_next [OF top1 x1 p] .
    have "lev s1 p < h_depth s + 2" using topology_facts(10) [OF top1 t(1)] v1(6) by (simp add: h_depth_def)
    moreover have "evb s1 z = None" if "below s1 z (mst s1 p)" for z
      using below_strict(1) [OF top1 t(2) that] ev v1(4,6) by simp
    ultimately show ?thesis using flush_subtree [OF v1(1) v t(1) _ coh1 [OF t(2)] j(1)] j(2) by simp
  qed
  have tb: "takes_back s1 (mst s1 n) v st" for st using v1(4,6) by (simp add: takes_back_def)
  have lev: "lev s1 n < Suc (h_depth s) + 2" using topology_facts(10) [OF top1 n1] v1(6) by (simp add: h_depth_def)
  let ?f = "\<lambda>p (u :: unit, t). do { (h, b, t') \<leftarrow> updateCacheBlock (h_depth s) p v INVALID False t; Some ((), t') }"
  have loop: "(\<exists>h. fold_opt ?f (cm_prev (h_masters s1 ! mst s1 n)) ((), s1) = Some (h, s1)) \<and>
      (\<forall>z. below s1 z (mst s1 n) \<longrightarrow> z \<noteq> mst s1 n \<longrightarrow> hv s1 z v = None) \<or>
    (\<exists>c st d h s'. h_par s1 c = Some (mst s1 n) \<and> hv s1 c v = Some (st, d) \<and> (st = SHARED \<longrightarrow> d = dv) \<and>
      fold_opt ?f (cm_prev (h_masters s1 ! mst s1 n)) ((), s1) = Some (h, s') \<and>
      becomes fi k s1 (cleared s1 c v (given_back s1 (mst s1 n) v st dv)) (given_buf s1 (mst s1 n) v st dv) (dmap s1) s' \<and>
      (\<forall>z. below s1 z (mst s1 n) \<longrightarrow> z \<noteq> mst s1 n \<longrightarrow> \<not> below s1 z c \<longrightarrow> hv s1 z v = None))"
    by (rule flush_loop [OF v1(1) n1 v lev coh1 tb fl, where g = "\<lambda>u h. u"]) auto
  have clear: "back_invalidate n v B s = Some (B', put_master n (\<lambda>m. m\<lparr>cm_evicting_address := 0, cm_evicting_buf := None\<rparr>) s2) \<and>
      becomes fi k s (hv s2) (evb s) (dmap s2) (put_master n (\<lambda>m. m\<lparr>cm_evicting_address := 0, cm_evicting_buf := None\<rparr>) s2)"
    if f: "fold_opt ?f (cm_prev (h_masters s1 ! mst s1 n)) ((), s1) = Some ((), s2)"
      and b: "becomes fi k s (hv s2) ((evb s)(?x \<mapsto> (v, B'))) (dmap s2) s2" for B' s2
  proof -
    note v2 = becomes_view [OF b]
    have n2: "n < length (h_cntlrs s2)" using n v2(6) by simp
    have x2: "mst s2 n < length (h_masters s2)" using x v2 by simp
    have buf: "cm_evicting_buf (h_masters s2 ! mst s2 n) = Some B'"
      using v2(4,6) x2 by (auto simp: fun_eq_iff evb_def evicting_def dest!: spec [of _ ?x])
    have "fold_opt (\<lambda>p t. do { (h, b, t') \<leftarrow> updateCacheBlock (h_depth s) p v INVALID False t; Some t' })
        (cm_prev (h_masters s ! ?x)) s1 = Some s2"
      using f unfolding fold_opt_unit v1(6) prev by simp
    then have "back_invalidate n v B s = Some (B', put_master n (\<lambda>m. m\<lparr>cm_evicting_address := 0, cm_evicting_buf := None\<rparr>) s2)"
      using False buf by (simp add: back_invalidate_def cntlr_Some [OF good n] cntlr_Some [OF v2(1) n2] s1_def [symmetric] Let_def)
    moreover have "becomes fi k s2 (hv s2) (evb s) (dmap s2) (put_master n (\<lambda>m. m\<lparr>cm_evicting_address := 0, cm_evicting_buf := None\<rparr>) s2)"
      using put_master_becomes [OF v2(1) n2, of "\<lambda>m. m\<lparr>cm_evicting_address := 0, cm_evicting_buf := None\<rparr>"] good_live [OF v2(1) x2] v2(4,6) ev
        hv_mst [OF v2(1) n2, symmetric] by (simp add: evicting_def fun_upd_idem)
    ultimately show ?thesis using becomes_trans [OF b] by blast
  qed
  from loop show ?thesis
  proof
    assume none: "(\<exists>h. fold_opt ?f (cm_prev (h_masters s1 ! mst s1 n)) ((), s1) = Some (h, s1)) \<and>
      (\<forall>z. below s1 z (mst s1 n) \<longrightarrow> z \<noteq> mst s1 n \<longrightarrow> hv s1 z v = None)"
    have empty: "hv s z v = None" if "below s z ?x" for z using none that absent v1 by (cases "z = ?x") auto
    then have "cleared s ?x v (hv s) = hv s" by (rule cleared_idle)
    moreover have "hv s c v = None" if "h_par s c = Some ?x" for c using empty [OF below_step [OF that below_refl]] .
    ultimately show ?thesis using clear [of s1 B] none b1 v1(3,5) by auto
  next
    assume "\<exists>c st d h s'. h_par s1 c = Some (mst s1 n) \<and> hv s1 c v = Some (st, d) \<and> (st = SHARED \<longrightarrow> d = dv) \<and>
      fold_opt ?f (cm_prev (h_masters s1 ! mst s1 n)) ((), s1) = Some (h, s') \<and>
      becomes fi k s1 (cleared s1 c v (given_back s1 (mst s1 n) v st dv)) (given_buf s1 (mst s1 n) v st dv) (dmap s1) s' \<and>
      (\<forall>z. below s1 z (mst s1 n) \<longrightarrow> z \<noteq> mst s1 n \<longrightarrow> \<not> below s1 z c \<longrightarrow> hv s1 z v = None)"
    then obtain c st d s2 where c: "h_par s c = Some ?x" "hv s c v = Some (st, d)" "st = SHARED \<longrightarrow> d = dv"
      and f: "fold_opt ?f (cm_prev (h_masters s1 ! mst s1 n)) ((), s1) = Some ((), s2)"
      and b2: "becomes fi k s1 (cleared s1 c v (given_back s1 ?x v st dv)) (given_buf s1 ?x v st dv) (dmap s1) s2"
      and rest: "\<forall>z. below s z ?x \<longrightarrow> z \<noteq> ?x \<longrightarrow> \<not> below s z c \<longrightarrow> hv s z v = None"
      unfolding v1(3,6,7,8) by auto
    have "given_back s1 ?x v st dv = hv s" using v1(3,4) by (simp add: given_back_def)
    moreover have "cleared s1 c v (hv s) = cleared s ?x v (hv s)"
      using rest absent below_strict(2) [OF top c(1)] unfolding cleared_def v1(8) fun_eq_iff by auto
    moreover have "given_buf s1 ?x v st dv = (evb s)(?x \<mapsto> (v, if st = MODIFIED then buf_of s dv else B))"
      using v1(4) buf_of_cong [OF v1(10)] by (simp add: given_buf_def)
    ultimately have b: "becomes fi k s (cleared s ?x v (hv s)) ((evb s)(?x \<mapsto> (v, if st = MODIFIED then buf_of s dv else B))) (dmap s) s2"
      using becomes_trans [OF b1 b2] v1(5) by simp
    then show ?thesis
      using clear [OF f] becomes_view(3,5) [OF b] c by auto
  qed
qed

lemma coherent_below_cong:
  assumes "h_par s' = h_par s"
  shows "coherent_below s' = coherent_below s"
  unfolding fun_eq_iff coherent_below_def coherent_at_def included_at_def below_def assms by simp

lemma buf_of_val: "length (h_uninit s) = 2 ^ k \<Longrightarrow> length v = 2 ^ k \<Longrightarrow>
    length (buf_of s (val fi v)) = 2 ^ k \<and> (if fi then Some (buf_of s (val fi v)) else None) = val fi v"
  by (simp add: buf_of_def val_def)

text \<open>The write back of an evicted block.\<close>

definition evict_view :: "hier \<Rightarrow> nat \<Rightarrow> IntPtr \<Rightarrow> cstate \<Rightarrow> u8 list option \<Rightarrow> (nat \<Rightarrow> IntPtr \<Rightarrow> block_view option) \<Rightarrow> nat \<Rightarrow> IntPtr \<Rightarrow>
    block_view option" where
  "evict_view s x v st dv H = (\<lambda>z. if below s z x then (H z)(v := None)
     else if h_par s x = Some z \<and> st = MODIFIED then (H z)(v \<mapsto> (MODIFIED, dv)) else H z)"

definition evict_dram :: "bool \<Rightarrow> hier \<Rightarrow> nat \<Rightarrow> IntPtr \<Rightarrow> cstate \<Rightarrow> u8 list \<Rightarrow> IntPtr \<rightharpoonup> u8 list" where
  "evict_dram fi s x v st w = (if h_par s x = None \<and> st = MODIFIED \<and> fi then (dmap s)(v \<mapsto> w) else dmap s)"

lemma dispose_law:
  assumes good: "hgood fi k s" and n: "n < length (h_cntlrs s)" and v: "block_aligned k v" and ev: "\<And>z. evb s z = None"
    and st: "st = SHARED \<or> st = MODIFIED" and w: "length w = 2 ^ k" and B: "B = buf_of s (val fi w)"
    and up: "\<And>y. h_par s (mst s n) = Some y \<Longrightarrow> st = MODIFIED \<Longrightarrow> \<exists>d. hv s y v = Some (MODIFIED, d)"
    and root: "h_par s (mst s n) = None \<Longrightarrow> fi \<Longrightarrow> dmap s v \<noteq> None"
    and gone: "\<And>z. below s z (mst s n) \<Longrightarrow> hv s z v = None"
  shows "\<exists>s'. dispose_evicted n v st B s = Some s' \<and>
    becomes fi k s (evict_view s (mst s n) v st (val fi w) (hv s)) (evb s) (evict_dram fi s (mst s n) v st w) s'"
proof -
  let ?x = "mst s n"
  note t = topology_facts [OF good_topology [OF good] n]
  have len: "length B = 2 ^ k" "(if fi then Some B else None) = val fi w" "buf_of s (val fi w) = B"
    using buf_of_val [OF _ w, of s fi] good unfolding B hgood_def by blast+
  show ?thesis
  proof (cases "cc_next (h_cntlrs s ! n)")
    case (Some j)
    have par: "h_par s ?x = Some (mst s j)" using t(11) Some by simp
    note jl = topology_next(1) [OF good_topology [OF good] n Some]
    have dram: "evict_dram fi s ?x v st w = dmap s" using par by (simp add: evict_dram_def)
    have nb: "\<not> below s (mst s j) ?x" using below_strict(3) [OF good_topology [OF good] par below_refl] .
    show ?thesis
    proof (cases "st = MODIFIED")
      case True
      have tb: "takes_back s (mst s j) v MODIFIED" using ev up [OF par True] by (simp add: takes_back_def)
      have view: "given_back s (mst s j) v MODIFIED (val fi w) = evict_view s ?x v st (val fi w) (hv s)"
        using True ev gone par nb by (auto simp: given_back_def evict_view_def fun_eq_iff)
      have "given_buf s (mst s j) v MODIFIED (val fi w) = evb s" using ev by (simp add: given_buf_def)
      then show ?thesis
        using write_back_law [OF good jl v tb len t(7)] view True t Some dram
        by (auto simp: dispose_evicted_def cntlr_Some [OF good n])
    next
      case False
      then have "evict_view s ?x v st (val fi w) (hv s) = hv s" using gone by (auto simp: evict_view_def fun_eq_iff)
      then show ?thesis
        using False t Some becomes_refl [OF good] by (simp add: dispose_evicted_def cntlr_Some [OF good n] dram)
    qed
  next
    case None
    have par: "h_par s ?x = None" using t(11) None by simp
    have view: "evict_view s ?x v st (val fi w) (hv s) = hv s" using gone par by (auto simp: evict_view_def fun_eq_iff)
    note dc = topology_root(1) [OF good_topology [OF good] n None]
    show ?thesis
    proof (cases "st = MODIFIED")
      case True
      have dr: "dr_fault_injection (h_dram s) = fi" "dr_block_size (h_dram s) = 2 ^ k" "k < 32" using good by (simp_all add: hgood_def)
      have "unat (dr_block_size (h_dram s)) = 2 ^ k" using dr by (simp add: unat_exp)
      then obtain d where d: "putDataToDram v (Some B) (h_dram s) = Some (HW_DRAM, d)" "dr_fault_injection d = fi" "dr_block_size d = 2 ^ k"
          "dr_data_map d = (if fi then (dmap s)(v \<mapsto> B) else dmap s)"
        using root [OF par] dr len(1) by (cases fi) (auto simp: putDataToDram_def)
      have "dr_data_map d = evict_dram fi s ?x v st w"
        using d(4) par True len(2) by (auto simp: evict_dram_def val_def)
      then show ?thesis
        using set_dram_becomes [OF good d(2,3)] d(1) view True t None dc
        by (simp add: dispose_evicted_def cntlr_Some [OF good n] accessDRAM_def)
    next
      case False
      then have "evict_dram fi s ?x v st w = dmap s" by (simp add: evict_dram_def)
      then show ?thesis
        using False t None dc view becomes_refl [OF good] by (simp add: dispose_evicted_def cntlr_Some [OF good n])
    qed
  qed
qed

lemma evict_law:
  assumes good: "hgood fi k s" and n: "n < length (h_cntlrs s)" and v: "block_aligned k v" and ev: "\<And>z. evb s z = None"
    and coh: "coherent_block fi k s own (\<lambda>z. hv s z v) (dmap s v) w" and w: "length w = 2 ^ k"
    and at: "hv s (mst s n) v = Some (st, d)"
    and s2: "becomes fi k s H2 (evb s) (dmap s) s2" and H2: "\<And>z. H2 z v = (if z = mst s n then None else hv s z v)"
  shows "\<exists>B' s3 s4. back_invalidate n v (buf_of s d) s2 = Some (B', s3) \<and> dispose_evicted n v st B' s3 = Some s4 \<and>
    getCacheState n v s4 = Some INVALID \<and>
    becomes fi k s (evict_view s (mst s n) v st (val fi w) H2) (evb s) (evict_dram fi s (mst s n) v st w) s4 \<and>
    coherent_block fi k s own (\<lambda>z. evict_view s (mst s n) v st (val fi w) H2 z v) (evict_dram fi s (mst s n) v st w v) w"
proof -
  let ?x = "mst s n" and ?dv = "val fi w"
  note top = good_topology [OF good] and v2 = becomes_view [OF s2]
  have n2: "n < length (h_cntlrs s2)" and m2: "mst s2 n = ?x" using n v2(6) by simp_all
  have st: "st = SHARED \<or> st = MODIFIED" using coherent_holder(2) [OF coh at] .
  have "coherent_below s2 own (\<lambda>z. hv s2 z v) ?dv c" if "h_par s2 c = Some (mst s2 n)" for c
  proof -
    have c: "h_par s c = Some ?x" using that v2(7) m2 by simp
    show ?thesis
      unfolding coherent_below_cong [OF v2(7)] v2(3)
      by (rule coherent_below_local [OF coherent_block_below [OF coh]]) (use H2 below_strict(1) [OF top c] in auto)
  qed
  moreover have "hv s2 (mst s2 n) v = None" "\<And>z. evb s2 z = None" using H2 [of ?x] ev v2(3,4) m2 by simp_all
  ultimately obtain B' s3 where s3: "back_invalidate n v (buf_of s d) s2 = Some (B', s3)"
      "becomes fi k s2 (cleared s2 ?x v (hv s2)) (evb s2) (dmap s2) s3"
    and B': "B' = buf_of s d \<and> (\<forall>c. h_par s c = Some ?x \<longrightarrow> hv s2 c v = None) \<or>
     (\<exists>c st1 d1. h_par s c = Some ?x \<and> hv s2 c v = Some (st1, d1) \<and> (st1 = SHARED \<longrightarrow> d1 = ?dv) \<and>
        B' = (if st1 = MODIFIED then buf_of s2 ?dv else buf_of s d))"
    using back_invalidate_law [OF v2(1) n2 v, of own ?dv "buf_of s d"] unfolding m2 v2(7) by blast
  have child: "hv s2 c v = hv s c v" if "h_par s c = Some ?x" for c
    using H2 [of c] v2(3) below_strict(1) [OF top that below_refl] by simp
  have buf: "B' = buf_of s ?dv"
    using B'
  proof (elim disjE exE conjE)
    assume "B' = buf_of s d" "\<forall>c. h_par s c = Some ?x \<longrightarrow> hv s2 c v = None"
    then show ?thesis using coherent_holder(3) [OF coh at] child by auto
  next
    fix c st1 d1
    assume c: "h_par s c = Some ?x" "hv s2 c v = Some (st1, d1)" "st1 = SHARED \<longrightarrow> d1 = ?dv"
      "B' = (if st1 = MODIFIED then buf_of s2 ?dv else buf_of s d)"
    have hc: "hv s c v = Some (st1, d1)" using c(2) child [OF c(1)] by simp
    obtain st' d' where "hv s ?x v = Some (st', d')" "st1 = SHARED \<longrightarrow> d' = d1" using coherent_parent [OF coh hc c(1)] .
    then show ?thesis
      using c(3,4) at coherent_holder(2) [OF coh hc] buf_of_cong [OF v2(10)] by auto
  qed
  have b3: "becomes fi k s (cleared s ?x v H2) (evb s) (dmap s) s3"
    using becomes_trans [OF s2 s3(2)] v2(3,4,5,8) by (simp add: cleared_def)
  note v3 = becomes_view [OF b3]
  have n3: "n < length (h_cntlrs s3)" and m3: "mst s3 n = ?x" using n v3(6) by simp_all
  have up: "\<exists>d. hv s3 y v = Some (MODIFIED, d)" if y: "h_par s3 (mst s3 n) = Some y" "st = MODIFIED" for y
  proof -
    have y': "h_par s ?x = Some y" using y(1) v3(7) m3 by simp
    obtain st' d' where "hv s y v = Some (st', d')" "st = MODIFIED \<longrightarrow> st' = MODIFIED" using coherent_parent [OF coh at y'] .
    then show ?thesis
      using y(2) v3(3) H2 [of y] below_strict(3) [OF top y' below_refl] by (auto simp: cleared_def)
  qed
  have root: "dmap s3 v \<noteq> None" if "h_par s3 (mst s3 n) = None" fi
    using coherent_root [OF coh at] that v3(5,7) m3 by auto
  have gone: "hv s3 z v = None" if "below s3 z (mst s3 n)" for z
    using that unfolding v3(3,8) m3 by (simp add: cleared_def)
  have ev3: "evb s3 z = None" for z using ev v3(4) by simp
  obtain s4 where s4: "dispose_evicted n v st B' s3 = Some s4"
      "becomes fi k s3 (evict_view s3 (mst s3 n) v st ?dv (hv s3)) (evb s3) (evict_dram fi s3 (mst s3 n) v st w) s4"
    using dispose_law [OF v3(1) n3 v ev3 st w _ up root gone, of B'] buf buf_of_cong [OF v3(10)] by auto
  have view: "evict_view s3 (mst s3 n) v st ?dv (hv s3) = evict_view s ?x v st ?dv H2"
    unfolding evict_view_def v3(3,7,8) m3 by (auto simp: cleared_def fun_eq_iff)
  have dram: "evict_dram fi s3 (mst s3 n) v st w = evict_dram fi s ?x v st w"
    unfolding evict_dram_def v3(5,7) m3 ..
  have b4: "becomes fi k s (evict_view s ?x v st ?dv H2) (evb s) (evict_dram fi s ?x v st w) s4"
    using becomes_trans [OF b3 s4(2)] view dram v3(4) by simp
  note v4 = becomes_view [OF b4]
  have "getCacheState n v s4 = Some INVALID"
    using state_law [OF v4(1) _ v, of n] n v4(3,6) by (simp add: evict_view_def)
  moreover have "coherent_block fi k s own (\<lambda>z. evict_view s ?x v st ?dv H2 z v) (evict_dram fi s ?x v st w v) w"
  proof (cases "h_par s ?x")
    case (Some y)
    have "(\<lambda>z. evict_view s ?x v st ?dv H2 z v) = (\<lambda>z. if below s z ?x then None else if z = y \<and> st = MODIFIED then Some (MODIFIED, ?dv) else hv s z v)"
      using Some H2 by (auto simp: evict_view_def fun_eq_iff)
    then show ?thesis using coherent_evict [OF top coh at Some] Some by (simp add: evict_dram_def)
  next
    case None
    have "(\<lambda>z. evict_view s ?x v st ?dv H2 z v) = (\<lambda>z. if below s z ?x then None else hv s z v)"
      using None H2 by (auto simp: evict_view_def fun_eq_iff)
    then show ?thesis
      using coherent_evict_root [OF coh top at None, of "evict_dram fi s ?x v st w v"] None by (simp add: evict_dram_def)
  qed
  ultimately show ?thesis using s3(1) s4(1) b4 by blast
qed

section \<open>Insertion\<close>

text \<open>The hierarchy represents the memory \<open>V\<close>; the block at \<open>a\<close> is accessed through the cache \<open>own a\<close>.\<close>

definition mem_inv :: "bool \<Rightarrow> nat \<Rightarrow> (IntPtr \<Rightarrow> nat) \<Rightarrow> (IntPtr \<Rightarrow> u8 list) \<Rightarrow> hier \<Rightarrow> bool" where
  "mem_inv fi k own V s \<longleftrightarrow> hgood fi k s \<and> (\<forall>x. evb s x = None) \<and>
     (\<forall>a. block_aligned k a \<longrightarrow> length (V a) = 2 ^ k \<and> coherent_block fi k s (own a) (\<lambda>x. hv s x a) (dmap s a) (V a))"

lemma mem_inv_coherent:
  assumes "mem_inv fi k own V s"
  shows "hgood fi k s" "evb s x = None" "block_aligned k a \<Longrightarrow> length (V a) = 2 ^ k"
    "block_aligned k a \<Longrightarrow> coherent_block fi k s (own a) (\<lambda>x. hv s x a) (dmap s a) (V a)"
  using assms by (simp_all add: mem_inv_def)

lemma mem_inv_becomes:
  assumes inv: "mem_inv fi k own V s" and b: "becomes fi k s H (evb s) D s'" and V': "\<And>a. block_aligned k a \<Longrightarrow> length (V' a) = 2 ^ k"
    and coh: "\<And>a. block_aligned k a \<Longrightarrow> coherent_block fi k s (own a) (\<lambda>x. H x a) (D a) (V' a)"
  shows "mem_inv fi k own V' s'"
  using inv V' coh unfolding mem_inv_def becomes_view(3,4,5) [OF b] coherent_block_cong [OF becomes_view(7) [OF b]]
  using becomes_view(1) [OF b] by blast

lemma mem_inv_same:
  assumes "mem_inv fi k own V s" and "becomes fi k s (hv s) (evb s) (dmap s) s'"
  shows "mem_inv fi k own V s'"
  using mem_inv_becomes [OF assms(1,2)] mem_inv_coherent [OF assms(1)] by blast

lemma insert_cache_law:
  assumes good: "hgood fi k s" and n: "n < length (h_cntlrs s)" and a: "block_aligned k a" and absent: "hv s (mst s n) a = None"
    and w: "length w = 2 ^ k"
  shows "\<exists>r v c' s2. insertSingleLine a (Some (buf_of s (val fi w))) (CacheBlockInfo_create SHARED_CACHE)
        (Some (isInLowerLevelCache n s)) (cm_cache (h_masters s ! mst s n)) = Some (r, v, c') \<and>
    do { s1 \<leftarrow> setCacheState n a st (put_cache n c' s);
         if h_cache_only s then do { (cc1, m1) \<leftarrow> cntlr n s1; pos \<leftarrow> peekSingleLine a (cm_cache m1); p \<leftarrow> pos; set_line n p (setOption WARMUP) s1 }
         else Some s1 } = Some s2 \<and>
    becomes fi k s ((hv s)(mst s n := (if ins_eviction r then (hv s (mst s n))(v := None) else hv s (mst s n))(a \<mapsto> (st, val fi w))))
      (evb s) (dmap s) s2 \<and>
    (ins_eviction r \<longrightarrow> block_aligned k v \<and> v \<noteq> a \<and> hv s (mst s n) v = Some (bi_cstate (ins_evict_info r), ins_evict_buff r))"
proof -
  let ?x = "mst s n" and ?c = "cm_cache (h_masters s ! mst s n)"
  have x: "?x < length (h_masters s)" using topology_facts(1) [OF good_topology [OF good] n] .
  have u: "length (h_uninit s) = 2 ^ k" using good by (simp add: hgood_def)
  have fill: "length (buf_of s (val fi w)) = 2 ^ k" "(if fi then Some (buf_of s (val fi w)) else None) = val fi w"
    using buf_of_val [OF u w] by blast+
  have absent': "block_at ?c a = None" using absent hv_mst [OF good n] by simp
  obtain r v c' where c': "insertSingleLine a (Some (buf_of s (val fi w))) (CacheBlockInfo_create SHARED_CACHE)
        (Some (isInLowerLevelCache n s)) ?c = Some (r, v, c')" "block_live fi k c'"
      "block_at c' = (if ins_eviction r then (hv s ?x)(v := None) else hv s ?x)(a \<mapsto> (INVALID, val fi w))"
      "ins_eviction r \<longrightarrow> block_aligned k v \<and> v \<noteq> a \<and> hv s ?x v = Some (bi_cstate (ins_evict_info r), ins_evict_buff r)"
    using insert_block [OF good_live [OF good x] a absent' fill(1), of "CacheBlockInfo_create SHARED_CACHE" "Some (isInLowerLevelCache n s)"]
    unfolding fill(2) hv_mst [OF good n, symmetric] by blast
  note b0 = put_cache_becomes [OF good n c'(2)]
  note v0 = becomes_view [OF b0]
  have n0: "n < length (h_cntlrs (put_cache n c' s))" using n v0(6) by simp
  have at0: "hv (put_cache n c' s) (mst (put_cache n c' s) n) a = Some (INVALID, val fi w)" using v0(3,6) c'(3) by simp
  obtain s1 where s1: "setCacheState n a st (put_cache n c' s) = Some s1"
      "becomes fi k (put_cache n c' s) ((hv (put_cache n c' s))(?x := (hv (put_cache n c' s) ?x)(a \<mapsto> (st, val fi w)))) (evb s) (dmap s) s1"
    using setCacheState_law [OF v0(1) n0 a at0, of st] v0(4,5,6) by auto
  have "(hv (put_cache n c' s))(?x := (hv (put_cache n c' s) ?x)(a \<mapsto> (st, val fi w))) =
      (hv s)(?x := (if ins_eviction r then (hv s ?x)(v := None) else hv s ?x)(a \<mapsto> (st, val fi w)))"
    unfolding v0(3) c'(3) by simp
  then have b1: "becomes fi k s ((hv s)(?x := (if ins_eviction r then (hv s ?x)(v := None) else hv s ?x)(a \<mapsto> (st, val fi w))))
      (evb s) (dmap s) s1"
    using becomes_trans [OF b0 s1(2)] by simp
  note v1 = becomes_view [OF b1]
  have n1: "n < length (h_cntlrs s1)" using n v1(6) by simp
  have at1: "hv s1 (mst s1 n) a = Some (st, val fi w)" using v1(3,6) by simp
  obtain p where p: "peekSingleLine a (cm_cache (h_masters s1 ! mst s1 n)) = Some (Some p)" using peek_present [OF v1(1) n1 a at1] .
  obtain s2 where s2: "set_line n p (setOption WARMUP) s1 = Some s2" "becomes fi k s1 (hv s1) (evb s1) (dmap s1) s2"
    using set_options_law [OF v1(1) n1 a p, of "setOption WARMUP"] by auto
  have b2: "becomes fi k s (hv s1) (evb s) (dmap s) s2" using becomes_trans [OF b1 s2(2)] v1(4,5) by simp
  show ?thesis
  proof (cases "h_cache_only s")
    case True
    then show ?thesis
      using c'(1,4) s1(1) s2(1) b2 p unfolding v1(3) by (auto simp: cntlr_Some [OF v1(1) n1])
  next
    case False
    then show ?thesis using c'(1,4) s1(1) b1 by auto
  qed
qed

lemma insert_law:
  assumes inv: "mem_inv fi k own V s" and n: "n < length (h_cntlrs s)" and a: "block_aligned k a" and absent: "hv s (mst s n) a = None"
    and own: "below s (own a) (mst s n)" and st: "st = SHARED \<or> st = MODIFIED"
    and par: "\<And>y. h_par s (mst s n) = Some y \<Longrightarrow> \<exists>st'. hv s y a = Some (st', val fi (V a)) \<and> (st = MODIFIED \<longrightarrow> st' = MODIFIED)"
    and root: "h_par s (mst s n) = None \<Longrightarrow> fi \<Longrightarrow> dmap s a = Some (V a)" and buf: "b = buf_of s (val fi (V a))"
  shows "\<exists>s'. insertCacheBlock n a st (Some b) s = Some s' \<and> mem_inv fi k own V s' \<and> fixed s' = fixed s \<and>
    hv s' (mst s n) a = Some (st, val fi (V a)) \<and> (\<forall>z. z \<noteq> mst s n \<longrightarrow> hv s' z a = hv s z a)"
proof -
  let ?x = "mst s n"
  note good = mem_inv_coherent(1) [OF inv] and ev = mem_inv_coherent(2) [OF inv] and len = mem_inv_coherent(3) [OF inv]
    and coh = mem_inv_coherent(4) [OF inv]
  note top = good_topology [OF good]
  obtain r v c' s2 where c': "insertSingleLine a (Some b) (CacheBlockInfo_create SHARED_CACHE)
        (Some (isInLowerLevelCache n s)) (cm_cache (h_masters s ! mst s n)) = Some (r, v, c')"
    and s2: "do { s1 \<leftarrow> setCacheState n a st (put_cache n c' s);
         if h_cache_only s then do { (cc1, m1) \<leftarrow> cntlr n s1; pos \<leftarrow> peekSingleLine a (cm_cache m1); p \<leftarrow> pos; set_line n p (setOption WARMUP) s1 }
         else Some s1 } = Some s2"
    and b2: "becomes fi k s ((hv s)(?x := (if ins_eviction r then (hv s ?x)(v := None) else hv s ?x)(a \<mapsto> (st, val fi (V a)))))
      (evb s) (dmap s) s2"
    and evd: "ins_eviction r \<longrightarrow> block_aligned k v \<and> v \<noteq> a \<and> hv s ?x v = Some (bi_cstate (ins_evict_info r), ins_evict_buff r)"
    using insert_cache_law [OF good n a absent len [OF a], of st] unfolding buf by blast
  have new: "coherent_block fi k s (own a) ((\<lambda>z. hv s z a)(?x \<mapsto> (st, val fi (V a)))) (dmap s a) (V a)"
    by (rule coherent_insert [OF top coh [OF a] absent own st par root])
  have start: "insertCacheBlock n a st (Some b) s = (if ins_eviction r
     then do {
       (evict_buf, s3) \<leftarrow> back_invalidate n v (buf_of s (ins_evict_buff r)) s2;
       s4 \<leftarrow> dispose_evicted n v (bi_cstate (ins_evict_info r)) evict_buf s3;
       st' \<leftarrow> getCacheState n v s4;
       ensure (st' = INVALID);
       Some s4
     }
     else Some s2)"
    using c' s2 absent by (auto simp: insertCacheBlock_def cntlr_Some [OF good n] state_law [OF good n a] buf_of_def abort_simps)
  show ?thesis
  proof (cases "ins_eviction r")
    case False
    note v2 = becomes_view [OF b2]
    have "mem_inv fi k own V s2"
    proof (rule mem_inv_becomes [OF inv b2 len])
      fix c
      assume c: "block_aligned k c"
      have "(\<lambda>z. ((hv s)(?x := (if ins_eviction r then (hv s ?x)(v := None) else hv s ?x)(a \<mapsto> (st, val fi (V a))))) z c) =
          (if c = a then (\<lambda>z. hv s z a)(?x \<mapsto> (st, val fi (V a))) else (\<lambda>z. hv s z c))"
        using False by (auto simp: fun_eq_iff)
      then show "coherent_block fi k s (own c) (\<lambda>z. ((hv s)(?x := (if ins_eviction r then (hv s ?x)(v := None) else hv s ?x)
          (a \<mapsto> (st, val fi (V a))))) z c) (dmap s c) (V c)"
        using new coh [OF c] by (simp only:) simp
    qed
    then show ?thesis using start False v2(2,3) by simp
  next
    case True
    let ?st = "bi_cstate (ins_evict_info r)" and ?d = "ins_evict_buff r"
      and ?H2 = "(hv s)(?x := ((hv s ?x)(v := None))(a \<mapsto> (st, val fi (V a))))"
    have v: "block_aligned k v" "v \<noteq> a" "hv s ?x v = Some (?st, ?d)" using evd True by blast+
    have b2': "becomes fi k s ?H2 (evb s) (dmap s) s2" using b2 True by simp
    have H2: "?H2 z v = (if z = ?x then None else hv s z v)" for z using v(2) by simp
    obtain B' s3 s4 where s4: "back_invalidate n v (buf_of s ?d) s2 = Some (B', s3)" "dispose_evicted n v ?st B' s3 = Some s4"
        "getCacheState n v s4 = Some INVALID"
      and b4: "becomes fi k s (evict_view s ?x v ?st (val fi (V v)) ?H2) (evb s) (evict_dram fi s ?x v ?st (V v)) s4"
      and cv: "coherent_block fi k s (own v) (\<lambda>z. evict_view s ?x v ?st (val fi (V v)) ?H2 z v) (evict_dram fi s ?x v ?st (V v) v) (V v)"
      using evict_law [OF good n v(1) ev coh [OF v(1)] len [OF v(1)] v(3) b2' H2] by blast
    note v4 = becomes_view [OF b4]
    have view: "evict_view s ?x v ?st (val fi (V v)) ?H2 z c = ?H2 z c" "evict_dram fi s ?x v ?st (V v) c = dmap s c" if "c \<noteq> v" for z c
      using that by (auto simp: evict_view_def evict_dram_def)
    have "mem_inv fi k own V s4"
    proof (rule mem_inv_becomes [OF inv b4 len])
      fix c
      assume c: "block_aligned k c"
      show "coherent_block fi k s (own c) (\<lambda>z. evict_view s ?x v ?st (val fi (V v)) ?H2 z c) (evict_dram fi s ?x v ?st (V v) c) (V c)"
      proof (cases "c = v")
        case False
        have "(\<lambda>z. ?H2 z c) = (if c = a then (\<lambda>z. hv s z a)(?x \<mapsto> (st, val fi (V a))) else (\<lambda>z. hv s z c))"
          using False by (auto simp: fun_eq_iff)
        then show ?thesis unfolding view [OF False] using new coh [OF c] by (simp only:) simp
      qed (use cv in simp)
    qed
    then show ?thesis
      using start True s4 v4(2,3) view(1) v(2) by simp
  qed
qed

end
