(* ===== verification/HierarchyFlat.thy ===== *)
theory HierarchyFlat
  imports HierarchyMem
begin

text \<open>
  Requests through the hierarchy: every read and write of a core returns, and the hierarchy behaves like a flat memory.
\<close>

section \<open>Requests of the previous level\<close>

definition idle_below :: "hier \<Rightarrow> nat \<Rightarrow> IntPtr \<Rightarrow> bool" where
  "idle_below s x a \<longleftrightarrow> (\<forall>z. below s z x \<longrightarrow> z \<noteq> x \<longrightarrow> hv s z a = None)"

lemma idle_below_child: "topology k s \<Longrightarrow> idle_below s x a \<Longrightarrow> h_par s c = Some x \<Longrightarrow> hv s c a = None"
  unfolding idle_below_def using below_strict(1,2) [OF _ _ below_refl] by blast

lemma idle_below_current:
  assumes inv: "mem_inv fi k own V s" and a: "block_aligned k a" and idle: "idle_below s x a" and at: "hv s x a = Some (st, d)"
  shows "d = val fi (V a)" "st = SHARED \<or> st = MODIFIED"
  using coherent_holder(2,3) [OF mem_inv_coherent(4) [OF inv a] at] idle_below_child [OF good_topology [OF mem_inv_coherent(1) [OF inv]] idle]
  by blast+

text \<open>Below the parent of a cache on the path, only the cache itself can hold the block.\<close>

lemma idle_below_parent:
  assumes inv: "mem_inv fi k own V s" and a: "block_aligned k a" and own: "below s (own a) x" and par: "h_par s x = Some y"
    and idle: "idle_below s x a" and absent: "hv s x a = None"
  shows "idle_below s y a"
  unfolding idle_below_def
proof (intro allI impI)
  fix z
  assume z: "below s z y" "z \<noteq> y"
  show "hv s z a = None"
  proof (rule ccontr)
    assume "hv s z a \<noteq> None"
    then have "below s (own a) z" using coherent_holder(1) [OF mem_inv_coherent(4) [OF inv a]] by fastforce
    then consider "below s z x" | "below s x z" using below_linear own by blast
    then show False
    proof cases
      case 1
      then show ?thesis using idle absent \<open>hv s z a \<noteq> None\<close> unfolding idle_below_def by metis
    next
      case 2
      then have "z = x \<or> below s y z" using par by (auto elim: below_cases)
      moreover have "\<not> below s y z"
        using z below_rank [OF good_topology [OF mem_inv_coherent(1) [OF inv]], of y z]
          below_rank [OF good_topology [OF mem_inv_coherent(1) [OF inv]] z(1)] by auto
      ultimately show ?thesis using absent \<open>hv s z a \<noteq> None\<close> by blast
    qed
  qed
qed

lemma siblings_idle:
  assumes good: "hgood fi k s" and n: "n < length (h_cntlrs s)" and a: "block_aligned k a" and idle: "idle_below s (mst s n) a"
    and new: "new = INVALID \<or> new = SHARED"
  shows "update_siblings n req a new s = Some (False, s)"
proof -
  note top = good_topology [OF good]
  have "updateCacheBlock (h_depth s) p a new False s = Some (False, None, s)" if p: "p \<in> set (cm_prev (h_masters s ! mst s n))" for p
  proof -
    note t = topology_prev [OF top topology_facts(1) [OF top n] p]
    have "lev s p < h_depth s + 2" using topology_facts(10) [OF top t(1)] by (simp add: h_depth_def)
    then show ?thesis
      using update_absent [OF good a new t(1)] idle below_strict [OF top t(2)] unfolding idle_below_def by blast
  qed
  then show ?thesis
    by (auto simp: update_siblings_def cntlr_Some [OF good n] intro!: fold_opt_idle)
qed

lemma updateCounters_live:
  "block_live fi k (updateCounters h c) = block_live fi k c" "block_at (updateCounters h c) = block_at c"
  by (auto simp: updateCounters_def block_live_def placed_def block_at_def fun_eq_iff)

lemma count_becomes:
  assumes good: "hgood fi k s" and n: "n < length (h_cntlrs s)"
  shows "becomes fi k s (hv s) (evb s) (dmap s)
    (if b then put_master n (\<lambda>m. m\<lparr>cm_cache := updateCounters h (cm_cache m)\<rparr>) s else s)"
proof -
  let ?m = "h_masters s ! mst s n"
  have x: "mst s n < length (h_masters s)" using topology_facts(1) [OF good_topology [OF good] n] .
  have "evicting (?m\<lparr>cm_cache := updateCounters h (cm_cache ?m)\<rparr>) = evb s (mst s n)" using x by (simp add: evb_def evicting_def)
  moreover have "block_at (cm_cache (?m\<lparr>cm_cache := updateCounters h (cm_cache ?m)\<rparr>)) = hv s (mst s n)"
    by (simp add: updateCounters_live hv_mst [OF good n])
  ultimately show ?thesis
    using put_master_becomes [OF good n, of "\<lambda>m. m\<lparr>cm_cache := updateCounters h (cm_cache m)\<rparr>"] good_live [OF good x] becomes_refl [OF good]
    by (simp add: updateCounters_live)
qed

definition permits :: "mem_op_t \<Rightarrow> block_view option \<Rightarrow> bool" where
  "permits op b = (case op of READ \<Rightarrow> readable (view_state b) | _ \<Rightarrow> writable (view_state b))"

lemma permits_iff:
  assumes "\<And>st d. b = Some (st, d) \<Longrightarrow> st = SHARED \<or> st = MODIFIED"
  shows "permits op b \<longleftrightarrow> (\<exists>st d. b = Some (st, d) \<and> (op \<noteq> READ \<longrightarrow> st = MODIFIED))"
proof (cases b)
  case (Some c)
  then obtain st d where "b = Some (st, d)" by (cases c) auto
  then show ?thesis using assms by (auto simp: permits_def split: mem_op_t.split)
qed (auto simp: permits_def split: mem_op_t.split)

lemma permits_law:
  assumes "hgood fi k s" and "n < length (h_cntlrs s)" and "block_aligned k a"
  shows "operationPermissibleinCache n a op s = Some (permits op (hv s (mst s n) a))"
  by (simp add: permissible_law [OF assms] permits_def)

lemma lookup_law:
  assumes good: "hgood fi k s" and n: "n < length (h_cntlrs s)" and a: "block_aligned k a"
  shows "\<exists>s'. shmem_lookup n op a count pf ocm s = Some (permits op (hv s (mst s n) a), permits op (hv s (mst s n) a), s') \<and>
    becomes fi k s (hv s) (evb s) (dmap s) s'"
proof -
  note t = topology_facts [OF good_topology [OF good] n]
  obtain pos where "peekSingleLine a (cm_cache (h_masters s ! mst s n)) = Some pos" using peek_law [OF good n a] by blast
  then show ?thesis
    using t count_becomes [OF good n, of "count \<and> pf = PF_NONE" "permits op (hv s (mst s n) a)"]
    by (auto simp: shmem_lookup_def cntlr_Some [OF good n] permits_law [OF good n a] split: if_splits)
qed

lemma options_law:
  assumes good: "hgood fi k s" and n: "n < length (h_cntlrs s)" and a: "block_aligned k a"
    and p: "peekSingleLine a (cm_cache (h_masters s ! mst s n)) = Some (Some p)"
    and f: "\<And>l. bi_tag (f l) = bi_tag l" "\<And>l. bi_cstate (f l) = bi_cstate l"
  shows "\<exists>s'. (if b then set_line n p f s else Some s) = Some s' \<and> becomes fi k s (hv s) (evb s) (dmap s) s' \<and>
    peekSingleLine a (cm_cache (h_masters s' ! mst s n)) = Some (Some p) \<and> h_last_remote s' = h_last_remote s"
proof (cases b)
  case True
  have "h_last_remote s' = h_last_remote s" if "set_line n p f s = Some s'" for s'
    using that by (auto simp: set_line_def cntlr_Some [OF good n] put_cache_def put_master_def)
  then show ?thesis using set_options_law [OF good n a p, of f] f True by auto
qed (use becomes_refl [OF good] p in auto)

lemma hit_law:
  assumes good: "hgood fi k s" and n: "n < length (h_cntlrs s)" and a: "block_aligned k a" and idle: "idle_below s (mst s n) a"
    and at: "hv s (mst s n) a = Some (st, d)"
  shows "\<exists>w s'. shmem_hit n req op a pf s = Some (w, s') \<and> w \<noteq> HW_MISS \<and> becomes fi k s (hv s) (evb s) (dmap s) s'"
proof -
  let ?line = "\<lambda>p. line_at p (cm_cache (h_masters s ! mst s n))"
  obtain p where p: "peekSingleLine a (cm_cache (h_masters s ! mst s n)) = Some (Some p)" using peek_present [OF good n a at] .
  obtain s1 where s1: "(if pf = PF_NONE \<and> hasOption PREFETCH (?line p) then set_line n p (clearOption PREFETCH) s else Some s) = Some s1"
      "becomes fi k s (hv s) (evb s) (dmap s) s1" "peekSingleLine a (cm_cache (h_masters s1 ! mst s n)) = Some (Some p)"
    using options_law [OF good n a p, of "clearOption PREFETCH"] by auto
  note v1 = becomes_view [OF s1(2)]
  have n1: "n < length (h_cntlrs s1)" and p1: "peekSingleLine a (cm_cache (h_masters s1 ! mst s1 n)) = Some (Some p)"
    using n v1(6) s1(3) by simp_all
  obtain s2 where s2: "(if hasOption WARMUP (?line p) \<and> \<not> h_cache_only s then set_line n p (clearOption WARMUP) s1 else Some s1) = Some s2"
      "becomes fi k s1 (hv s1) (evb s1) (dmap s1) s2"
    using options_law [OF v1(1) n1 a p1, of "clearOption WARMUP" "hasOption WARMUP (?line p) \<and> \<not> h_cache_only s"] by auto
  have b2: "becomes fi k s (hv s) (evb s) (dmap s) s2" using becomes_trans [OF s1(2) s2(2)] v1(3-5) by simp
  note v2 = becomes_view [OF b2]
  have n2: "n < length (h_cntlrs s2)" and idle2: "idle_below s2 (mst s2 n) a"
    using n idle v2(3,6,8) by (simp_all add: idle_below_def)
  have sib: "update_siblings n req a new s2 = Some (False, s2)" if "new = INVALID \<or> new = SHARED" for new
    using siblings_idle [OF v2(1) n2 a idle2 that] .
  have "(if op \<noteq> READ then update_siblings n req a INVALID s2
      else if bi_cstate (?line p) = MODIFIED \<or> bi_cstate (?line p) = EXCLUSIVE then update_siblings n req a SHARED s2
      else Some (False, s2)) = Some (False, s2)"
    using sib by auto
  then have eq: "shmem_hit n req op a pf s = (if h_last_remote s2 n \<noteq> HW_UNKNOWN
      then Some (h_last_remote s2 n, s2\<lparr>h_last_remote := (h_last_remote s2)(n := HW_UNKNOWN)\<rparr>) else Some (lev s n, s2))"
    using s1(1) s2(1) p by (simp add: shmem_hit_def cntlr_Some [OF good n] Let_def)
  have "h_last_remote s2 n \<noteq> HW_MISS" using v2(1) by (simp add: hgood_def)
  moreover have "becomes fi k s (hv s) (evb s) (dmap s) (s2\<lparr>h_last_remote := (h_last_remote s2)(n := HW_UNKNOWN)\<rparr>)"
    using becomes_trans [OF b2 set_remote_becomes [OF v2(1)]] v2(3-5) by simp
  ultimately show ?thesis
    using b2 topology_facts(9) [OF good_topology [OF good] n] unfolding eq by (auto split: if_splits)
qed

lemma copy_law:
  assumes inv: "mem_inv fi k own V s" and n: "n < length (h_cntlrs s)" and a: "block_aligned k a" and j: "cc_next (h_cntlrs s ! n) = Some j"
    and own: "below s (own a) (mst s n)" and absent: "hv s (mst s n) a = None" and idle: "idle_below s (mst s j) a"
    and at: "hv s (mst s j) a = Some (st, d)" and op: "op \<noteq> READ \<longrightarrow> st = MODIFIED"
  shows "\<exists>s'. copyDataFromNextLevel n op a s = Some s' \<and> mem_inv fi k own V s' \<and> fixed s' = fixed s \<and>
    hv s' (mst s n) a = Some (st, val fi (V a)) \<and> (\<forall>z. z \<noteq> mst s n \<longrightarrow> hv s' z a = hv s z a)"
proof -
  note good = mem_inv_coherent(1) [OF inv]
  note jn = topology_next [OF good_topology [OF good] n j]
  have d: "d = val fi (V a)" "st = SHARED \<or> st = MODIFIED" using idle_below_current [OF inv a idle at] by blast+
  obtain s1 where s1: "retrieveCacheBlock j a False s = Some (buf_of s d, s1)" "becomes fi k s (hv s) (evb s) (dmap s) s1"
    using retrieve_law [OF good jn(1) a at] by blast
  note v1 = becomes_view [OF s1(2)]
  have n1: "n < length (h_cntlrs s1)" and j1: "j < length (h_cntlrs s1)" using n jn(1) v1(6) by simp_all
  have st1: "getCacheState j a s1 = Some st" using state_law [OF v1(1) j1 a] at v1(3,6) by simp
  have peek: "peekSingleLine a (cm_cache (h_masters s1 ! mst s1 n)) = Some None"
    using peek_absent [OF v1(1) n1 a] absent v1(3,6) by simp
  have perm: "operationPermissibleinCache j a op s = Some True"
    using permits_law [OF good jn(1) a, of op] permits_iff [of "hv s (mst s j) a" op] at d(2) op by auto
  have "copyDataFromNextLevel n op a s = insertCacheBlock n a st (Some (buf_of s d)) s1"
    using j perm s1(1) st1 peek by (simp add: copyDataFromNextLevel_def cntlr_Some [OF good n] cntlr_Some [OF v1(1) n1])
  moreover have "\<exists>s'. insertCacheBlock n a st (Some (buf_of s d)) s1 = Some s' \<and> mem_inv fi k own V s' \<and> fixed s' = fixed s1 \<and>
      hv s' (mst s1 n) a = Some (st, val fi (V a)) \<and> (\<forall>z. z \<noteq> mst s1 n \<longrightarrow> hv s' z a = hv s1 z a)"
  proof (rule insert_law [OF mem_inv_same [OF inv s1(2)] n1 a _ _ d(2)])
    show "hv s1 (mst s1 n) a = None" "below s1 (own a) (mst s1 n)" using absent own v1(3,6,8) by simp_all
    show "\<exists>st'. hv s1 y a = Some (st', val fi (V a)) \<and> (st = MODIFIED \<longrightarrow> st' = MODIFIED)" if "h_par s1 (mst s1 n) = Some y" for y
      using that jn(3) at d(1) v1(3,6,7) by simp
    show "dmap s1 a = Some (V a)" if "h_par s1 (mst s1 n) = None" using that jn(3) v1(6,7) by simp
    show "buf_of s d = buf_of s1 (val fi (V a))" using d(1) buf_of_cong [OF v1(10)] by simp
  qed
  ultimately show ?thesis using v1(2,3,6) by simp
qed

text \<open>What a request to a cache on the path of the owner achieves.\<close>

definition brings :: "bool \<Rightarrow> nat \<Rightarrow> (IntPtr \<Rightarrow> nat) \<Rightarrow> (IntPtr \<Rightarrow> u8 list) \<Rightarrow> mem_op_t \<Rightarrow> IntPtr \<Rightarrow> nat \<Rightarrow> hier \<Rightarrow> hier \<Rightarrow> bool" where
  "brings fi k own V op a x s s' \<longleftrightarrow> mem_inv fi k own V s' \<and> fixed s' = fixed s \<and> idle_below s' x a \<and>
     (\<exists>st. hv s' x a = Some (st, val fi (V a)) \<and> (op \<noteq> READ \<longrightarrow> st = MODIFIED))"

lemma brings_same:
  assumes "brings fi k own V op a x s s'" and b: "becomes fi k s' (hv s') (evb s') (dmap s') s''"
  shows "brings fi k own V op a x s s''"
  using assms(1) mem_inv_same [OF _ b, of own V] becomes_view(2,3,8) [OF b] unfolding brings_def idle_below_def by metis

lemma prefetch_flag_law:
  assumes good: "hgood fi k s" and n: "n < length (h_cntlrs s)" and a: "block_aligned k a" and at: "hv s (mst s n) a = Some (st, d)"
  shows "\<exists>s'. (if b then do { (cc, m) \<leftarrow> cntlr n s; q \<leftarrow> peekSingleLine a (cm_cache m); p \<leftarrow> q; set_line n p (setOption PREFETCH) s } else Some s) = Some s' \<and>
    becomes fi k s (hv s) (evb s) (dmap s) s'"
proof -
  obtain p where p: "peekSingleLine a (cm_cache (h_masters s ! mst s n)) = Some (Some p)" using peek_present [OF good n a at] .
  show ?thesis
    using set_options_law [OF good n a p, of "setOption PREFETCH"] p becomes_refl [OF good] by (auto simp: cntlr_Some [OF good n])
qed

lemma dram_read_law:
  assumes inv: "mem_inv fi k own V s" and a: "block_aligned k a" and nobody: "\<And>x. hv s x a = None"
  shows "\<exists>s'. accessDRAM READ a (h_uninit s) s = Some (HW_DRAM, buf_of s (val fi (V a)), s') \<and> mem_inv fi k own V s' \<and>
    becomes fi k s (hv s) (evb s) (dmap s') s' \<and> (fi \<longrightarrow> dmap s' a = Some (V a))"
proof -
  note good = mem_inv_coherent(1) [OF inv] and coh = mem_inv_coherent(4) [OF inv]
  have dr: "dr_fault_injection (h_dram s) = fi" "dr_block_size (h_dram s) = 2 ^ k" "unat (dr_block_size (h_dram s)) = 2 ^ k"
    using good by (auto simp: hgood_def unat_exp)
  have dval: "fi \<Longrightarrow> dram_value k (dmap s a) = V a"
    using coh [OF a] nobody unfolding coherent_block_def by blast
  obtain buf w d where get: "getDataFromDram a (h_uninit s) (h_dram s) = (buf, w, d)" by (metis prod_cases3)
  have g: "w = HW_DRAM" "buf = buf_of s (val fi (V a))" "dr_fault_injection d = fi" "dr_block_size d = 2 ^ k"
      "dr_data_map d = (if fi then (dmap s)(a \<mapsto> V a) else dmap s)"
    using get dval dr by (auto simp: getDataFromDram_def Let_def buf_of_def val_def dram_value_def fun_upd_idem split: if_splits option.splits)
  define s' where "s' = s\<lparr>h_dram := d\<rparr>"
  have b: "becomes fi k s (hv s) (evb s) (dr_data_map d) s'" unfolding s'_def by (rule set_dram_becomes [OF good g(3,4)])
  have "mem_inv fi k own V s'"
  proof (rule mem_inv_becomes [OF inv b mem_inv_coherent(3) [OF inv]])
    fix c
    assume c: "block_aligned k c"
    show "coherent_block fi k s (own c) (\<lambda>x. hv s x c) (dr_data_map d c) (V c)"
    proof (cases "c = a \<and> fi")
      case True
      then show ?thesis
        using g(5) nobody by (simp add: coherent_block_def coherent_at_def included_at_def dram_value_def)
    next
      case False
      then have "dr_data_map d c = dmap s c" using g(5) by auto
      then show ?thesis using coh [OF c] by simp
    qed
  qed
  then show ?thesis
    using b get g by (auto simp: accessDRAM_def s'_def)
qed

lemma last_level_law:
  assumes inv: "mem_inv fi k own V s" and n: "n < length (h_cntlrs s)" and a: "block_aligned k a" and next_level: "cc_next (h_cntlrs s ! n) = None"
    and own: "below s (own a) (mst s n)" and idle: "idle_below s (mst s n) a" and miss: "\<not> permits op (hv s (mst s n) a)"
  shows "\<exists>w s'. shmem_last_level n req op a pf s = Some (True, w, s') \<and> w \<noteq> HW_MISS \<and> brings fi k own V op a (mst s n) s s'"
proof -
  let ?x = "mst s n"
  note good = mem_inv_coherent(1) [OF inv] and coh = mem_inv_coherent(4) [OF inv]
  note top = good_topology [OF good]
  note root = topology_root [OF top n next_level]
  have st: "st = SHARED \<or> st = MODIFIED" if "hv s ?x a = Some (st, d)" for st d using idle_below_current(2) [OF inv a idle that] .
  show ?thesis
  proof (cases "hv s ?x a")
    case (Some b)
    then obtain st d where at: "hv s ?x a = Some (st, d)" by (cases b) auto
    have S: "st = SHARED" using st [OF at] miss permits_iff [of "hv s ?x a" op] at by auto
    have d: "d = val fi (V a)" using idle_below_current(1) [OF inv a idle at] .
    obtain p where p: "peekSingleLine a (cm_cache (h_masters s ! ?x)) = Some (Some p)" "bi_cstate (line_at p (cm_cache (h_masters s ! ?x))) = st"
      using peek_present [OF good n a at] .
    obtain s1 where s1: "set_line n p (\<lambda>l. l\<lparr>bi_cstate := MODIFIED\<rparr>) s = Some s1"
        "becomes fi k s ((hv s)(?x := (hv s ?x)(a \<mapsto> (MODIFIED, d)))) (evb s) (dmap s) s1"
      using set_line_law [OF good n a p(1) at, of "\<lambda>l. l\<lparr>bi_cstate := MODIFIED\<rparr>"] by auto
    note v1 = becomes_view [OF s1(2)]
    have "mem_inv fi k own V s1"
    proof (rule mem_inv_becomes [OF inv s1(2) mem_inv_coherent(3) [OF inv]])
      fix c
      assume c: "block_aligned k c"
      have "(\<lambda>z. ((hv s)(?x := (hv s ?x)(a \<mapsto> (MODIFIED, d)))) z c) = (if c = a then (\<lambda>z. hv s z a)(?x \<mapsto> (MODIFIED, d)) else (\<lambda>z. hv s z c))"
        by (auto simp: fun_eq_iff)
      then show "coherent_block fi k s (own c) (\<lambda>z. ((hv s)(?x := (hv s ?x)(a \<mapsto> (MODIFIED, d)))) z c) (dmap s c) (V c)"
        using coh [OF c] coherent_upgrade [OF coh [OF a] _ root(2) idle_below_child [OF top idle], of d] at S by (simp only:) simp
    qed
    then have "brings fi k own V op a ?x s s1"
      using v1(2,3,8) d idle by (auto simp: brings_def idle_below_def)
    then show ?thesis
      using p S root(1) s1(1) topology_facts(9) [OF top n] by (simp add: shmem_last_level_def cntlr_Some [OF good n])
  next
    case None
    have nobody: "hv s z a = None" for z
    proof (rule ccontr)
      assume z: "hv s z a \<noteq> None"
      then have "below s (own a) z" using coherent_holder(1) [OF coh [OF a]] by fastforce
      then have "below s z ?x" using root_above [OF _ own root(2)] by blast
      then show False using holds_above [OF coh [OF a] z] None by blast
    qed
    obtain s1 where s1: "accessDRAM READ a (h_uninit s) s = Some (HW_DRAM, buf_of s (val fi (V a)), s1)" "mem_inv fi k own V s1"
        "becomes fi k s (hv s) (evb s) (dmap s1) s1" "fi \<longrightarrow> dmap s1 a = Some (V a)"
      using dram_read_law [OF inv a nobody] by blast
    note v1 = becomes_view [OF s1(3)]
    have n1: "n < length (h_cntlrs s1)" using n v1(6) by simp
    let ?st = "if op = READ then SHARED else MODIFIED"
    have "\<exists>s2. insertCacheBlock n a ?st (Some (buf_of s (val fi (V a)))) s1 = Some s2 \<and> mem_inv fi k own V s2 \<and> fixed s2 = fixed s1 \<and>
        hv s2 (mst s1 n) a = Some (?st, val fi (V a)) \<and> (\<forall>z. z \<noteq> mst s1 n \<longrightarrow> hv s2 z a = hv s1 z a)"
      by (rule insert_law [OF s1(2) n1 a]) (use nobody own v1(3,6,7,8) root(2) s1(4) buf_of_cong [OF v1(10)] in auto)
    then obtain s2 where s2: "insertCacheBlock n a ?st (Some (buf_of s (val fi (V a)))) s1 = Some s2" "mem_inv fi k own V s2" "fixed s2 = fixed s"
        "hv s2 ?x a = Some (?st, val fi (V a))" "\<forall>z. z \<noteq> ?x \<longrightarrow> hv s2 z a = None"
      using nobody v1(2,3,6) by auto
    note good2 = mem_inv_coherent(1) [OF s2(2)]
    have n2: "n < length (h_cntlrs s2)" and m2: "mst s2 n = ?x" using n fixed_cntlrs [OF s2(3)] by simp_all
    obtain s3 where s3: "(if pf \<noteq> PF_NONE then do { (cc, m) \<leftarrow> cntlr n s2; q \<leftarrow> peekSingleLine a (cm_cache m); p \<leftarrow> q; set_line n p (setOption PREFETCH) s2 }
        else Some s2) = Some s3" "becomes fi k s2 (hv s2) (evb s2) (dmap s2) s3"
      using prefetch_flag_law [OF good2 n2 a, of ?st "val fi (V a)" "pf \<noteq> PF_NONE"] s2(4) m2 by auto
    note v3 = becomes_view [OF s3(2)]
    have "brings fi k own V op a ?x s s2" using s2 by (simp add: brings_def idle_below_def)
    then have "brings fi k own V op a ?x s s3" using brings_same [OF _ s3(2)] by blast
    then have "brings fi k own V op a ?x s (s3\<lparr>h_last_remote := (h_last_remote s3)(n := HW_DRAM)\<rparr>)"
      using brings_same set_remote_becomes [OF v3(1), of HW_DRAM n] by auto
    moreover have "shmem_last_level n req op a pf s = Some (True, HW_DRAM, s3\<lparr>h_last_remote := (h_last_remote s3)(n := HW_DRAM)\<rparr>)"
      using peek_absent [OF good n a None] root(1) s1(1) s2(1) s3(1) by (simp add: shmem_last_level_def cntlr_Some [OF good n])
    ultimately show ?thesis by auto
  qed
qed

text \<open>A copy that does not permit the operation is dropped before the next level is asked.\<close>

lemma drop_law:
  assumes inv: "mem_inv fi k own V s" and n: "n < length (h_cntlrs s)" and a: "block_aligned k a" and idle: "idle_below s (mst s n) a"
    and at: "hv s (mst s n) a = Some (SHARED, d)"
  shows "\<exists>s'. invalidateCacheBlock n a s = Some s' \<and> mem_inv fi k own V s' \<and> fixed s' = fixed s \<and> hv s' (mst s n) a = None \<and>
    idle_below s' (mst s n) a"
proof -
  let ?x = "mst s n"
  note good = mem_inv_coherent(1) [OF inv] and coh = mem_inv_coherent(4) [OF inv]
  note top = good_topology [OF good]
  obtain s' where s': "invalidateCacheBlock n a s = Some s'" "becomes fi k s ((hv s)(?x := (hv s ?x)(a := None))) (evb s) (dmap s) s'"
    using invalidate_law [OF good n a at] by auto
  note v = becomes_view [OF s'(2)]
  have "mem_inv fi k own V s'"
  proof (rule mem_inv_becomes [OF inv s'(2) mem_inv_coherent(3) [OF inv]])
    fix c
    assume c: "block_aligned k c"
    have "(\<lambda>z. ((hv s)(?x := (hv s ?x)(a := None))) z c) = (if c = a then (\<lambda>z. hv s z a)(?x := None) else (\<lambda>z. hv s z c))"
      by (auto simp: fun_eq_iff)
    then show "coherent_block fi k s (own c) (\<lambda>z. ((hv s)(?x := (hv s ?x)(a := None))) z c) (dmap s c) (V c)"
      using coh [OF c] coherent_drop [OF top coh [OF a] at idle_below_child [OF top idle]] by (simp only:) simp
  qed
  then show ?thesis using s'(1) v(2,3,8) idle by (auto simp: idle_below_def)
qed

lemma request_law:
  assumes a: "block_aligned k a" and "mem_inv fi k own V s" and "n < length (h_cntlrs s)" and "below s (own a) (mst s n)"
    and "idle_below s (mst s n) a" and "length (h_cntlrs s) + 2 - lev s n \<le> depth"
  shows "\<exists>w s'. processShmemReqFromPrevCache depth n req op a count pf ocm s = Some (w, s') \<and> w \<noteq> HW_MISS \<and>
    brings fi k own V op a (mst s n) s s'"
  using assms(2-)
proof (induction depth arbitrary: n req pf s)
  case 0
  then show ?case using topology_facts(10) [OF good_topology [OF mem_inv_coherent(1) [OF 0(1)]] 0(2)] by simp
next
  case (Suc depth)
  let ?x = "mst s n"
  let ?next = "\<lambda>k t. processShmemReqFromPrevCache depth k n op a count (if pf = PF_NONE then PF_NONE else PF_OTHER) ocm t"
  note inv = Suc.prems(1) and n = Suc.prems(2) and own = Suc.prems(3) and idle = Suc.prems(4)
  note good = mem_inv_coherent(1) [OF inv]
  obtain s1 where s1: "shmem_lookup n op a count pf ocm s = Some (permits op (hv s ?x a), permits op (hv s ?x a), s1)"
      "becomes fi k s (hv s) (evb s) (dmap s) s1"
    using lookup_law [OF good n a] by blast
  note v1 = becomes_view [OF s1(2)] and inv1 = mem_inv_same [OF inv s1(2)]
  have n1: "n < length (h_cntlrs s1)" and m1: "mst s1 n = ?x" using n v1(6) by simp_all
  have idle1: "idle_below s1 ?x a" and own1: "below s1 (own a) ?x" using idle own v1(3,8) by (simp_all add: idle_below_def)
  have st: "st = SHARED \<or> st = MODIFIED" if "hv s1 ?x a = Some (st, d)" for st d using idle_below_current(2) [OF inv1 a idle1 that] .
  have "\<exists>w s2. (if permits op (hv s ?x a) then do { (w, t) \<leftarrow> shmem_hit n req op a pf s1; Some (True, w, t) }
      else shmem_miss ?next n req op a pf s1) = Some (True, w, s2) \<and> w \<noteq> HW_MISS \<and> brings fi k own V op a ?x s s2"
  proof (cases "permits op (hv s1 ?x a)")
    case True
    then obtain st' d where at: "hv s1 ?x a = Some (st', d)" "op \<noteq> READ \<longrightarrow> st' = MODIFIED"
      using permits_iff [of "hv s1 ?x a" op] st by blast
    obtain w s2 where s2: "shmem_hit n req op a pf s1 = Some (w, s2)" "w \<noteq> HW_MISS" "becomes fi k s1 (hv s1) (evb s1) (dmap s1) s2"
      using hit_law [OF v1(1) n1 a, of st' d req op pf] idle1 at(1) m1 by auto
    have "brings fi k own V op a ?x s s1"
      using inv1 v1(2) idle1 at idle_below_current(1) [OF inv1 a idle1 at(1)] by (simp add: brings_def)
    then show ?thesis using True s2(1,2) brings_same [OF _ s2(3)] v1(3) by auto
  next
    case miss: False
    have sib: "(if view_state (hv s1 ?x a) = SHARED then update_siblings n req a INVALID s1 else Some (False, s1)) = Some (False, s1)"
      using siblings_idle [OF v1(1) n1 a, of INVALID req] idle1 m1 by auto
    have start: "shmem_miss ?next n req op a pf s1 = (case cc_next (h_cntlrs s ! n) of
       Some j \<Rightarrow> do {
         pos \<leftarrow> peekSingleLine a (cm_cache (h_masters s1 ! ?x));
         s2 \<leftarrow> (if pos \<noteq> None then invalidateCacheBlock n a s1 else Some s1);
         (hit_where, s3) \<leftarrow> ?next j s2;
         if hit_where \<noteq> HW_MISS
         then do {
           s4 \<leftarrow> copyDataFromNextLevel n op a s3;
           s5 \<leftarrow> (if pf \<noteq> PF_NONE
             then do { (cc4, m4) \<leftarrow> cntlr n s4; q \<leftarrow> peekSingleLine a (cm_cache m4); p \<leftarrow> q; set_line n p (setOption PREFETCH) s4 }
             else Some s4);
           Some (True, hit_where, s5)
         }
         else Some (False, hit_where, s3)
       }
     | None \<Rightarrow> shmem_last_level n req op a pf s1)"
      using sib state_law [OF v1(1) n1 a] m1 v1(6) by (simp add: shmem_miss_def cntlr_Some [OF v1(1) n1] split: option.split)
    show ?thesis
    proof (cases "cc_next (h_cntlrs s ! n)")
      case None
      then have "\<exists>w s'. shmem_last_level n req op a pf s1 = Some (True, w, s') \<and> w \<noteq> HW_MISS \<and> brings fi k own V op a ?x s1 s'"
        using last_level_law [OF inv1 n1 a, of op req pf] m1 own1 idle1 miss v1(6) by simp
      then show ?thesis using miss start None v1(2,3) by (auto simp: brings_def)
    next
      case (Some j)
      have jn: "cc_next (h_cntlrs s1 ! n) = Some j" using Some v1(6) by simp
      note jf = topology_next [OF good_topology [OF v1(1)] n1 jn]
      have "\<exists>pos s2. peekSingleLine a (cm_cache (h_masters s1 ! ?x)) = Some pos \<and>
          (if pos \<noteq> None then invalidateCacheBlock n a s1 else Some s1) = Some s2 \<and> mem_inv fi k own V s2 \<and> fixed s2 = fixed s \<and>
          hv s2 ?x a = None \<and> idle_below s2 ?x a"
      proof (cases "hv s1 ?x a")
        case None
        then show ?thesis using peek_absent [OF v1(1) n1 a] m1 inv1 v1(2) idle1 by simp
      next
        case (Some b)
        then obtain st' d where at: "hv s1 ?x a = Some (st', d)" by (cases b) auto
        have S: "st' = SHARED" using st [OF at] miss permits_iff [of "hv s1 ?x a" op] st at by auto
        obtain p where "peekSingleLine a (cm_cache (h_masters s1 ! ?x)) = Some (Some p)"
          using peek_present [OF v1(1) n1 a, of st' d] at m1 by metis
        then show ?thesis using drop_law [OF inv1 n1 a, of d] idle1 at S m1 v1(2) by auto
      qed
      then obtain pos s2 where s2: "peekSingleLine a (cm_cache (h_masters s1 ! ?x)) = Some pos"
          "(if pos \<noteq> None then invalidateCacheBlock n a s1 else Some s1) = Some s2" "mem_inv fi k own V s2" "fixed s2 = fixed s"
          "hv s2 ?x a = None" "idle_below s2 ?x a" by blast
      have cn: "h_cntlrs s2 = h_cntlrs s" "h_par s2 = h_par s" "below s2 = below s"
        using fixed_cntlrs [OF s2(4)] fixed_par [OF s2(4)] fixed_below [OF s2(4)] by blast+
      have j: "j < length (h_cntlrs s2)" "mst s2 j = mst s j" "lev s n < lev s j" "h_par s ?x = Some (mst s j)"
        using jf cn v1(6,7) by simp_all
      have "idle_below s2 (mst s2 j) a"
        by (rule idle_below_parent [OF s2(3) a _ _ s2(6,5)]) (use own cn j in simp_all)
      moreover have "below s2 (own a) (mst s2 j)" using below_par [OF own j(4)] cn j(2) by simp
      moreover have "length (h_cntlrs s2) + 2 - lev s2 j \<le> depth" using Suc.prems(5) j(3) cn(1) by simp
      ultimately obtain w s3 where s3: "?next j s2 = Some (w, s3)" "w \<noteq> HW_MISS" "brings fi k own V op a (mst s j) s2 s3"
        using Suc.IH [OF s2(3) j(1), of n "if pf = PF_NONE then PF_NONE else PF_OTHER"] cn(1) by auto
      obtain st' where at3: "hv s3 (mst s j) a = Some (st', val fi (V a))" "op \<noteq> READ \<longrightarrow> st' = MODIFIED"
        and inv3: "mem_inv fi k own V s3" and f3: "fixed s3 = fixed s" and idle3: "idle_below s3 (mst s j) a"
        using s3(3) s2(4) unfolding brings_def by metis
      have c3: "h_cntlrs s3 = h_cntlrs s" "below s3 = below s" "h_par s3 = h_par s"
        using fixed_cntlrs [OF f3] fixed_below [OF f3] fixed_par [OF f3] by blast+
      have abs3: "hv s3 ?x a = None"
        using idle_below_child [OF good_topology [OF mem_inv_coherent(1) [OF inv3]] idle3] c3(3) j(4) by simp
      obtain s4 where s4: "copyDataFromNextLevel n op a s3 = Some s4" "mem_inv fi k own V s4" "fixed s4 = fixed s"
          "hv s4 ?x a = Some (st', val fi (V a))" "\<forall>z. z \<noteq> ?x \<longrightarrow> hv s4 z a = hv s3 z a"
        using copy_law [OF inv3 _ a _ _ _ _ _ at3(2), of n j] n Some own abs3 idle3 at3(1) f3 c3 by auto
      have c4: "h_cntlrs s4 = h_cntlrs s" "below s4 = below s" using fixed_cntlrs [OF s4(3)] fixed_below [OF s4(3)] by blast+
      have "idle_below s4 ?x a"
        using idle3 s4(5) below_strict [OF good_topology [OF good] j(4)] unfolding idle_below_def c4 c3 by metis
      then have b4: "brings fi k own V op a ?x s s4" using s4 at3(2) by (simp add: brings_def)
      obtain s5 where s5: "(if pf \<noteq> PF_NONE then do { (cc, m) \<leftarrow> cntlr n s4; q \<leftarrow> peekSingleLine a (cm_cache m); p \<leftarrow> q; set_line n p (setOption PREFETCH) s4 }
          else Some s4) = Some s5" "becomes fi k s4 (hv s4) (evb s4) (dmap s4) s5"
        using prefetch_flag_law [OF mem_inv_coherent(1) [OF s4(2)] _ a, of n st' "val fi (V a)" "pf \<noteq> PF_NONE"] n s4(4) c4 by auto
      have "shmem_miss ?next n req op a pf s1 = Some (True, w, s5)"
        using start Some s2(1,2) s3(1,2) s4(1) s5(1) by simp
      then show ?thesis using miss v1(3) s3(2) brings_same [OF b4 s5(2)] by simp
    qed
  qed
  then obtain w s2 where s2: "(if permits op (hv s ?x a) then do { (w, t) \<leftarrow> shmem_hit n req op a pf s1; Some (True, w, t) }
      else shmem_miss ?next n req op a pf s1) = Some (True, w, s2)" "w \<noteq> HW_MISS" "brings fi k own V op a ?x s s2"
    by (elim exE conjE) (rule that)
  obtain st' where at2: "hv s2 ?x a = Some (st', val fi (V a))" and f2: "fixed s2 = fixed s" and good2: "hgood fi k s2"
    using s2(3) unfolding brings_def mem_inv_def by blast
  obtain s3 where s3: "retrieveCacheBlock n a (permits op (hv s ?x a) \<and> count) s2 = Some (buf_of s2 (val fi (V a)), s3)"
      "becomes fi k s2 (hv s2) (evb s2) (dmap s2) s3"
    using retrieve_law [OF good2 _ a, of n st' "val fi (V a)"] at2 n fixed_cntlrs [OF f2] by fastforce
  then show ?case
    using s1(1) s2(1,2) brings_same [OF s2(3) s3(2)] by simp
qed

section \<open>Operations of the core\<close>

definition op_ok :: "nat \<Rightarrow> (IntPtr \<Rightarrow> nat) \<Rightarrow> CacheCntlr list \<Rightarrow> pending_op \<Rightarrow> bool" where
  "op_ok k own cs po \<longleftrightarrow> po_cntlr po < length cs \<and> cc_next (cs ! po_cntlr po) \<noteq> None \<and>
     own (po_address po) = cc_master (cs ! po_cntlr po) \<and> block_aligned k (po_address po) \<and>
     unat (po_offset po) < 2 ^ k \<and> unat (po_offset po) + unat (po_length po) \<le> 2 ^ k \<and>
     (case po_data po of None \<Rightarrow> False | Some x \<Rightarrow> length x = unat (po_length po))"

definition flat_result :: "bool \<Rightarrow> (IntPtr \<Rightarrow> u8 list) \<Rightarrow> pending_op \<Rightarrow> u8 list option" where
  "flat_result fi V po = (if po_op po = WRITE \<or> \<not> fi then po_data po
     else Some (take (unat (po_length po)) (drop (unat (po_offset po)) (V (po_address po)))))"

definition flat_step :: "(IntPtr \<Rightarrow> u8 list) \<Rightarrow> pending_op \<Rightarrow> IntPtr \<Rightarrow> u8 list" where
  "flat_step V po = (case po_data po of
     Some x \<Rightarrow> if po_op po = WRITE then V(po_address po := patch (unat (po_offset po)) x (V (po_address po))) else V
   | None \<Rightarrow> V)"

lemma aligned_and:
  assumes "block_aligned k a" and "k < 32"
  shows "a AND ucast ((2 ^ k :: u32) - 1) = 0"
proof -
  have "ucast ((2 ^ k :: u32) - 1) = (mask k :: u64)"
    using assms(2) by (intro bit_eqI) (auto simp: mask_eq_exp_minus_1 [symmetric] bit_simps)
  then show ?thesis using assms(1) by (simp add: block_aligned_def take_bit_eq_mask)
qed

lemma offset_fits:
  fixes off len :: u32
  assumes "unat off + unat len \<le> 2 ^ k" and "k < 32"
  shows "off + len \<le> 2 ^ k"
proof -
  have "unat (off + len) \<le> unat off + unat len" by (simp add: unat_word_ariths)
  moreover have "unat (2 ^ k :: u32) = 2 ^ k" using assms(2) by (simp add: unat_exp)
  ultimately show ?thesis using assms(1) unfolding word_le_nat_alt by linarith
qed

lemma own_idle:
  assumes inv: "mem_inv fi k own V s" and a: "block_aligned k a"
  shows "idle_below s (own a) a"
  unfolding idle_below_def
proof (intro allI impI)
  fix z
  assume z: "below s z (own a)" "z \<noteq> own a"
  note top = good_topology [OF mem_inv_coherent(1) [OF inv]]
  show "hv s z a = None"
  proof (rule ccontr)
    assume "hv s z a \<noteq> None"
    then have "below s (own a) z" using coherent_holder(1) [OF mem_inv_coherent(4) [OF inv a]] by fastforce
    then show False using below_rank [OF top z(1)] below_rank [OF top, of "own a" z] z(2) by auto
  qed
qed

text \<open>The access to the data, once the block is in the first-level cache in a state that permits the operation.\<close>

lemma access_law:
  assumes inv: "mem_inv fi k own V s" and ok: "op_ok k own (h_cntlrs s) po"
    and at: "hv s (own (po_address po)) (po_address po) = Some (st, val fi (V (po_address po)))" and st: "po_op po \<noteq> READ \<longrightarrow> st = MODIFIED"
  shows "\<exists>s'. accessCache (po_cntlr po) (po_op po) (po_address po) (po_offset po) (po_data po) (po_length po) upd s =
      Some (flat_result fi V po, s') \<and> mem_inv fi k own (flat_step V po) s' \<and> fixed s' = fixed s"
proof -
  let ?n = "po_cntlr po" and ?a = "po_address po" and ?x = "own (po_address po)"
  note good = mem_inv_coherent(1) [OF inv]
  have n: "?n < length (h_cntlrs s)" and a: "block_aligned k ?a" and m: "mst s ?n = ?x"
    and off: "unat (po_offset po) < 2 ^ k" "unat (po_offset po) + unat (po_length po) \<le> 2 ^ k"
    using ok by (simp_all add: op_ok_def)
  obtain x where x: "po_data po = Some x" "length x = unat (po_length po)" using ok by (auto simp: op_ok_def split: option.splits)
  have xl: "?x < length (h_masters s)" using topology_facts(1) [OF good_topology [OF good] n] m by simp
  let ?c = "cm_cache (h_masters s ! ?x)"
  have hx: "hv s ?x = block_at ?c" using hv_mst [OF good n] m by simp
  have at': "block_at ?c ?a = Some (st, val fi (V ?a))" using at hx by simp
  show ?thesis
  proof (cases "po_op po = WRITE")
    case False
    obtain p c' where c': "accessSingleLine (?a + ucast (po_offset po)) LOAD None (unat (po_length po)) upd ?c =
        Some (Some p, map_option (\<lambda>d. take (unat (po_length po)) (drop (unat (po_offset po)) d)) (val fi (V ?a)), c')"
        "block_live fi k c'" "block_at c' = block_at ?c"
      using load_block [OF good_live [OF good xl] a off at', of None upd] by blast
    have "becomes fi k s (hv s) (evb s) (dmap s) (put_cache ?n c' s)"
      using put_cache_becomes [OF good n c'(2)] c'(3) hx [symmetric] m by simp
    then have "mem_inv fi k own V (put_cache ?n c' s)" "fixed (put_cache ?n c' s) = fixed s"
      using mem_inv_same [OF inv] becomes_view(2) by blast+
    moreover have "flat_step V po = V" using False x by (simp add: flat_step_def)
    ultimately show ?thesis
      using False c'(1) x m by (simp add: accessCache_def cntlr_Some [OF good n] flat_result_def val_def)
  next
    case True
    then have M: "st = MODIFIED" using st by simp
    have off': "unat (po_offset po) + length x \<le> 2 ^ k" using off(2) x(2) by simp
    obtain p c' where c': "accessSingleLine (?a + ucast (po_offset po)) STORE (Some x) (length x) upd ?c = Some (Some p, None, c')"
        "block_live fi k c'" "block_at c' = (block_at ?c)(?a \<mapsto> (st, map_option (patch (unat (po_offset po)) x) (val fi (V ?a))))"
      using store_block [OF good_live [OF good xl] a off(1) off' at', of upd] by blast
    let ?v = "patch (unat (po_offset po)) x (V ?a)"
    have step: "flat_step V po = V(?a := ?v)" using True x by (simp add: flat_step_def)
    have b: "becomes fi k s ((hv s)(?x := (hv s ?x)(?a \<mapsto> (MODIFIED, val fi ?v)))) (evb s) (dmap s) (put_cache ?n c' s)"
      using put_cache_becomes [OF good n c'(2)] c'(3) hx m M by (simp add: val_def split: if_splits)
    have len: "length ?v = 2 ^ k" using mem_inv_coherent(3) [OF inv a] off' by simp
    have "mem_inv fi k own (V(?a := ?v)) (put_cache ?n c' s)"
    proof (rule mem_inv_becomes [OF inv b])
      show "length ((V(?a := ?v)) c) = 2 ^ k" if "block_aligned k c" for c
        using mem_inv_coherent(3) [OF inv that] len by simp
      fix c
      assume c: "block_aligned k c"
      have "(\<lambda>z. ((hv s)(?x := (hv s ?x)(?a \<mapsto> (MODIFIED, val fi ?v)))) z c) =
          (if c = ?a then (\<lambda>z. hv s z ?a)(?x \<mapsto> (MODIFIED, val fi ?v)) else (\<lambda>z. hv s z c))"
        by (auto simp: fun_eq_iff)
      then show "coherent_block fi k s (own c) (\<lambda>z. ((hv s)(?x := (hv s ?x)(?a \<mapsto> (MODIFIED, val fi ?v)))) z c) (dmap s c) ((V(?a := ?v)) c)"
        using mem_inv_coherent(4) [OF inv c] M at
          coherent_write [OF good_topology [OF good] mem_inv_coherent(4) [OF inv a], of "val fi (V ?a)" ?v]
        by (cases "c = ?a") (simp_all del: fun_upd_apply add: fun_upd_same fun_upd_other)
    qed
    then show ?thesis
      using True c'(1) x m step becomes_view(2) [OF b] topology_facts(5) [OF good_topology [OF good] n]
      by (simp add: accessCache_def cntlr_Some [OF good n] flat_result_def Let_def)
  qed
qed

lemma fill_law:
  assumes inv: "mem_inv fi k own V s" and ok: "op_ok k own (h_cntlrs s) po" and j: "cc_next (h_cntlrs s ! po_cntlr po) = Some j"
    and got: "brings fi k own V (po_op po) (po_address po) (mst s j) s0 s"
  shows "\<exists>s'. mem_op_fill po w s = Some (Done w (flat_result fi V po), s') \<and> mem_inv fi k own (flat_step V po) s' \<and> fixed s' = fixed s"
proof -
  let ?n = "po_cntlr po" and ?a = "po_address po"
  note good = mem_inv_coherent(1) [OF inv]
  have n: "?n < length (h_cntlrs s)" and a: "block_aligned k ?a" and m: "mst s ?n = own ?a" using ok by (simp_all add: op_ok_def)
  obtain st where at: "hv s (mst s j) ?a = Some (st, val fi (V ?a))" "po_op po \<noteq> READ \<longrightarrow> st = MODIFIED" and idle: "idle_below s (mst s j) ?a"
    using got unfolding brings_def by blast
  have absent: "hv s (mst s ?n) ?a = None"
    using idle_below_child [OF good_topology [OF good] idle topology_next(3) [OF good_topology [OF good] n j]] .
  obtain s1 where s1: "copyDataFromNextLevel ?n (po_op po) ?a s = Some s1" "mem_inv fi k own V s1" "fixed s1 = fixed s"
      "hv s1 (own ?a) ?a = Some (st, val fi (V ?a))"
    using copy_law [OF inv n a j _ absent idle at] m by auto
  have c1: "h_cntlrs s1 = h_cntlrs s" using fixed_cntlrs [OF s1(3)] .
  have n1: "?n < length (h_cntlrs s1)" and m1: "mst s1 ?n = own ?a" using n m c1 by simp_all
  have "st = SHARED \<or> st = MODIFIED" using idle_below_current(2) [OF inv a idle at(1)] .
  then have perm: "operationPermissibleinCache ?n ?a (po_op po) s1 = Some True"
    using permits_law [OF mem_inv_coherent(1) [OF s1(2)] n1 a] permits_iff [of "hv s1 (own ?a) ?a" "po_op po"] s1(4) at(2) m1 by auto
  obtain s2 where s2: "accessCache ?n (po_op po) ?a (po_offset po) (po_data po) (po_length po)
        (w = lev s ?n \<and> po_count po) s1 = Some (flat_result fi V po, s2)" "mem_inv fi k own (flat_step V po) s2" "fixed s2 = fixed s1"
    using access_law [OF s1(2) _ s1(4) at(2)] ok c1 by metis
  then show ?thesis
    using s1(1,3) perm by (simp add: mem_op_fill_def cntlr_Some [OF good n])
qed

lemma hit_access_law:
  assumes inv: "mem_inv fi k own V s" and ok: "op_ok k own (h_cntlrs s) po"
    and at: "hv s (own (po_address po)) (po_address po) = Some (st, val fi (V (po_address po)))" and st: "po_op po \<noteq> READ \<longrightarrow> st = MODIFIED"
  shows "\<exists>s'. do {
       (cc, m) \<leftarrow> cntlr (po_cntlr po) s;
       q \<leftarrow> peekSingleLine (po_address po) (cm_cache m);
       p \<leftarrow> q;
       let line = line_at p (cm_cache m);
       s3 \<leftarrow> (if hasOption WARMUP line \<and> \<not> warm then set_line (po_cntlr po) p (clearOption WARMUP) s else Some s);
       s4 \<leftarrow> (if hasOption PREFETCH line then set_line (po_cntlr po) p (clearOption PREFETCH) s3 else Some s3);
       (data, s5) \<leftarrow> accessCache (po_cntlr po) (po_op po) (po_address po) (po_offset po) (po_data po) (po_length po) (po_count po) s4;
       Some (Done w data, s5)
     } = Some (Done w (flat_result fi V po), s') \<and> mem_inv fi k own (flat_step V po) s' \<and> fixed s' = fixed s"
proof -
  let ?n = "po_cntlr po" and ?a = "po_address po"
  note good = mem_inv_coherent(1) [OF inv]
  have n: "?n < length (h_cntlrs s)" and a: "block_aligned k ?a" and m: "mst s ?n = own ?a" using ok by (simp_all add: op_ok_def)
  obtain p where p: "peekSingleLine ?a (cm_cache (h_masters s ! mst s ?n)) = Some (Some p)"
    using peek_present [OF good n a, of st "val fi (V ?a)"] at m by metis
  let ?l = "line_at p (cm_cache (h_masters s ! mst s ?n))"
  obtain s3 where s3: "(if hasOption WARMUP ?l \<and> \<not> warm then set_line ?n p (clearOption WARMUP) s else Some s) = Some s3"
      "becomes fi k s (hv s) (evb s) (dmap s) s3" "peekSingleLine ?a (cm_cache (h_masters s3 ! mst s ?n)) = Some (Some p)"
    using options_law [OF good n a p, of "clearOption WARMUP" "hasOption WARMUP ?l \<and> \<not> warm"] by auto
  note v3 = becomes_view [OF s3(2)]
  have n3: "?n < length (h_cntlrs s3)" and p3: "peekSingleLine ?a (cm_cache (h_masters s3 ! mst s3 ?n)) = Some (Some p)"
    using n s3(3) v3(6) by simp_all
  obtain s4 where s4: "(if hasOption PREFETCH ?l then set_line ?n p (clearOption PREFETCH) s3 else Some s3) = Some s4"
      "becomes fi k s3 (hv s3) (evb s3) (dmap s3) s4"
    using options_law [OF v3(1) n3 a p3, of "clearOption PREFETCH" "hasOption PREFETCH ?l"] by auto
  have b4: "becomes fi k s (hv s) (evb s) (dmap s) s4" using becomes_trans [OF s3(2) s4(2)] v3(3-5) by simp
  note v4 = becomes_view [OF b4]
  obtain s5 where "accessCache ?n (po_op po) ?a (po_offset po) (po_data po) (po_length po) (po_count po) s4 = Some (flat_result fi V po, s5)"
      "mem_inv fi k own (flat_step V po) s5" "fixed s5 = fixed s4"
    using access_law [OF mem_inv_same [OF inv b4] _ _ st] ok at v4(3,6) by metis
  then show ?thesis
    using s3(1) s4(1) p v4(2) by (simp add: cntlr_Some [OF good n] Let_def)
qed

lemma mem_op_law:
  assumes inv: "mem_inv fi k own V s" and ok: "op_ok k own (h_cntlrs s) po" and lock: "lock \<noteq> UNLOCK"
  shows "\<exists>w s'. processMemOpFromCore lock po s = Some (Done w (flat_result fi V po), s') \<and>
    mem_inv fi k own (flat_step V po) s' \<and> fixed s' = fixed s"
proof -
  let ?n = "po_cntlr po" and ?a = "po_address po" and ?op = "po_op po"
  note good = mem_inv_coherent(1) [OF inv]
  note top = good_topology [OF good]
  have n: "?n < length (h_cntlrs s)" and a: "block_aligned k ?a" and m: "mst s ?n = own ?a"
    and off: "unat (po_offset po) + unat (po_length po) \<le> 2 ^ k" using ok by (simp_all add: op_ok_def)
  have k: "k < 32" using good by (simp add: hgood_def)
  note t = topology_facts [OF top n]
  obtain j where j: "cc_next (h_cntlrs s ! ?n) = Some j" using ok by (auto simp: op_ok_def)
  obtain pos where pos: "peekSingleLine ?a (cm_cache (h_masters s ! mst s ?n)) = Some pos" using peek_law [OF good n a] by blast
  define hit where "hit = permits ?op (hv s (own ?a) ?a)"
  define s2 where "s2 = (if po_count po then put_master ?n (\<lambda>m. m\<lparr>cm_cache := updateCounters hit (cm_cache m)\<rparr>) s else s)"
  have b2: "becomes fi k s (hv s) (evb s) (dmap s) s2" unfolding s2_def by (rule count_becomes [OF good n])
  note v2 = becomes_view [OF b2] and inv2 = mem_inv_same [OF inv b2]
  have ok2: "op_ok k own (h_cntlrs s2) po" and n2: "?n < length (h_cntlrs s2)" and m2: "mst s2 ?n = own ?a" using ok n m v2(6) by simp_all
  have idle2: "idle_below s2 (own ?a) ?a" using own_idle [OF inv2 a] .
  have st: "st = SHARED \<or> st = MODIFIED" "d = val fi (V ?a)" if "hv s2 (own ?a) ?a = Some (st, d)" for st d
    using idle_below_current [OF inv2 a idle2 that] by blast+
  have guards: "?a AND ucast (cc_block_size (h_cntlrs s ! ?n) - 1) = 0" "po_offset po + po_length po \<le> cc_block_size (h_cntlrs s ! ?n)"
    using aligned_and [OF a k] offset_fits [OF off k] t(7) by simp_all
  have perm: "operationPermissibleinCache ?n ?a ?op s = Some hit" using permits_law [OF good n a] m by (simp add: hit_def)
  show ?thesis
  proof (cases hit)
    case True
    then obtain st' d where at: "hv s2 (own ?a) ?a = Some (st', d)" "?op \<noteq> READ \<longrightarrow> st' = MODIFIED"
      using permits_iff [of "hv s2 (own ?a) ?a" ?op] st v2(3) unfolding hit_def by metis
    have at': "hv s2 (own ?a) ?a = Some (st', val fi (V ?a))" using at(1) st(2) [OF at(1)] by simp
    have "processMemOpFromCore lock po s = do {
       (cc, m) \<leftarrow> cntlr ?n s2;
       q \<leftarrow> peekSingleLine ?a (cm_cache m);
       p \<leftarrow> q;
       let line = line_at p (cm_cache m);
       s3 \<leftarrow> (if hasOption WARMUP line \<and> \<not> h_cache_only s then set_line ?n p (clearOption WARMUP) s2 else Some s2);
       s4 \<leftarrow> (if hasOption PREFETCH line then set_line ?n p (clearOption PREFETCH) s3 else Some s3);
       (data, s5) \<leftarrow> accessCache ?n ?op ?a (po_offset po) (po_data po) (po_length po) (po_count po) s4;
       Some (Done (lev s ?n) data, s5)
     }"
      using True guards perm pos t
      by (cases "po_count po") (simp_all add: processMemOpFromCore_def cntlr_Some [OF good n] Let_def s2_def cong del: if_weak_cong)
    then show ?thesis
      using hit_access_law [OF inv2 ok2 at' at(2), of "h_cache_only s" "lev s ?n"] v2(2) by metis
  next
    case False
    have "\<exists>s3. (if view_state (hv s2 (own ?a) ?a) \<noteq> INVALID then invalidateCacheBlock ?n ?a s2 else Some s2) = Some s3 \<and>
        mem_inv fi k own V s3 \<and> fixed s3 = fixed s \<and> hv s3 (own ?a) ?a = None"
    proof (cases "hv s2 (own ?a) ?a")
      case None
      then show ?thesis using inv2 v2(2) by simp
    next
      case (Some b)
      then obtain st' d where at: "hv s2 (own ?a) ?a = Some (st', d)" by (cases b) auto
      have "st' = SHARED" using st [OF at] False permits_iff [of "hv s2 (own ?a) ?a" ?op] at v2(3) unfolding hit_def by auto
      then show ?thesis using drop_law [OF inv2 n2 a, of d] at m2 idle2 v2(2) by auto
    qed
    then obtain s3 where s3: "(if view_state (hv s2 (own ?a) ?a) \<noteq> INVALID then invalidateCacheBlock ?n ?a s2 else Some s2) = Some s3"
        "mem_inv fi k own V s3" "fixed s3 = fixed s" "hv s3 (own ?a) ?a = None" by blast
    have c3: "h_cntlrs s3 = h_cntlrs s" "h_par s3 = h_par s" "below s3 = below s"
      using fixed_cntlrs [OF s3(3)] fixed_par [OF s3(3)] fixed_below [OF s3(3)] by blast+
    note jn = topology_next [OF top n j]
    have j3: "j < length (h_cntlrs s3)" "mst s3 j = mst s j" "h_par s3 (own ?a) = Some (mst s3 j)" using jn m c3 by simp_all
    have req: "idle_below s3 (mst s3 j) ?a" "below s3 (own ?a) (mst s3 j)" "length (h_cntlrs s3) + 2 - lev s3 j \<le> h_depth s"
      using idle_below_parent [OF s3(2) a below_refl j3(3) own_idle [OF s3(2) a] s3(4)] below_step [OF j3(3) below_refl]
        topology_facts(8) [OF top jn(1)] c3(1) by (simp_all add: h_depth_def)
    obtain w s4 where s4: "processShmemReqFromPrevCache (h_depth s) j ?n ?op ?a (po_count po) PF_NONE True s3 = Some (w, s4)" "w \<noteq> HW_MISS"
        "brings fi k own V ?op ?a (mst s3 j) s3 s4"
      using request_law [OF a s3(2) j3(1) req(2,1,3), of ?n ?op "po_count po" PF_NONE True] by blast
    have inv4: "mem_inv fi k own V s4" and f4: "fixed s4 = fixed s" using s4(3) s3(3) by (simp_all add: brings_def)
    have c4: "h_cntlrs s4 = h_cntlrs s" using fixed_cntlrs [OF f4] .
    obtain s5 where s5: "mem_op_fill po w s4 = Some (Done w (flat_result fi V po), s5)" "mem_inv fi k own (flat_step V po) s5" "fixed s5 = fixed s4"
      using fill_law [OF inv4, of po j s3 w] ok j s4(3) c4 j3(2) by auto
    have "getCacheState ?n ?a s2 = Some (view_state (hv s2 (own ?a) ?a))" using state_law [OF v2(1) n2 a] m2 by simp
    then have "processMemOpFromCore lock po s = Some (Done w (flat_result fi V po), s5)"
      using False guards perm pos t lock j s3(1) s4(1,2) s5(1)
      by (cases "po_count po") (simp_all add: processMemOpFromCore_def cntlr_Some [OF good n] Let_def s2_def cong del: if_weak_cong)
    then show ?thesis using s5(2,3) f4 by simp
  qed
qed

section \<open>Sequences of operations\<close>

fun run_ops :: "pending_op list \<Rightarrow> hier \<Rightarrow> (op_result list \<times> hier) option" where
  "run_ops [] s = Some ([], s)"
| "run_ops (po # pos) s = do {
     (r, s1) \<leftarrow> processMemOpFromCore LOCK_NONE po s;
     (rs, s2) \<leftarrow> run_ops pos s1;
     Some (r # rs, s2)
   }"

fun flat_ops :: "bool \<Rightarrow> (IntPtr \<Rightarrow> u8 list) \<Rightarrow> pending_op list \<Rightarrow> u8 list option list" where
  "flat_ops fi V [] = []"
| "flat_ops fi V (po # pos) = flat_result fi V po # flat_ops fi (flat_step V po) pos"

fun is_done :: "op_result \<Rightarrow> u8 list option \<Rightarrow> bool" where
  "is_done (Done w d) d' \<longleftrightarrow> d = d'"
| "is_done Waiting d' \<longleftrightarrow> False"

text \<open>A hierarchy after its construction: well-formed, with empty caches and an empty DRAM.\<close>

definition hier_fresh :: "bool \<Rightarrow> nat \<Rightarrow> hier \<Rightarrow> bool" where
  "hier_fresh fi k s \<longleftrightarrow> hgood fi k s \<and> (\<forall>m \<in> set (h_masters s). cm_evicting_buf m = None \<and> block_at (cm_cache m) = Map.empty) \<and>
     dr_data_map (h_dram s) = Map.empty"

lemma fresh_inv:
  assumes "hier_fresh fi k s"
  shows "mem_inv fi k own (\<lambda>a. replicate (2 ^ k) 0) s"
proof -
  have hv: "hv s x a = None" and ev: "evb s x = None" for x a
    using assms by (auto simp: hier_fresh_def hv_def evb_def evicting_def)
  then show ?thesis
    using assms by (simp add: mem_inv_def hier_fresh_def coherent_block_def coherent_at_def included_at_def dram_value_def)
qed

lemma run_ops_law:
  assumes "mem_inv fi k own V s" and "list_all (op_ok k own (h_cntlrs s)) pos"
  shows "\<exists>rs s'. run_ops pos s = Some (rs, s') \<and> list_all2 is_done rs (flat_ops fi V pos)"
  using assms
proof (induction pos arbitrary: V s)
  case (Cons po pos)
  obtain w s1 where s1: "processMemOpFromCore LOCK_NONE po s = Some (Done w (flat_result fi V po), s1)"
      "mem_inv fi k own (flat_step V po) s1" "fixed s1 = fixed s"
    using mem_op_law [OF Cons.prems(1), of po LOCK_NONE] Cons.prems(2) by auto
  have "list_all (op_ok k own (h_cntlrs s1)) pos" using Cons.prems(2) fixed_cntlrs [OF s1(3)] by simp
  then show ?case using Cons.IH [OF s1(2)] s1(1) by auto
qed simp

end
