(* ===== verification/MemoryManager.thy ===== *)
theory MemoryManager
  imports Hierarchy
begin

text \<open>
  The memory managers of the cores, \<^verbatim>\<open>parametric_dram_directory_msi/memory_manager.cc\<close>: the construction of the TLBs and
  of the cache controllers of a core, and the memory accesses of a core, which go through a TLB and then to a
  first-level cache controller. The managers are built in the order of the core numbers and share the map
  \<^verbatim>\<open>m_all_cache_cntlrs\<close>, which is searched in the list of all controllers. The prefetchers, the auxiliary tag directories,
  the performance models and the locks are not modelled; the placement of the directories and of the DRAM controllers is
  a parameter.
\<close>

section \<open>State\<close>

text \<open>\<open>cp_passthrough\<close> is read from the configuration by the constructor of the controller.\<close>

record CacheParameters =
  cp_num_sets :: u32
  cp_associativity :: u32
  cp_hash_function :: string
  cp_replacement_policy :: string
  cp_perfect :: bool
  cp_coherent :: bool
  cp_passthrough :: bool
  cp_writethrough :: bool
  cp_shared_cores :: u32

definition CacheParameters_new :: "u32 \<Rightarrow> u32 \<Rightarrow> u32 \<Rightarrow> string \<Rightarrow> string \<Rightarrow> bool \<Rightarrow> bool \<Rightarrow> bool \<Rightarrow> bool \<Rightarrow> u32 \<Rightarrow> CacheParameters option" where
  "CacheParameters_new size_kb associativity block_size hash_function policy_name perfect coherent passthrough writethrough shared_cores = do {
     ensure (associativity * block_size \<noteq> 0);
     let num_sets = 1024 * size_kb div (associativity * block_size);
     ensure (1024 * size_kb = num_sets * associativity * block_size);
     Some \<lparr>cp_num_sets = num_sets, cp_associativity = associativity, cp_hash_function = hash_function,
       cp_replacement_policy = policy_name, cp_perfect = perfect, cp_coherent = coherent, cp_passthrough = passthrough,
       cp_writethrough = writethrough, cp_shared_cores = shared_cores\<rparr>
   }"

record MemoryManager =
  mm_core_id :: core_id
  mm_last_level_cache :: component_t
  mm_itlb :: "TLB option"
  mm_dtlb :: "TLB option"
  mm_stlb :: "TLB option"
  mm_miss_penalty :: nat
  mm_miss_parallel :: bool

record memory_system =
  ms_managers :: "MemoryManager list"
  ms_hier :: hier

section \<open>Construction of the controllers\<close>

text \<open>The state before the first manager is built; \<open>llc\<close> are the static arrays of cbPred.\<close>

definition hier_init :: "bool \<Rightarrow> u32 \<Rightarrow> AddressHomeLookup \<Rightarrow> bool \<Rightarrow> u8 list \<Rightarrow> LlcSw \<Rightarrow> hier" where
  "hier_init fault_injection block_size home cache_only uninit llc = \<lparr>h_cntlrs = [], h_masters = [], h_last_remote = (\<lambda>_. HW_UNKNOWN),
     h_dram = DramCntlr_new fault_injection block_size, h_llc = llc, h_pfq = [], h_home = home, h_cache_only = cache_only,
     h_uninit = uninit, h_pending = (\<lambda>_. None), h_done = [], h_out = []\<rparr>"

definition getCacheCntlrAt :: "core_id \<Rightarrow> component_t \<Rightarrow> hier \<Rightarrow> nat option" where
  "getCacheCntlrAt core_id mem_component s =
     List.find (\<lambda>n. cc_core_id (h_cntlrs s ! n) = core_id \<and> cc_mem_component (h_cntlrs s ! n) = mem_component) [0..<length (h_cntlrs s)]"

definition isMasterCache :: "CacheCntlr \<Rightarrow> bool" where
  "isMasterCache cc \<longleftrightarrow> cc_core_id cc = cc_core_id_master cc"

definition CacheMasterCntlr_new :: "Cache \<Rightarrow> CacheMasterCntlr" where
  "CacheMasterCntlr_new c = \<lparr>cm_cache = c, cm_prev = [], cm_dram_cntlr = False, cm_directory_waiters = (\<lambda>_. None),
     cm_evicting_address = 0, cm_evicting_buf = None\<rparr>"

definition CacheCntlr_new :: "cache_config \<Rightarrow> string list option \<Rightarrow> component_t \<Rightarrow> core_id \<Rightarrow> u32 \<Rightarrow> CacheParameters \<Rightarrow> bool \<Rightarrow> hier \<Rightarrow> hier option" where
  "CacheCntlr_new cfg config_file mem_component core_id cache_block_size params is_last_level_cache s = do {
     (cbpred, bhist_thd) \<leftarrow> llc_load_settings config_file (True, 6);
     ensure (cp_shared_cores params \<noteq> 0);
     let core_id_master = core_id - core_id mod uint (cp_shared_cores params);
     ensure (is_last_level_cache \<longrightarrow> \<not> cp_passthrough params);
     (master, s1) \<leftarrow> (if core_id = core_id_master
       then do {
         hash \<leftarrow> parseAddressHash (cp_hash_function params);
         c \<leftarrow> Cache_new cfg (cp_num_sets params) (cp_associativity params) cache_block_size (cp_replacement_policy params) SHARED_CACHE hash None;
         Some (length (h_masters s), s\<lparr>h_masters := h_masters s @ [CacheMasterCntlr_new c]\<rparr>)
       }
       else do {
         n \<leftarrow> getCacheCntlrAt core_id_master mem_component s;
         Some (cc_master (h_cntlrs s ! n), s)
       });
     Some (s1\<lparr>h_cntlrs := h_cntlrs s1 @ [\<lparr>cc_mem_component = mem_component, cc_master = master, cc_next = None,
       cc_perfect = cp_perfect params, cc_passthrough = cp_passthrough params, cc_coherent = cp_coherent params,
       cc_cbpred = cbpred, cc_bhist_thd = bhist_thd, cc_core_id = core_id, cc_core_id_master = core_id_master,
       cc_block_size = cache_block_size, cc_writethrough = cp_writethrough params\<rparr>]\<rparr>)
   }"

definition setNextCacheCntlr :: "nat \<Rightarrow> nat \<Rightarrow> hier \<Rightarrow> hier" where
  "setNextCacheCntlr n next_cntlr s = s\<lparr>h_cntlrs := (h_cntlrs s)[n := (h_cntlrs s ! n)\<lparr>cc_next := Some next_cntlr\<rparr>]\<rparr>"

text \<open>Only the master controllers of the previous level are appended.\<close>

definition setPrevCacheCntlrs :: "nat \<Rightarrow> nat list \<Rightarrow> hier \<Rightarrow> hier" where
  "setPrevCacheCntlrs n prev_cntlrs s =
     put_master n (\<lambda>m. m\<lparr>cm_prev := cm_prev m @ filter (\<lambda>p. isMasterCache (h_cntlrs s ! p)) prev_cntlrs\<rparr>) s"

definition setDRAMDirectAccess :: "nat \<Rightarrow> hier \<Rightarrow> hier" where
  "setDRAMDirectAccess n s = put_master n (\<lambda>m. m\<lparr>cm_dram_cntlr := True\<rparr>) s"

text \<open>The caches of one core. \<open>params\<close> has the parameters from the first level to the last one.\<close>

definition build_caches :: "cache_config \<Rightarrow> string list option \<Rightarrow> u32 \<Rightarrow> CacheParameters list \<Rightarrow> core_id \<Rightarrow> hier \<Rightarrow> hier option" where
  "build_caches cfg config_file block_size params core_id s = do {
     ensure (3 \<le> length params);
     let last_level = length params + 1;
     let base = length (h_cntlrs s);
     let at = (\<lambda>i. base + (i - L1_ICACHE));
     s1 \<leftarrow> fold_opt (\<lambda>i. CacheCntlr_new cfg config_file i core_id block_size (params ! (i - L1_ICACHE)) (i = last_level))
       [L1_ICACHE..<Suc last_level] s;
     let s2 = setNextCacheCntlr (at L1_DCACHE) (at L2_CACHE) (setNextCacheCntlr (at L1_ICACHE) (at L2_CACHE) s1);
     let s3 = fold (\<lambda>i. setNextCacheCntlr (at i) (at (i + 1))) [L2_CACHE..<last_level] s2;
     let s4 = setPrevCacheCntlrs (at L2_CACHE) [at L1_ICACHE, at L1_DCACHE] s3;
     Some (fold (\<lambda>i. setPrevCacheCntlrs (at (i + 1)) [at i]) [L2_CACHE..<last_level] s4)
   }"

section \<open>Construction of a manager\<close>

text \<open>A TLB of size 0 is absent.\<close>

record tlb_parameters =
  tp_size :: u32
  tp_associativity :: u32

definition tlb_or_null :: "cache_config \<Rightarrow> string list option \<Rightarrow> IntPtr \<Rightarrow> tlb_parameters \<Rightarrow> u32 \<Rightarrow> TLB option option" where
  "tlb_or_null cfg config_file garbage p conf =
     (if tp_size p = 0 then Some None else map_option Some (TLB_new cfg config_file garbage (tp_size p) (tp_associativity p) conf))"

text \<open>\<^verbatim>\<open>MemoryManager::MemoryManager\<close>. At the end the master core of a last-level cache passes its controller to the three
  TLBs without asking whether they exist.\<close>

definition MemoryManager_new :: "cache_config \<Rightarrow> string list option \<Rightarrow> IntPtr \<Rightarrow> u32 \<Rightarrow> CacheParameters list \<Rightarrow>
    tlb_parameters \<Rightarrow> tlb_parameters \<Rightarrow> tlb_parameters \<Rightarrow> u32 \<Rightarrow> nat \<Rightarrow> bool \<Rightarrow> bool \<Rightarrow> (core_id \<Rightarrow> bool) \<Rightarrow> (core_id \<Rightarrow> bool) \<Rightarrow> core_id \<Rightarrow> core_id \<Rightarrow>
    memory_system \<Rightarrow> memory_system option" where
  "MemoryManager_new cfg config_file garbage block_size params itlb dtlb stlb stlb_conf miss_penalty miss_parallel dram_direct_access
     dram_cntlr_present tag_directory_present application_cores core_id s = do {
     ensure (core_id = int (length (ms_managers s)));
     m_stlb \<leftarrow> tlb_or_null cfg config_file garbage stlb stlb_conf;
     m_itlb \<leftarrow> tlb_or_null cfg config_file garbage itlb 2;
     m_dtlb \<leftarrow> tlb_or_null cfg config_file garbage dtlb 2;
     let last_level = length params + 1;
     let params' = (if application_cores \<le> core_id then map (\<lambda>p. p\<lparr>cp_shared_cores := 1\<rparr>) params else params);
     let base = length (h_cntlrs (ms_hier s));
     h1 \<leftarrow> build_caches cfg config_file block_size params' core_id (ms_hier s);
     let llc = base + (last_level - L1_ICACHE);
     ensure (dram_cntlr_present core_id \<longrightarrow> isMasterCache (h_cntlrs h1 ! llc));
     ensure (tag_directory_present core_id \<longrightarrow> isMasterCache (h_cntlrs h1 ! llc));
     h2 \<leftarrow> (if isMasterCache (h_cntlrs h1 ! llc)
       then do {
         h \<leftarrow> (if dram_direct_access \<and> core_id < application_cores
           then do {
             ensure (application_cores \<le> uint (cp_shared_cores (last params')));
             ensure (dram_cntlr_present core_id);
             Some (setDRAMDirectAccess llc h1)
           }
           else Some h1);
         ensure (m_dtlb \<noteq> None \<and> m_stlb \<noteq> None \<and> m_itlb \<noteq> None);
         Some h
       }
       else Some h1);
     Some (s\<lparr>ms_managers := ms_managers s @ [\<lparr>mm_core_id = core_id, mm_last_level_cache = last_level, mm_itlb = m_itlb,
         mm_dtlb = m_dtlb, mm_stlb = m_stlb, mm_miss_penalty = miss_penalty, mm_miss_parallel = miss_parallel\<rparr>],
       ms_hier := h2\<rparr>)
   }"

section \<open>Accesses of a core\<close>

text \<open>An access through a TLB and, behind it, the second-level TLB.\<close>

definition access_tlb_of :: "MemoryManager \<Rightarrow> TLB \<Rightarrow> IntPtr \<Rightarrow> bool \<Rightarrow> MemModeled \<Rightarrow> IntPtr list \<Rightarrow> (TLB \<times> TLB option \<times> IntPtr list) option" where
  "access_tlb_of mm tlb address isIfetch modeled pfq = do {
     (r, tlbs, pfq') \<leftarrow> accessTLB (mm_miss_penalty mm) (mm_miss_parallel mm)
       (tlb # (case mm_stlb mm of None \<Rightarrow> [] | Some t \<Rightarrow> [t])) address isIfetch modeled pfq;
     case tlbs of [] \<Rightarrow> None | t # ts \<Rightarrow> Some (t, (case ts of [] \<Rightarrow> None | t2 # us \<Rightarrow> Some t2), pfq')
   }"

definition coreInitiateMemoryAccess :: "nat \<Rightarrow> component_t \<Rightarrow> lock_signal_t \<Rightarrow> mem_op_t \<Rightarrow> IntPtr \<Rightarrow> u32 \<Rightarrow> u8 list option \<Rightarrow> u32 \<Rightarrow>
    MemModeled \<Rightarrow> memory_system \<Rightarrow> (op_result \<times> memory_system) option" where
  "coreInitiateMemoryAccess core mem_component lock_signal mem_op_type address offset data_buf data_length modeled s = do {
     mm \<leftarrow> nth_opt (ms_managers s) core;
     ensure (mem_component \<le> mm_last_level_cache mm);
     (mm1, pfq) \<leftarrow> (if mem_component = L1_ICACHE \<and> mm_itlb mm \<noteq> None
       then do {
         (t, stlb, q) \<leftarrow> access_tlb_of mm (the (mm_itlb mm)) address True modeled (h_pfq (ms_hier s));
         Some (mm\<lparr>mm_itlb := Some t, mm_stlb := stlb\<rparr>, q)
       }
       else if mem_component = L1_DCACHE \<and> mm_dtlb mm \<noteq> None
       then do {
         (t, stlb, q) \<leftarrow> access_tlb_of mm (the (mm_dtlb mm)) address False modeled (h_pfq (ms_hier s));
         Some (mm\<lparr>mm_dtlb := Some t, mm_stlb := stlb\<rparr>, q)
       }
       else Some (mm, h_pfq (ms_hier s)));
     n \<leftarrow> getCacheCntlrAt (mm_core_id mm) mem_component (ms_hier s);
     (r, h) \<leftarrow> processMemOpFromCore lock_signal \<lparr>po_cntlr = n, po_op = mem_op_type, po_address = address, po_offset = offset,
         po_data = data_buf, po_length = data_length, po_count = (modeled \<noteq> MEM_MODELED_NONE)\<rparr>
       ((ms_hier s)\<lparr>h_pfq := pfq\<rparr>);
     Some (r, s\<lparr>ms_managers := (ms_managers s)[core := mm1], ms_hier := h\<rparr>)
   }"

end
