(* ===== verification/HierarchyProps.thy ===== *)
theory HierarchyProps
  imports HierarchyFlat MemoryManager
begin

text \<open>
  The properties of the cache hierarchy, and a small hierarchy on which they are evaluated: two cores with private
  first-level and second-level caches and a shared third-level cache, blocks of four bytes, one set in every cache.
\<close>

section \<open>Construction\<close>

definition fresh_master :: "bool \<Rightarrow> nat \<Rightarrow> CacheMasterCntlr \<Rightarrow> bool" where
  "fresh_master fi k m \<longleftrightarrow> block_live fi k (cm_cache m) \<and> block_at (cm_cache m) = Map.empty \<and> cm_evicting_buf m = None"

definition params_ok :: "CacheParameters \<Rightarrow> bool" where
  "params_ok p \<longleftrightarrow> cp_hash_function p = ''mask'' \<and> cp_replacement_policy p = ''lru'' \<and> cp_num_sets p \<noteq> 0 \<and>
     isPower2 (cp_num_sets p) \<and> cp_associativity p \<noteq> 0 \<and> unat (cp_associativity p) \<le> 256"

text \<open>What the construction keeps: the masters are new, and the fields outside the two arrays stay.\<close>

definition new_hier :: "cache_config \<Rightarrow> nat \<Rightarrow> hier \<Rightarrow> hier \<Rightarrow> bool" where
  "new_hier cfg k s0 s \<longleftrightarrow> list_all (fresh_master (cfg_fault_injection cfg) k) (h_masters s) \<and>
     s\<lparr>h_cntlrs := [], h_masters := []\<rparr> = s0\<lparr>h_cntlrs := [], h_masters := []\<rparr>"

lemma cntlr_new_fresh:
  assumes "CacheCntlr_new cfg file i core (2 ^ k) p is_last s = Some s'" and "new_hier cfg k s0 s" and "params_ok p"
    and "0 < k" "k < 32" "0 < cfg_srrip_bits cfg"
  shows "new_hier cfg k s0 s'"
proof -
  obtain c where c: "Cache_new cfg (cp_num_sets p) (cp_associativity p) (2 ^ k) ''lru'' SHARED_CACHE HASH_MASK None = Some c"
      "block_live (cfg_fault_injection cfg) k c" "block_at c = Map.empty"
    using Cache_new_block [of "cp_num_sets p" "cp_associativity p" k cfg SHARED_CACHE] assms(3-6) by (auto simp: params_ok_def)
  have "parseAddressHash ''mask'' = Some HASH_MASK" by (simp add: parseAddressHash_def)
  then show ?thesis
    using assms(1-3) c by (auto simp: CacheCntlr_new_def new_hier_def params_ok_def fresh_master_def CacheMasterCntlr_new_def
        Let_def abort_simps split: if_splits)
qed

lemma put_master_fresh:
  assumes "new_hier cfg k s0 s" and "\<And>m. fresh_master (cfg_fault_injection cfg) k (f m) = fresh_master (cfg_fault_injection cfg) k m"
  shows "new_hier cfg k s0 (put_master n f s)"
proof (cases "cc_master (h_cntlrs s ! n) < length (h_masters s)")
  case True
  then show ?thesis using assms by (auto simp: new_hier_def put_master_def list_all_length nth_list_update)
next
  case False
  then show ?thesis using assms(1) by (simp add: new_hier_def put_master_def list_update_beyond)
qed

lemma build_caches_fresh:
  assumes built: "build_caches cfg file (2 ^ k) params core s = Some s'" and new: "new_hier cfg k s0 s"
    and params: "list_all params_ok params" and k: "0 < k" "k < 32" "0 < cfg_srrip_bits cfg"
  shows "new_hier cfg k s0 s'"
proof -
  have prev: "new_hier cfg k s0 (setPrevCacheCntlrs n ps t)" if "new_hier cfg k s0 t" for n ps t
    unfolding setPrevCacheCntlrs_def using that by (rule put_master_fresh) (simp add: fresh_master_def)
  have nxt: "new_hier cfg k s0 (setNextCacheCntlr n j t)" if "new_hier cfg k s0 t" for n j t
    using that by (simp add: setNextCacheCntlr_def new_hier_def)
  have folds: "new_hier cfg k s0 (fold f is t)" if "new_hier cfg k s0 t" "\<And>i t. new_hier cfg k s0 t \<Longrightarrow> new_hier cfg k s0 (f i t)"
    for f :: "nat \<Rightarrow> hier \<Rightarrow> hier" and "is" t
    using that(1) by (induction "is" arbitrary: t) (auto intro: that(2))
  obtain s1 where s1: "fold_opt (\<lambda>i. CacheCntlr_new cfg file i core (2 ^ k) (params ! (i - L1_ICACHE)) (i = length params + 1))
      [L1_ICACHE..<Suc (length params + 1)] s = Some s1"
    and s': "new_hier cfg k s0 s1 \<Longrightarrow> new_hier cfg k s0 s'"
    using built unfolding build_caches_def Let_def by (auto simp: abort_simps simp del: upt_Suc intro!: folds prev nxt)
  have "new_hier cfg k s0 s1"
  proof (rule fold_opt_inv [OF s1])
    show "new_hier cfg k s0 s" by (rule new)
    fix i t t'
    assume i: "i \<in> set [L1_ICACHE..<Suc (length params + 1)]" and t: "new_hier cfg k s0 t"
      "CacheCntlr_new cfg file i core (2 ^ k) (params ! (i - L1_ICACHE)) (i = length params + 1) t = Some t'"
    have "i - L1_ICACHE < length params" using i by (simp del: upt_Suc) arith
    then have "params_ok (params ! (i - L1_ICACHE))" using params by (simp add: list_all_length)
    then show "new_hier cfg k s0 t'" using cntlr_new_fresh [OF t(2,1) _ k] by blast
  qed
  then show ?thesis by (rule s')
qed

lemma direct_access_fresh: "new_hier cfg k s0 s \<Longrightarrow> new_hier cfg k s0 (setDRAMDirectAccess n s)"
  unfolding setDRAMDirectAccess_def by (rule put_master_fresh) (simp_all add: fresh_master_def)

section \<open>A small hierarchy\<close>

definition small_params :: "u32 \<Rightarrow> u32 \<Rightarrow> CacheParameters" where
  "small_params associativity shared_cores = \<lparr>cp_num_sets = 1, cp_associativity = associativity, cp_hash_function = ''mask'',
     cp_replacement_policy = ''lru'', cp_perfect = False, cp_coherent = True, cp_passthrough = False, cp_writethrough = False,
     cp_shared_cores = shared_cores\<rparr>"

definition small_config :: cache_config where
  "small_config = \<lparr>cfg_fault_injection = True, cfg_qbs_attempts = 1, cfg_srrip_bits = 2, cfg_time = 0\<rparr>"

definition small_home :: AddressHomeLookup where
  "small_home = \<lparr>ahl_param = 6, ahl_mask = 63, ahl_core_list = [0], ahl_cache_block_size = 4, ahl_total_modules = 1\<rparr>"

definition small_llc :: LlcSw where
  "small_llc = \<lparr>ls_llc = [], ls_alloc_blocks = [], ls_bhist = (\<lambda>_. (0, 0)), ls_llc_hits = Map.empty, ls_llcAcc = 0, ls_llcBypass = 0,
     ls_llcMiss = 0\<rparr>"

definition small_hier :: "hier option" where
  "small_hier = do {
     let params = [small_params 1 1, small_params 1 1, small_params 2 1, small_params 2 2];
     let build = build_caches small_config (Some [''CBPRED=0'']) 4 params;
     s1 \<leftarrow> build 0 (hier_init True 4 small_home False [9, 9, 9, 9] small_llc);
     s2 \<leftarrow> build 1 s1;
     Some (setDRAMDirectAccess 3 s2)
   }"

lemma small_hier_built: "small_hier \<noteq> None"
  by code_simp

lemma small_topology: "topology 2 (the small_hier)"
  by code_simp

lemma small_fresh: "hier_fresh True 2 (the small_hier)"
proof -
  let ?params = "[small_params 1 1, small_params 1 1, small_params 2 1, small_params 2 2]"
  let ?s0 = "hier_init True 4 small_home False [9, 9, 9, 9] small_llc"
  obtain s1 s2 where s: "build_caches small_config (Some [''CBPRED=0'']) (2 ^ 2) ?params 0 ?s0 = Some s1"
      "build_caches small_config (Some [''CBPRED=0'']) (2 ^ 2) ?params 1 s1 = Some s2" "small_hier = Some (setDRAMDirectAccess 3 s2)"
    using small_hier_built by (auto simp: small_hier_def Let_def abort_simps)
  have p: "list_all params_ok ?params" by (simp add: params_ok_def small_params_def isPower2_def)
  have "new_hier small_config 2 ?s0 ?s0" by (simp add: new_hier_def hier_init_def)
  from build_caches_fresh [OF s(2) build_caches_fresh [OF s(1) this p] p]
  have "new_hier small_config 2 ?s0 s2" by (simp add: small_config_def)
  then have n: "new_hier small_config 2 ?s0 (the small_hier)" unfolding s(3) option.sel by (rule direct_access_fresh)
  then have f: "h_uninit (the small_hier) = [9, 9, 9, 9]" "h_dram (the small_hier) = DramCntlr_new True 4"
      "h_last_remote (the small_hier) = (\<lambda>_. HW_UNKNOWN)"
    by (cases "the small_hier"; simp add: new_hier_def hier_init_def)+
  show ?thesis
    using n small_topology by (auto simp: hier_fresh_def hgood_def f DramCntlr_new_def new_hier_def list_all_iff fresh_master_def small_config_def)
qed

section \<open>The hierarchy as a memory\<close>

text \<open>C2. Every sequence of reads and writes on a new hierarchy of write-back caches with direct access to the DRAM and with
  cbPred switched off, in which each block is accessed through one first-level cache, is executed without an abort and without waiting, whatever the
  caches evict and write back on the way, and returns what a flat memory that starts with zeros returns.\<close>

theorem hierarchy_is_flat_memory:
  assumes "hier_fresh fi k s" and "list_all (op_ok k own (h_cntlrs s)) pos"
  shows "\<exists>rs s'. run_ops pos s = Some (rs, s') \<and> list_all2 is_done rs (flat_ops fi (\<lambda>a. replicate (2 ^ k) 0) pos)"
  by (rule run_ops_law [OF fresh_inv [OF assms(1)] assms(2)])

definition small_op :: "nat \<Rightarrow> mem_op_t \<Rightarrow> IntPtr \<Rightarrow> u32 \<Rightarrow> u8 list \<Rightarrow> pending_op" where
  "small_op n op a off d = \<lparr>po_cntlr = n, po_op = op, po_address = a, po_offset = off, po_data = Some d, po_length = of_nat (length d), po_count = True\<rparr>"

theorem hierarchy_is_flat_memory_witness:
  "\<exists>rs s'. run_ops [small_op 1 WRITE 0 1 [1, 2], small_op 5 WRITE 4 0 [7], small_op 1 WRITE 8 0 [3], small_op 1 WRITE 16 0 [4],
       small_op 1 READ 0 0 [0, 0, 0, 0], small_op 5 READ 4 0 [0]] (the small_hier) = Some (rs, s') \<and>
     list_all2 is_done rs [Some [1, 2], Some [7], Some [3], Some [4], Some [0, 1, 2, 0], Some [7]]"
proof -
  let ?ops = "[small_op 1 WRITE 0 1 [1, 2], small_op 5 WRITE 4 0 [7], small_op 1 WRITE 8 0 [3], small_op 1 WRITE 16 0 [4],
       small_op 1 READ 0 0 [0, 0, 0, 0], small_op 5 READ 4 0 [0]]"
  have "list_all (op_ok 2 (\<lambda>a. if a = 4 then 5 else 1) (h_cntlrs (the small_hier))) ?ops"
    by code_simp
  moreover have "flat_ops True (\<lambda>a. replicate (2 ^ 2) 0) ?ops = [Some [1, 2], Some [7], Some [3], Some [4], Some [0, 1, 2, 0], Some [7]]"
    by code_simp
  ultimately show ?thesis
    using hierarchy_is_flat_memory [OF small_fresh, of "\<lambda>a. if a = 4 then 5 else 1" ?ops] by simp
qed



end
