(* ===== verification/EMesh.thy ===== *)
theory EMesh
  imports Tlb
begin

text \<open>
  The mesh network, \<^verbatim>\<open>network/network_model_emesh_hop_by_hop.cc\<close>, and the way \<^verbatim>\<open>Network::netSend\<close> follows a packet from
  node to node. The queue models of the links are disabled, so that the network is the hop counter which the source
  describes for that setting. Coordinates and core numbers are \<^verbatim>\<open>SInt32\<close>; the divisions of the source have
  non-negative operands, for which truncation and rounding down agree.
\<close>

section \<open>State\<close>

datatype OutputDirection = UP | DOWN | LEFT | RIGHT | SELF | PEER | DESTINATION

record Hop =
  hp_final_dest :: int
  hp_next_dest :: int
  hp_time :: nat

abbreviation (input) BROADCAST :: int where "BROADCAST \<equiv> 0xDEADBABE - 2 ^ 32"

text \<open>The configuration that the constructor reads; \<open>ec_size\<close> is the string of the manual size.\<close>

record emesh_config =
  ec_concentration :: int
  ec_dimensions :: int
  ec_size :: string
  ec_wrap_around :: bool
  ec_broadcast_tree :: bool
  ec_hop_latency :: nat
  ec_application_cores :: int
  ec_total_cores :: int

record EMesh =
  em_config :: emesh_config
  em_core_id :: int
  em_mesh_width :: int
  em_mesh_height :: int
  em_fake_node :: bool
  em_enabled :: bool

section \<open>Construction\<close>

text \<open>\<^verbatim>\<open>floor(sqrt(n))\<close>, which is exact in double precision for 32-bit arguments.\<close>

fun floor_sqrt :: "nat \<Rightarrow> nat" where
  "floor_sqrt 0 = 0"
| "floor_sqrt (Suc n) = (let r = floor_sqrt n in if (r + 1) * (r + 1) \<le> Suc n then r + 1 else r)"

text \<open>The conversion \<^verbatim>\<open>%d\<close> of \<^verbatim>\<open>sscanf\<close>: the number and the rest of the input.\<close>

definition scan_int :: "string \<Rightarrow> (int \<times> string) option" where
  "scan_int s =
     (let t = dropWhile is_space s;
          (neg, u) = (case t of
              c # r \<Rightarrow> if c = CHR ''-'' then (True, r) else if c = CHR ''+'' then (False, r) else (False, t)
            | [] \<Rightarrow> (False, []));
          ds = takeWhile is_digit u
      in if ds = [] then None
         else Some (if neg then - int (digits_value ds) else int (digits_value ds), dropWhile is_digit u))"

definition scan_size :: "string \<Rightarrow> (int \<times> int) option" where
  "scan_size s = do {
     (w, r) \<leftarrow> scan_int s;
     case r of
       c # r' \<Rightarrow> if c = CHR '':'' then do { (h, q) \<leftarrow> scan_int r'; Some (w, h) } else None
     | [] \<Rightarrow> None
   }"

definition computeMeshDimensions :: "emesh_config \<Rightarrow> (int \<times> int) option" where
  "computeMeshDimensions cfg = do {
     let core_count = ec_application_cores cfg; let concentration = ec_concentration cfg;
     (mesh_width, mesh_height) \<leftarrow>
       (if ec_size cfg = ''''
        then do {
          ensure (concentration \<noteq> 0);
          if ec_dimensions cfg = 1 then Some (core_count div concentration, 1)
          else if ec_dimensions cfg = 2
          then do {
            let w = int (floor_sqrt (nat (core_count div concentration)));
            ensure (w \<noteq> 0);
            Some (w, (core_count + concentration * w - 1) div (concentration * w))
          }
          else None
        }
        else scan_size (ec_size cfg));
     ensure (core_count = concentration * mesh_height * mesh_width);
     Some (mesh_width, mesh_height)
   }"

definition EMesh_new :: "emesh_config \<Rightarrow> int \<Rightarrow> EMesh option" where
  "EMesh_new cfg core_id = do {
     (w, h) \<leftarrow> computeMeshDimensions cfg;
     ensure (ec_concentration cfg \<noteq> 0);
     Some \<lparr>em_config = cfg, em_core_id = core_id, em_mesh_width = w, em_mesh_height = h,
       em_fake_node = (core_id mod ec_concentration cfg \<noteq> 0 \<or> core_id \<ge> ec_concentration cfg * w * h), em_enabled = False\<rparr>
   }"

section \<open>Routing\<close>

abbreviation (input) concentration :: "EMesh \<Rightarrow> int" where
  "concentration e \<equiv> ec_concentration (em_config e)"

definition computePosition :: "EMesh \<Rightarrow> int \<Rightarrow> int \<times> int" where
  "computePosition e core_id =
     ((core_id div concentration e) mod em_mesh_width e, (core_id div concentration e) div em_mesh_width e)"

definition computeCoreId :: "EMesh \<Rightarrow> int \<Rightarrow> int \<Rightarrow> int" where
  "computeCoreId e x y =
     (let x' = (x + em_mesh_width e) mod em_mesh_width e; y' = (y + em_mesh_height e) mod em_mesh_height e
      in (y' * em_mesh_width e + x') * concentration e)"

definition computeDistance :: "EMesh \<Rightarrow> int \<Rightarrow> int \<Rightarrow> int" where
  "computeDistance e sender receiver =
     (let (sx, sy) = computePosition e sender; (dx, dy) = computePosition e receiver
      in if ec_wrap_around (em_config e)
         then min \<bar>sx - dx\<bar> (em_mesh_width e - \<bar>sx - dx\<bar>) + min \<bar>sy - dy\<bar> (em_mesh_height e - \<bar>sy - dy\<bar>)
         else \<bar>sx - dx\<bar> + \<bar>sy - dy\<bar>)"

definition getNextDest :: "EMesh \<Rightarrow> int \<Rightarrow> int \<times> OutputDirection" where
  "getNextDest e final_dest =
     (let core_id = em_core_id e; wrap = ec_wrap_around (em_config e) in
      if final_dest \<ge> ec_application_cores (em_config e) then (final_dest, DESTINATION)
      else if core_id div concentration e = final_dest div concentration e then (final_dest, DESTINATION)
      else if em_fake_node e then (core_id - core_id mod concentration e, PEER)
      else
        let (sx, sy) = computePosition e core_id; (dx, dy) = computePosition e final_dest in
        if (sx > dx) \<noteq> (wrap \<and> \<bar>sx - dx\<bar> > (em_mesh_width e + 1) div 2) then (computeCoreId e (sx - 1) sy, LEFT)
        else if sx \<noteq> dx then (computeCoreId e (sx + 1) sy, RIGHT)
        else if (sy > dy) \<noteq> (wrap \<and> \<bar>sy - dy\<bar> > (em_mesh_height e + 1) div 2) then (computeCoreId e sx (sy - 1), DOWN)
        else if sy \<noteq> dy then (computeCoreId e sx (sy + 1), UP)
        else (core_id, SELF))"

definition computeLatency :: "EMesh \<Rightarrow> int \<Rightarrow> nat option" where
  "computeLatency e requester = do {
     ensure (\<not> em_fake_node e);
     Some (if \<not> em_enabled e \<or> requester \<ge> ec_application_cores (em_config e) then 0 else ec_hop_latency (em_config e))
   }"

definition addHop :: "EMesh \<Rightarrow> OutputDirection \<Rightarrow> int \<Rightarrow> int \<Rightarrow> nat \<Rightarrow> int \<Rightarrow> Hop option" where
  "addHop e direction final_dest next_dest pkt_time requester = do {
     latency \<leftarrow> (if direction \<in> {SELF, PEER, DESTINATION} then Some 0 else computeLatency e requester);
     Some \<lparr>hp_final_dest = final_dest, hp_next_dest = next_dest, hp_time = pkt_time + latency\<rparr>
   }"

definition routePacket :: "EMesh \<Rightarrow> int \<Rightarrow> int \<Rightarrow> int \<Rightarrow> nat \<Rightarrow> Hop list option" where
  "routePacket e requester sender receiver time = do {
     ensure (0 \<le> requester \<and> requester < ec_total_cores (em_config e));
     let core_id = em_core_id e; let cores = map int [0..<nat (ec_total_cores (em_config e))];
     if receiver = BROADCAST
     then
       if em_fake_node e then those (map (\<lambda>i. addHop e DESTINATION i i time requester) cores)
       else if ec_broadcast_tree (em_config e)
       then
         (let (sx, sy) = computePosition e sender; (cx, cy) = computePosition e core_id in
          those (
            (if cy \<ge> sy then [addHop e UP BROADCAST (computeCoreId e cx (cy + 1)) time requester] else []) @
            (if cy \<le> sy then [addHop e DOWN BROADCAST (computeCoreId e cx (cy - 1)) time requester] else []) @
            (if cy = sy
             then
               (if cx \<ge> sx then [addHop e RIGHT BROADCAST (computeCoreId e (cx + 1) cy) time requester] else []) @
               (if cx \<le> sx then [addHop e LEFT BROADCAST (computeCoreId e (cx - 1) cy) time requester] else []) @
               (if cx = sx then [addHop e SELF core_id core_id time requester] else [])
             else [])))
       else do {
         ensure (sender = core_id);
         those (map (\<lambda>i. let (next_dest, direction) = getNextDest e i in addHop e direction i next_dest time requester) cores)
       }
     else if em_fake_node e then map_option (\<lambda>h. [h]) (addHop e DESTINATION receiver receiver time requester)
     else
       (let (next_dest, direction) = getNextDest e receiver
        in map_option (\<lambda>h. [h]) (addHop e direction receiver next_dest time requester))
   }"

section \<open>Sending a packet\<close>

text \<open>The network model of another core, which has the same configuration.\<close>

definition remote_model :: "EMesh \<Rightarrow> int \<Rightarrow> EMesh option" where
  "remote_model e core_id = do {
     ensure (0 \<le> core_id \<and> core_id < ec_total_cores (em_config e));
     r \<leftarrow> EMesh_new (em_config e) core_id;
     Some (r\<lparr>em_enabled := em_enabled e\<rparr>)
   }"

partial_function (option) follow :: "EMesh \<Rightarrow> int \<Rightarrow> int \<Rightarrow> Hop \<Rightarrow> Hop option" where
  "follow e requester sender hop =
     (if hp_next_dest hop = hp_final_dest hop then Some hop
      else do {
        r \<leftarrow> remote_model e (hp_next_dest hop);
        hops \<leftarrow> routePacket r requester sender (hp_final_dest hop) (hp_time hop);
        case hops of [h] \<Rightarrow> follow e requester sender h | _ \<Rightarrow> None
      })"

declare follow.simps [code]

text \<open>The packets handed to the transport, with the cores they are sent to.\<close>

definition netSend :: "EMesh \<Rightarrow> int \<Rightarrow> int \<Rightarrow> int \<Rightarrow> nat \<Rightarrow> Hop list option" where
  "netSend e requester sender receiver time = do {
     hops \<leftarrow> routePacket e requester sender receiver time;
     those (map (\<lambda>h. if hp_final_dest h \<noteq> BROADCAST then follow e requester sender h else Some h) hops)
   }"

text \<open>The copies of a broadcast that core \<open>c\<close> sends on, as \<^verbatim>\<open>Network::netPullFromTransport\<close> does for a packet whose receiver is not
  the core itself, and the copies in flight after a number of rounds in which every copy moves on.\<close>

definition forwardPacket :: "EMesh \<Rightarrow> int \<Rightarrow> int \<Rightarrow> int \<Rightarrow> int list option" where
  "forwardPacket e requester sender c = do {
     r \<leftarrow> remote_model e c;
     hops \<leftarrow> netSend r requester sender BROADCAST 0;
     Some (map hp_next_dest (filter (\<lambda>h. hp_final_dest h = BROADCAST) hops))
   }"

fun broadcast_rounds :: "nat \<Rightarrow> EMesh \<Rightarrow> int \<Rightarrow> int \<Rightarrow> int list \<Rightarrow> int list option" where
  "broadcast_rounds 0 e requester sender copies = Some copies"
| "broadcast_rounds (Suc k) e requester sender copies = do {
     next_copies \<leftarrow> those (map (forwardPacket e requester sender) copies);
     broadcast_rounds k e requester sender (concat next_copies)
   }"

section \<open>Well-formed meshes\<close>

definition mesh_wf :: "EMesh \<Rightarrow> bool" where
  "mesh_wf e \<longleftrightarrow> computeMeshDimensions (em_config e) = Some (em_mesh_width e, em_mesh_height e) \<and> 0 < concentration e \<and>
     0 < em_mesh_width e \<and> 0 < em_mesh_height e \<and> ec_application_cores (em_config e) \<le> ec_total_cores (em_config e) \<and>
     em_fake_node e = (em_core_id e mod concentration e \<noteq> 0 \<or> em_core_id e \<ge> concentration e * em_mesh_width e * em_mesh_height e)"

text \<open>The number of hops in one dimension.\<close>

definition steps :: "bool \<Rightarrow> int \<Rightarrow> int \<Rightarrow> int \<Rightarrow> int" where
  "steps wrap w s d = (if wrap \<and> \<bar>s - d\<bar> > (w + 1) div 2 then w - \<bar>s - d\<bar> else \<bar>s - d\<bar>)"

lemma wrap_mod:
  assumes "0 < (w :: int)" and "- 1 \<le> x" and "x \<le> w"
  shows "(x + w) mod w = (if x = - 1 then w - 1 else if x = w then 0 else x)"
proof -
  have "(x + w) mod w = x mod w" by simp
  moreover have "(- 1) mod w = w - 1" using assms(1) by (simp add: zmod_minus1)
  ultimately show ?thesis using assms by (auto simp: mod_pos_pos_trivial)
qed

lemma steps_turn:
  assumes w: "0 < w" and s: "0 \<le> s" "s < w" and d: "0 \<le> d" "d < w" and ne: "s \<noteq> d"
    and x: "x = (if (s > d) \<noteq> (wrap \<and> \<bar>s - d\<bar> > (w + 1) div 2) then s - 1 else s + 1)"
  shows "steps wrap w ((x + w) mod w) d = steps wrap w s d - 1" "- 1 \<le> x" "x \<le> w"
proof -
  define q where "q = (w + 1) div 2"
  have q: "2 * q \<le> w + 1" "w \<le> 2 * q" unfolding q_def by linarith+
  show r: "- 1 \<le> x" "x \<le> w" using s x by (auto split: if_splits)
  have x': "x = (if (s > d) \<noteq> (wrap \<and> \<bar>s - d\<bar> > q) then s - 1 else s + 1)" using x by (simp add: q_def)
  show "steps wrap w ((x + w) mod w) d = steps wrap w s d - 1"
    unfolding wrap_mod [OF w r] steps_def q_def [symmetric]
    using s d ne q x' by (cases wrap; cases "s > d"; cases "\<bar>s - d\<bar> > q") (auto simp: abs_if split: if_splits)
qed

lemma steps_zero: "0 < w \<Longrightarrow> 0 \<le> s \<Longrightarrow> s < w \<Longrightarrow> 0 \<le> d \<Longrightarrow> d < w \<Longrightarrow> steps wrap w s d = 0 \<longleftrightarrow> s = d"
  by (auto simp: steps_def)

lemma steps_nonneg: "0 < w \<Longrightarrow> 0 \<le> s \<Longrightarrow> s < w \<Longrightarrow> 0 \<le> d \<Longrightarrow> d < w \<Longrightarrow> 0 \<le> steps wrap w s d"
  by (auto simp: steps_def)


lemma div_less_int:
  assumes "0 < (c :: int)" and "a < c * b"
  shows "a div c < b"
proof (rule ccontr)
  assume "\<not> a div c < b"
  then have "c * b \<le> c * (a div c)" using assms(1) by simp
  moreover have "c * (a div c) \<le> a" using pos_mod_sign [OF assms(1), of a] minus_mult_div_eq_mod [of a c] by linarith
  ultimately show False using assms(2) by linarith
qed

lemma position_range:
  assumes "mesh_wf e" and "0 \<le> c" and "c < ec_application_cores (em_config e)" and "computePosition e c = (x, y)"
  shows "0 \<le> x" "x < em_mesh_width e" "0 \<le> y" "y < em_mesh_height e"
proof -
  let ?w = "em_mesh_width e" and ?h = "em_mesh_height e" and ?c = "concentration e"
  have wf: "0 < ?c" "0 < ?w" "0 < ?h" "ec_application_cores (em_config e) = ?c * ?h * ?w"
    using assms(1) by (auto simp: mesh_wf_def computeMeshDimensions_def Let_def abort_simps)
  have xy: "x = c div ?c mod ?w" "y = c div ?c div ?w" using assms(4) by (simp_all add: computePosition_def)
  show "0 \<le> x" "x < ?w" "0 \<le> y" using wf assms(2) by (simp_all add: xy pos_imp_zdiv_nonneg_iff)
  have "c < ?c * (?h * ?w)" using assms(3) wf(4) by (simp add: mult.assoc)
  then have "c div ?c < ?w * ?h" using div_less_int [OF wf(1)] by (simp add: mult.commute)
  then show "y < ?h" using div_less_int [OF wf(2)] by (simp add: xy(2))
qed

lemma position_of_id:
  assumes "mesh_wf e"
  shows "computePosition e (computeCoreId e x y) = ((x + em_mesh_width e) mod em_mesh_width e, (y + em_mesh_height e) mod em_mesh_height e)"
    and "computeCoreId e x y mod concentration e = 0" "0 \<le> computeCoreId e x y"
    and "computeCoreId e x y < ec_application_cores (em_config e)"
proof -
  let ?w = "em_mesh_width e" and ?h = "em_mesh_height e" and ?c = "concentration e"
  let ?x = "(x + ?w) mod ?w" and ?y = "(y + ?h) mod ?h"
  have wf: "0 < ?c" "0 < ?w" "0 < ?h" "ec_application_cores (em_config e) = ?c * ?h * ?w"
    using assms(1) by (auto simp: mesh_wf_def computeMeshDimensions_def Let_def abort_simps)
  have x: "0 \<le> ?x" "?x < ?w" and y: "0 \<le> ?y" "?y < ?h" using wf by simp_all
  have id: "computeCoreId e x y = (?y * ?w + ?x) * ?c" by (simp add: computeCoreId_def Let_def)
  have "(?y * ?w + ?x) div ?w = ?y" "(?y * ?w + ?x) mod ?w = ?x" using x wf(2) by (simp_all del: mod_add_self2)
  then show "computePosition e (computeCoreId e x y) = (?x, ?y)"
    using wf(1) unfolding id computePosition_def by (simp del: mod_add_self2)
  show "computeCoreId e x y mod ?c = 0" unfolding id by simp
  show "0 \<le> computeCoreId e x y" using x y wf unfolding id by (simp del: mod_add_self2)
  have "(?y + 1) * ?w \<le> ?h * ?w" using y(2) wf(2) by (intro mult_right_mono) auto
  then have "?y * ?w + ?x < ?h * ?w" using x(2) by (simp add: algebra_simps del: mod_add_self2)
  then have "(?y * ?w + ?x) * ?c < (?h * ?w) * ?c" using wf(1) by (rule mult_strict_right_mono)
  then show "computeCoreId e x y < ec_application_cores (em_config e)" unfolding id wf(4) by (simp add: ac_simps del: mod_add_self2)
qed

lemma same_position:
  assumes "mesh_wf e"
  shows "computePosition e c = computePosition e d \<longleftrightarrow> c div concentration e = d div concentration e"
proof
  assume "computePosition e c = computePosition e d"
  then have "c div concentration e mod em_mesh_width e = d div concentration e mod em_mesh_width e"
    "c div concentration e div em_mesh_width e = d div concentration e div em_mesh_width e" by (simp_all add: computePosition_def)
  then show "c div concentration e = d div concentration e" by (metis div_mult_mod_eq)
qed (simp add: computePosition_def)


section \<open>Paths\<close>

definition route_length :: "EMesh \<Rightarrow> int \<Rightarrow> int \<Rightarrow> int" where
  "route_length e c d = (let (sx, sy) = computePosition e c; (dx, dy) = computePosition e d
     in steps (ec_wrap_around (em_config e)) (em_mesh_width e) sx dx + steps (ec_wrap_around (em_config e)) (em_mesh_height e) sy dy)"

definition link_time :: "EMesh \<Rightarrow> int \<Rightarrow> nat" where
  "link_time e requester = (if \<not> em_enabled e \<or> requester \<ge> ec_application_cores (em_config e) then 0 else ec_hop_latency (em_config e))"

abbreviation (input) app_core :: "EMesh \<Rightarrow> int \<Rightarrow> bool" where
  "app_core e c \<equiv> 0 \<le> c \<and> c < ec_application_cores (em_config e)"

lemma route_length_nonneg:
  assumes "mesh_wf e" and "app_core e c" and "app_core e d"
  shows "0 \<le> route_length e c d"
proof -
  obtain sx sy dx dy where p: "computePosition e c = (sx, sy)" "computePosition e d = (dx, dy)" by fastforce
  show ?thesis
    using position_range [OF assms(1) _ _ p(1)] position_range [OF assms(1) _ _ p(2)] assms
    by (simp add: route_length_def p mesh_wf_def steps_nonneg)
qed

lemma route_length_zero:
  assumes "mesh_wf e" and "app_core e c" and "app_core e d"
  shows "route_length e c d = 0 \<longleftrightarrow> c div concentration e = d div concentration e"
proof -
  obtain sx sy dx dy where p: "computePosition e c = (sx, sy)" "computePosition e d = (dx, dy)" by fastforce
  note c = position_range [OF assms(1) _ _ p(1)] and d = position_range [OF assms(1) _ _ p(2)]
  let ?wrap = "ec_wrap_around (em_config e)"
  have wh: "0 < em_mesh_width e" "0 < em_mesh_height e" using assms(1) by (simp_all add: mesh_wf_def)
  have "route_length e c d = 0 \<longleftrightarrow> steps ?wrap (em_mesh_width e) sx dx = 0 \<and> steps ?wrap (em_mesh_height e) sy dy = 0"
    using steps_nonneg [OF wh(1), of sx dx ?wrap] steps_nonneg [OF wh(2), of sy dy ?wrap] c d assms(2,3) by (auto simp: route_length_def p)
  also have "\<dots> \<longleftrightarrow> sx = dx \<and> sy = dy"
    using steps_zero [OF wh(1), of sx dx ?wrap] steps_zero [OF wh(2), of sy dy ?wrap] c d assms(2,3) by auto
  also have "\<dots> \<longleftrightarrow> c div concentration e = d div concentration e"
    using same_position [OF assms(1), of c d] by (simp add: p)
  finally show ?thesis .
qed

lemma next_hop:
  assumes wf: "mesh_wf e" and "\<not> em_fake_node e" and c: "app_core e (em_core_id e)" and d: "app_core e d"
    and ne: "em_core_id e div concentration e \<noteq> d div concentration e"
  shows "\<exists>x y dir. getNextDest e d = (computeCoreId e x y, dir) \<and> dir \<notin> {SELF, PEER, DESTINATION} \<and>
    route_length e (computeCoreId e x y) d = route_length e (em_core_id e) d - 1"
proof -
  let ?w = "em_mesh_width e" and ?h = "em_mesh_height e" and ?wrap = "ec_wrap_around (em_config e)"
  obtain sx sy dx dy where p: "computePosition e (em_core_id e) = (sx, sy)" "computePosition e d = (dx, dy)" by fastforce
  note s = position_range [OF wf conjunct1 [OF c] conjunct2 [OF c] p(1)]
  note t = position_range [OF wf conjunct1 [OF d] conjunct2 [OF d] p(2)]
  have wh: "0 < ?w" "0 < ?h" using wf by (simp_all add: mesh_wf_def)
  have sp: "(sx, sy) \<noteq> (dx, dy)" using ne same_position [OF wf, of "em_core_id e" d] by (simp add: p)
  have len: "route_length e (computeCoreId e x y) d = steps ?wrap ?w ((x + ?w) mod ?w) dx + steps ?wrap ?h ((y + ?h) mod ?h) dy" for x y
    by (simp add: route_length_def position_of_id(1) [OF wf] p(2))
  have len0: "route_length e (em_core_id e) d = steps ?wrap ?w sx dx + steps ?wrap ?h sy dy" by (simp add: route_length_def p)
  have g: "getNextDest e d = (if (sx > dx) \<noteq> (?wrap \<and> \<bar>sx - dx\<bar> > (?w + 1) div 2) then (computeCoreId e (sx - 1) sy, LEFT)
        else if sx \<noteq> dx then (computeCoreId e (sx + 1) sy, RIGHT)
        else if (sy > dy) \<noteq> (?wrap \<and> \<bar>sy - dy\<bar> > (?h + 1) div 2) then (computeCoreId e sx (sy - 1), DOWN)
        else if sy \<noteq> dy then (computeCoreId e sx (sy + 1), UP) else (em_core_id e, SELF))"
    using assms(2) d ne by (simp add: getNextDest_def Let_def p)
  show ?thesis
  proof (cases "sx = dx")
    case False
    define x where "x = (if (sx > dx) \<noteq> (?wrap \<and> \<bar>sx - dx\<bar> > (?w + 1) div 2) then sx - 1 else sx + 1)"
    have "steps ?wrap ?w ((x + ?w) mod ?w) dx = steps ?wrap ?w sx dx - 1"
      using steps_turn(1) [OF wh(1) s(1,2) t(1,2) False x_def] .
    moreover have "(sy + ?h) mod ?h = sy" using s by simp
    moreover have "\<exists>dir. getNextDest e d = (computeCoreId e x sy, dir) \<and> dir \<notin> {SELF, PEER, DESTINATION}" using False by (auto simp: g x_def)
    ultimately show ?thesis using len [of x sy] len0 by (intro exI [of _ x] exI [of _ sy]) auto
  next
    case True
    then have ne: "sy \<noteq> dy" using sp by simp
    define y where "y = (if (sy > dy) \<noteq> (?wrap \<and> \<bar>sy - dy\<bar> > (?h + 1) div 2) then sy - 1 else sy + 1)"
    have "steps ?wrap ?h ((y + ?h) mod ?h) dy = steps ?wrap ?h sy dy - 1"
      using steps_turn(1) [OF wh(2) s(3,4) t(3,4) ne y_def] .
    moreover have "(sx + ?w) mod ?w = sx" using s by simp
    moreover have "\<not> (?w + 1) div 2 < 0" using wh by linarith
    then have "\<exists>dir. getNextDest e d = (computeCoreId e sx y, dir) \<and> dir \<notin> {SELF, PEER, DESTINATION}" using True ne by (auto simp: g y_def)
    ultimately show ?thesis using len [of sx y] len0 by (intro exI [of _ sx] exI [of _ y]) auto
  qed
qed

lemma remote_node:
  assumes "mesh_wf e" and "0 \<le> c" and "c < ec_total_cores (em_config e)"
  shows "\<exists>r. remote_model e c = Some r \<and> mesh_wf r \<and> em_core_id r = c \<and> em_config r = em_config e \<and> em_enabled r = em_enabled e \<and>
    route_length r = route_length e \<and> computeCoreId r = computeCoreId e \<and>
    (c < ec_application_cores (em_config e) \<longrightarrow> c mod concentration e = 0 \<longrightarrow> \<not> em_fake_node r)"
proof -
  have app: "ec_application_cores (em_config e) = concentration e * em_mesh_height e * em_mesh_width e"
    using assms(1) by (auto simp: mesh_wf_def computeMeshDimensions_def Let_def abort_simps)
  define r where "r = e\<lparr>em_core_id := c, em_fake_node := (c mod concentration e \<noteq> 0 \<or> c \<ge> concentration e * em_mesh_width e * em_mesh_height e)\<rparr>"
  have "remote_model e c = Some r"
    using assms by (cases e) (simp add: remote_model_def EMesh_new_def mesh_wf_def r_def)
  moreover have "mesh_wf r" using assms(1) by (simp add: mesh_wf_def r_def)
  moreover have "route_length r = route_length e" "computeCoreId r = computeCoreId e"
    by (simp_all add: fun_eq_iff route_length_def computePosition_def computeCoreId_def r_def)
  moreover have "c < ec_application_cores (em_config e) \<longrightarrow> c mod concentration e = 0 \<longrightarrow> \<not> em_fake_node r"
    unfolding app by (simp add: r_def mult.assoc mult.commute [of "em_mesh_height e"])
  ultimately show ?thesis by (intro exI [of _ r]) (simp add: r_def)
qed

lemma follow_done: "hp_next_dest h = hp_final_dest h \<Longrightarrow> follow e requester sender h = Some h"
  by (subst follow.simps) simp

lemma follow_path:
  assumes wf: "mesh_wf e" and d: "app_core e d" and req: "0 \<le> requester" "requester < ec_total_cores (em_config e)"
    and c: "app_core e c" "c mod concentration e = 0" and n: "int n = route_length e c d"
  shows "follow e requester sender \<lparr>hp_final_dest = d, hp_next_dest = c, hp_time = t\<rparr> =
    Some \<lparr>hp_final_dest = d, hp_next_dest = d, hp_time = t + n * link_time e requester\<rparr>"
proof -
  have total: "c < ec_total_cores (em_config e)" if "app_core e c" for c using that wf by (simp add: mesh_wf_def)
  show ?thesis
    using c n
  proof (induction n arbitrary: c t)
    case 0
    then have same: "c div concentration e = d div concentration e" using route_length_zero [OF wf _ d] by auto
    obtain r where r: "remote_model e c = Some r" "mesh_wf r" "em_core_id r = c" "em_config r = em_config e" "\<not> em_fake_node r"
      using remote_node [OF wf _ total [OF 0(1)]] 0(1,2) by blast
    have "routePacket r requester sender d t = Some [\<lparr>hp_final_dest = d, hp_next_dest = d, hp_time = t\<rparr>]"
      using req d same r by (simp add: routePacket_def getNextDest_def addHop_def)
    then show ?case
      using r(1) by (subst follow.simps) (simp add: follow_done)
  next
    case (Suc n)
    have ne: "c div concentration e \<noteq> d div concentration e" using Suc.prems route_length_zero [OF wf _ d, of c] by auto
    obtain r where r: "remote_model e c = Some r" "mesh_wf r" "em_core_id r = c" "em_config r = em_config e" "em_enabled r = em_enabled e"
        "route_length r = route_length e" "computeCoreId r = computeCoreId e" "\<not> em_fake_node r"
      using remote_node [OF wf _ total [OF Suc.prems(1)]] Suc.prems(1,2) by blast
    obtain x y dir where g: "getNextDest r d = (computeCoreId e x y, dir)" "dir \<notin> {SELF, PEER, DESTINATION}"
        "route_length e (computeCoreId e x y) d = route_length e c d - 1"
      using next_hop [OF r(2,8), of d, unfolded r(3,4,6,7), OF Suc.prems(1) d ne] by blast
    have "routePacket r requester sender d t = Some [\<lparr>hp_final_dest = d, hp_next_dest = computeCoreId e x y, hp_time = t + link_time e requester\<rparr>]"
      using req d r g(1,2) by (simp add: routePacket_def addHop_def computeLatency_def link_time_def)
    moreover have "c \<noteq> d" using ne by auto
    ultimately have "follow e requester sender \<lparr>hp_final_dest = d, hp_next_dest = c, hp_time = t\<rparr> =
        follow e requester sender \<lparr>hp_final_dest = d, hp_next_dest = computeCoreId e x y, hp_time = t + link_time e requester\<rparr>"
      using r(1) by (subst follow.simps) simp
    then show ?case
      using Suc.IH [of "computeCoreId e x y" "t + link_time e requester"] position_of_id [OF wf, of x y] g(3) Suc.prems(3)
      by (simp add: algebra_simps)
  qed
qed

lemma new_mesh_wf:
  assumes "EMesh_new cfg c = Some e" and "0 < ec_concentration cfg" "0 < ec_application_cores cfg"
    "ec_application_cores cfg \<le> ec_total_cores cfg" "0 < em_mesh_width e"
  shows "mesh_wf (e\<lparr>em_enabled := b\<rparr>)" "em_config e = cfg" "em_core_id e = c"
proof -
  have d: "computeMeshDimensions cfg = Some (em_mesh_width e, em_mesh_height e)" "em_config e = cfg" "em_core_id e = c"
      "em_fake_node e = (c mod ec_concentration cfg \<noteq> 0 \<or> c \<ge> ec_concentration cfg * em_mesh_width e * em_mesh_height e)"
    using assms(1) by (auto simp: EMesh_new_def abort_simps)
  then have "ec_application_cores cfg = ec_concentration cfg * em_mesh_height e * em_mesh_width e"
    by (auto simp: computeMeshDimensions_def Let_def abort_simps)
  then have "0 < em_mesh_height e" using assms(2,3,5) by (simp add: zero_less_mult_iff)
  then show "mesh_wf (e\<lparr>em_enabled := b\<rparr>)" "em_config e = cfg" "em_core_id e = c" using d assms by (simp_all add: mesh_wf_def)
qed

lemma route_length_bound:
  assumes "mesh_wf e" and "app_core e c" and "app_core e d"
  shows "route_length e c d \<le> em_mesh_width e + em_mesh_height e"
proof -
  obtain sx sy dx dy where p: "computePosition e c = (sx, sy)" "computePosition e d = (dx, dy)" by fastforce
  show ?thesis
    using position_range [OF assms(1) _ _ p(1)] position_range [OF assms(1) _ _ p(2)] assms(2,3)
    by (auto simp: route_length_def p steps_def)
qed

lemma netSend_path:
  assumes wf: "mesh_wf e" and d: "0 \<le> d" "d < ec_total_cores (em_config e)" and req: "0 \<le> requester" "requester < ec_total_cores (em_config e)"
    and c: "0 \<le> em_core_id e"
  shows "netSend e requester sender d t = Some [\<lparr>hp_final_dest = d, hp_next_dest = d,
    hp_time = t + (if em_fake_node e \<or> d \<ge> ec_application_cores (em_config e) then 0 else nat (route_length e (em_core_id e) d)) * link_time e requester\<rparr>]"
proof -
  have nb: "d \<noteq> BROADCAST" using d by simp
  show ?thesis
  proof (cases "em_fake_node e \<or> d \<ge> ec_application_cores (em_config e)")
    case True
    then have "routePacket e requester sender d t = Some [\<lparr>hp_final_dest = d, hp_next_dest = d, hp_time = t\<rparr>]"
      using req nb by (auto simp: routePacket_def addHop_def getNextDest_def)
    then show ?thesis using True nb by (simp add: netSend_def follow_done)
  next
    case False
    then have app: "app_core e d" "app_core e (em_core_id e)" "em_core_id e mod concentration e = 0" "\<not> em_fake_node e"
      using wf d c by (auto simp: mesh_wf_def computeMeshDimensions_def Let_def abort_simps ac_simps)
    show ?thesis
    proof (cases "em_core_id e div concentration e = d div concentration e")
      case True
      then have "routePacket e requester sender d t = Some [\<lparr>hp_final_dest = d, hp_next_dest = d, hp_time = t\<rparr>]"
        using req nb app by (auto simp: routePacket_def addHop_def getNextDest_def)
      moreover have "route_length e (em_core_id e) d = 0" using route_length_zero [OF wf app(2,1)] True by simp
      ultimately show ?thesis using nb by (simp add: netSend_def follow_done)
    next
      case ne: False
      obtain x y dir where g: "getNextDest e d = (computeCoreId e x y, dir)" "dir \<notin> {SELF, PEER, DESTINATION}"
          "route_length e (computeCoreId e x y) d = route_length e (em_core_id e) d - 1"
        using next_hop [OF wf app(4,2,1) ne] by blast
      let ?n = "nat (route_length e (computeCoreId e x y) d)"
      have node: "app_core e (computeCoreId e x y)" "computeCoreId e x y mod concentration e = 0"
        using position_of_id [OF wf, of x y] by auto
      have n: "int ?n = route_length e (computeCoreId e x y) d" using route_length_nonneg [OF wf node(1) app(1)] by simp
      have "routePacket e requester sender d t = Some [\<lparr>hp_final_dest = d, hp_next_dest = computeCoreId e x y, hp_time = t + link_time e requester\<rparr>]"
        using req nb app g by (simp add: routePacket_def addHop_def computeLatency_def link_time_def)
      moreover have "nat (route_length e (em_core_id e) d) = Suc ?n" using n g(3) by linarith
      ultimately show ?thesis
        using follow_path [OF wf app(1) req node n, of sender "t + link_time e requester"] nb app False
        by (simp add: netSend_def)
    qed
  qed
qed


section \<open>Properties\<close>

text \<open>C13. A packet sent to one core arrives: from every core, the loop of \<^verbatim>\<open>netSend\<close> that follows the hops ends and hands exactly one packet
  to the transport, addressed to the receiver, after at most as many links as the mesh is wide and high together. This
  holds for meshes and tori of every size, for concentrated nodes, and for cores outside of the mesh.\<close>

theorem packets_arrive:
  assumes "EMesh_new cfg c = Some e" and "0 < ec_concentration cfg" and "0 < ec_application_cores cfg"
    and "ec_application_cores cfg \<le> ec_total_cores cfg" and "0 < em_mesh_width e" and "0 \<le> c"
    and "0 \<le> receiver" and "receiver < ec_total_cores cfg" and "0 \<le> requester" and "requester < ec_total_cores cfg"
  shows "\<exists>t'. netSend (e\<lparr>em_enabled := True\<rparr>) requester c receiver t =
      Some [\<lparr>hp_final_dest = receiver, hp_next_dest = receiver, hp_time = t'\<rparr>] \<and>
    t \<le> t' \<and> t' \<le> t + nat (em_mesh_width e + em_mesh_height e) * ec_hop_latency cfg"
proof -
  let ?e = "e\<lparr>em_enabled := True\<rparr>"
  note wf = new_mesh_wf(1) [OF assms(1-5), of True] new_mesh_wf(2,3) [OF assms(1-5)]
  define n where "n = (if em_fake_node ?e \<or> receiver \<ge> ec_application_cores cfg then 0 else nat (route_length ?e c receiver))"
  have "n \<le> nat (em_mesh_width e + em_mesh_height e)"
  proof (cases "em_fake_node ?e \<or> receiver \<ge> ec_application_cores cfg")
    case False
    then have "app_core ?e c"
      using assms(6) wf by (auto simp: mesh_wf_def computeMeshDimensions_def Let_def abort_simps ac_simps)
    then show ?thesis
      using route_length_bound [OF wf(1), of c receiver] False assms(7) wf(2) by (simp add: n_def)
  qed (simp add: n_def)
  moreover have "link_time ?e requester \<le> ec_hop_latency cfg" by (simp add: link_time_def wf(2))
  ultimately have "n * link_time ?e requester \<le> nat (em_mesh_width e + em_mesh_height e) * ec_hop_latency cfg"
    by (rule mult_le_mono)
  moreover have "netSend ?e requester c receiver t =
      Some [\<lparr>hp_final_dest = receiver, hp_next_dest = receiver, hp_time = t + n * link_time ?e requester\<rparr>]"
    using netSend_path [OF wf(1), of receiver requester c t] assms(6-10) wf(2,3) by (simp add: n_def)
  ultimately show ?thesis by simp
qed

definition ring :: "int \<Rightarrow> emesh_config" where
  "ring n = \<lparr>ec_concentration = 1, ec_dimensions = 1, ec_size = '''', ec_wrap_around = True, ec_broadcast_tree = True, ec_hop_latency = 2,
     ec_application_cores = n, ec_total_cores = n\<rparr>"

theorem packets_arrive_witness:
  "\<exists>e t'. EMesh_new (ring 6) 1 = Some e \<and> netSend (e\<lparr>em_enabled := True\<rparr>) 1 1 5 100 =
      Some [\<lparr>hp_final_dest = 5, hp_next_dest = 5, hp_time = t'\<rparr>] \<and> 100 \<le> t' \<and> t' \<le> 114"
proof -
  obtain e where e: "EMesh_new (ring 6) 1 = Some e" "em_mesh_width e = 6" "em_mesh_height e = 1"
    by (simp add: EMesh_new_def computeMeshDimensions_def ring_def)
  show ?thesis
    using packets_arrive [OF e(1), of 5 1 100] e by (simp add: ring_def)
qed

lemma steps_min:
  assumes "0 \<le> s" "s < w" "0 \<le> d" "d < w" and "even w"
  shows "steps True w s d = min \<bar>s - d\<bar> (w - \<bar>s - d\<bar>)"
proof -
  obtain q where "w = 2 * q" using assms(5) by (rule evenE)
  moreover have "(2 * q + 1) div 2 = q" by simp
  ultimately show ?thesis using assms by (auto simp: steps_def min_def)
qed

text \<open>C25. Between two nodes of a mesh, or of a torus of even width and height, the packet needs exactly the time of
  \<^verbatim>\<open>computeDistance\<close> links, so that \<^verbatim>\<open>processReceivedPacket\<close> finds no contention when there is none.\<close>

theorem mesh_latency_is_distance:
  assumes "EMesh_new cfg c = Some e" and "0 < ec_concentration cfg" and "0 < ec_application_cores cfg"
    and "ec_application_cores cfg \<le> ec_total_cores cfg" and "0 < em_mesh_width e" and "0 \<le> c" and "\<not> em_fake_node e"
    and "0 \<le> receiver" and "receiver < ec_application_cores cfg" and "0 \<le> requester" and "requester < ec_application_cores cfg"
    and "ec_wrap_around cfg \<longrightarrow> even (em_mesh_width e) \<and> even (em_mesh_height e)"
  shows "netSend (e\<lparr>em_enabled := True\<rparr>) requester c receiver t =
      Some [\<lparr>hp_final_dest = receiver, hp_next_dest = receiver, hp_time = t + nat (computeDistance e c receiver) * ec_hop_latency cfg\<rparr>]"
proof -
  let ?e = "e\<lparr>em_enabled := True\<rparr>"
  note wf = new_mesh_wf(1) [OF assms(1-5), of True] new_mesh_wf(2,3) [OF assms(1-5)]
  have c: "app_core ?e c"
    using assms(6,7) wf by (auto simp: mesh_wf_def computeMeshDimensions_def Let_def abort_simps ac_simps)
  obtain sx sy dx dy where p: "computePosition ?e c = (sx, sy)" "computePosition ?e receiver = (dx, dy)" by fastforce
  have s: "0 \<le> sx" "sx < em_mesh_width e" "0 \<le> sy" "sy < em_mesh_height e" "0 \<le> dx" "dx < em_mesh_width e" "0 \<le> dy" "dy < em_mesh_height e"
    using position_range [OF wf(1) _ _ p(1)] position_range [OF wf(1) _ _ p(2)] c assms(8,9) wf(2) by simp_all
  have "computePosition e = computePosition ?e" by (simp add: fun_eq_iff computePosition_def)
  then have "computeDistance e c receiver = route_length ?e c receiver"
    using assms(12) s steps_min [OF s(1,2,5,6)] steps_min [OF s(3,4,7,8)]
    by (cases "ec_wrap_around cfg") (simp_all add: computeDistance_def route_length_def p wf(2), simp add: steps_def)
  then show ?thesis
    using netSend_path [OF wf(1), of receiver requester c t] assms wf(2,3) by (simp add: link_time_def)
qed

theorem mesh_latency_is_distance_witness:
  "\<exists>e. EMesh_new (ring 6\<lparr>ec_wrap_around := False\<rparr>) 1 = Some e \<and> netSend (e\<lparr>em_enabled := True\<rparr>) 1 1 5 100 =
      Some [\<lparr>hp_final_dest = 5, hp_next_dest = 5, hp_time = 108\<rparr>]"
proof -
  obtain e where e: "EMesh_new (ring 6\<lparr>ec_wrap_around := False\<rparr>) 1 = Some e" "em_mesh_width e = 6" "em_mesh_height e = 1" "\<not> em_fake_node e"
      "computeDistance e 1 5 = 4"
    by (simp add: EMesh_new_def computeMeshDimensions_def ring_def computeDistance_def computePosition_def)
  show ?thesis
    using mesh_latency_is_distance [OF e(1), of 5 1 100] e by (simp add: ring_def)
qed

text \<open>In a ring with an odd number of nodes the route is not the shortest one: from node 0 to node 3 of five the packet takes
  three links although \<^verbatim>\<open>computeDistance\<close> is two, because the test for the short way round compares with half of the width
  rounded up. The difference is counted as contention.\<close>

theorem odd_ring_detour:
  "map_option (\<lambda>e. (map_option (map hp_time) (netSend (e\<lparr>em_enabled := True\<rparr>) 0 0 3 0), computeDistance e 0 3)) (EMesh_new (ring 5) 0)
     = Some (Some [3 * 2], 2)"
  by code_simp

text \<open>C19. A broadcast over the tree never ends: after any number of rounds copies of the packet are in flight. The coordinates of
  the next node wrap around also where the tree should stop, so that every node passes the packet on.\<close>

theorem broadcast_tree_never_ends:
  assumes "EMesh_new cfg c = Some e" and "0 < ec_concentration cfg" and "0 < ec_application_cores cfg"
    and "ec_application_cores cfg \<le> ec_total_cores cfg" and "0 < em_mesh_width e" and "0 \<le> c" and "\<not> em_fake_node e"
    and "ec_broadcast_tree cfg" and "0 \<le> requester" and "requester < ec_total_cores cfg"
  shows "\<exists>copies. broadcast_rounds k e requester c [c] = Some copies \<and> copies \<noteq> []"
proof -
  note wf = new_mesh_wf(1) [OF assms(1-5), of "em_enabled e"] new_mesh_wf(2,3) [OF assms(1-5)]
  have wf1: "mesh_wf e" using wf(1) by simp
  let ?node = "\<lambda>c. app_core e c \<and> c mod concentration e = 0"
  have forward: "\<exists>l. forwardPacket e requester c i = Some l \<and> l \<noteq> [] \<and> list_all ?node l" if i: "?node i" for i
  proof -
    have t: "i < ec_total_cores (em_config e)" using i wf1 by (simp add: mesh_wf_def)
    obtain r where r: "remote_model e i = Some r" "em_core_id r = i" "em_config r = em_config e" "computeCoreId r = computeCoreId e" "\<not> em_fake_node r"
      using remote_node [OF wf1 _ t] i by blast
    obtain sx sy cx cy where p: "computePosition r c = (sx, sy)" "computePosition r i = (cx, cy)" by fastforce
    have nb: "i \<noteq> - 559039810" using i by simp
    have id: "?node (computeCoreId e x y)" for x y using position_of_id [OF wf1, of x y] by simp
    have req: "0 \<le> requester" "requester < ec_total_cores (em_config r)" "ec_broadcast_tree (em_config r)" using assms(8-10) wf(2) r(3) by simp_all
    define lat where "lat = link_time r requester"
    have lat: "computeLatency r requester = Some lat" using r(5) by (simp add: computeLatency_def lat_def link_time_def)
    consider "cy < sy" | "cy > sy" | "cy = sy" "cx < sx" | "cy = sy" "cx > sx" | "cy = sy" "cx = sx" by linarith
    then show ?thesis
      by cases (use r(1,5) req in \<open>simp_all add: forwardPacket_def netSend_def routePacket_def r(2) r(4) p addHop_def lat id nb follow_done\<close>)
  qed
  have rounds: "\<exists>copies. broadcast_rounds k e requester c l = Some copies \<and> copies \<noteq> []" if "l \<noteq> []" "list_all ?node l" for k l
    using that
  proof (induction k arbitrary: l)
    case (Suc k)
    obtain f where f: "\<forall>i \<in> set l. forwardPacket e requester c i = Some (f i) \<and> f i \<noteq> [] \<and> list_all ?node (f i)"
      using forward Suc.prems(2) unfolding list_all_iff by metis
    then have "those (map (forwardPacket e requester c) l) = Some (map f l)" by (induction l) auto
    moreover have "concat (map f l) \<noteq> []" "list_all ?node (concat (map f l))"
      using f Suc.prems(1) by (cases l; auto simp: list_all_iff)+
    ultimately show ?case using Suc.IH [of "concat (map f l)"] by auto
  qed simp
  have "?node c"
    using assms(6,7) wf(2,3) wf1 by (auto simp: mesh_wf_def computeMeshDimensions_def Let_def abort_simps ac_simps)
  then show ?thesis by (intro rounds) auto
qed


theorem broadcast_tree_never_ends_witness:
  "\<exists>e copies. EMesh_new (ring 3) 0 = Some e \<and> broadcast_rounds 100 e 0 0 [0] = Some copies \<and> copies \<noteq> []"
proof -
  obtain e where e: "EMesh_new (ring 3) 0 = Some e" "em_mesh_width e = 3" "\<not> em_fake_node e"
    by (simp add: EMesh_new_def computeMeshDimensions_def ring_def)
  show ?thesis
    using broadcast_tree_never_ends [OF e(1), of 0 100] e by (simp add: ring_def)
qed

end
