(* ===== verification/Placement.thy ===== *)
theory Placement
  imports EMesh
begin

text \<open>
  The cores that have a DRAM controller or a tag directory: \<^verbatim>\<open>getCoreListWithMemoryControllers\<close> of
  \<^verbatim>\<open>memory_manager_base.cc\<close>, the positions that the network models choose, and the list of tag directories that the
  constructor of the memory manager makes. Together with the home lookup they decide which core owns an address.
\<close>

section \<open>Positions chosen by the network\<close>

datatype network_type = NETWORK_MAGIC | NETWORK_EMESH_HOP_COUNTER | NETWORK_EMESH_HOP_BY_HOP | NETWORK_BUS

definition parseNetworkType :: "string \<Rightarrow> network_type option" where
  "parseNetworkType str =
     (if str = ''magic'' then Some NETWORK_MAGIC
      else if str = ''emesh_hop_counter'' then Some NETWORK_EMESH_HOP_COUNTER
      else if str = ''emesh_hop_by_hop'' then Some NETWORK_EMESH_HOP_BY_HOP
      else if str = ''bus'' then Some NETWORK_BUS else None)"

text \<open>The loops of the source over \<^verbatim>\<open>SInt32\<close> counters.\<close>

definition below_int :: "int \<Rightarrow> int list" where
  "below_int n = map int [0..<nat n]"

definition perimeter :: "int \<Rightarrow> int \<Rightarrow> int \<Rightarrow> int list option" where
  "perimeter dimensions mesh_width mesh_height =
     (if dimensions > 1 \<and> mesh_height > 1
      then do {
        let l = below_int mesh_width @
          map (\<lambda>i. i * mesh_width + mesh_width - 1) (filter (\<lambda>i. 1 \<le> i) (below_int (mesh_height - 1))) @
          map (\<lambda>i. (mesh_height - 1) * mesh_width + i) (rev (below_int mesh_width)) @
          map (\<lambda>i. i * mesh_width) (rev (filter (\<lambda>i. 1 \<le> i) (below_int (mesh_height - 1))));
        ensure (int (length l) = 2 * (mesh_width + mesh_height - 2));
        Some l
      }
      else Some (below_int mesh_width))"

definition mesh_positions :: "emesh_config \<Rightarrow> int \<Rightarrow> int list option" where
  "mesh_positions cfg num_memory_controllers = do {
     (mesh_width, mesh_height) \<leftarrow> computeMeshDimensions cfg;
     l \<leftarrow> perimeter (ec_dimensions cfg) mesh_width mesh_height;
     ensure (0 \<le> num_memory_controllers \<and> num_memory_controllers \<le> int (length l));
     ensure (num_memory_controllers \<noteq> 0);
     let spacing = int (length l) div num_memory_controllers;
     Some (map (\<lambda>i. ec_concentration cfg * l ! nat ((i * spacing + mesh_width div 2) mod int (length l))) (below_int num_memory_controllers))
   }"

definition computeMemoryControllerPositions :: "emesh_config \<Rightarrow> network_type option \<Rightarrow> int \<Rightarrow> int \<Rightarrow> int list option" where
  "computeMemoryControllerPositions cfg network num_memory_controllers core_count =
     (case network of
        None \<Rightarrow> None
      | Some NETWORK_EMESH_HOP_BY_HOP \<Rightarrow> mesh_positions cfg num_memory_controllers
      | Some _ \<Rightarrow> do {
          ensure (num_memory_controllers \<noteq> 0);
          let spacing = core_count div num_memory_controllers;
          ensure (list_all (\<lambda>i. i * spacing < core_count) (below_int num_memory_controllers));
          Some (map (\<lambda>i. i * spacing) (below_int num_memory_controllers))
        })"

section \<open>Positions from the configuration\<close>

definition atoi :: "string \<Rightarrow> int" where
  "atoi s = (case scan_int s of None \<Rightarrow> 0 | Some (v, rest) \<Rightarrow> v)"

function parseMemoryControllerList :: "string \<Rightarrow> int \<Rightarrow> int list option" where
  "parseMemoryControllerList positions core_count = do {
     let core_num = atoi (takeWhile (\<lambda>c. c \<noteq> CHR '','') positions);
     ensure (core_num < core_count);
     case dropWhile (\<lambda>c. c \<noteq> CHR '','') positions of
       [] \<Rightarrow> Some [core_num]
     | c # rest \<Rightarrow> do { l \<leftarrow> parseMemoryControllerList rest core_count; Some (core_num # l) }
   }"
  by pat_completeness auto

termination
proof (relation "measure (\<lambda>(positions, n). length positions)")
  fix positions rest :: string and c :: char
  assume "dropWhile (\<lambda>c. c \<noteq> CHR '','') positions = c # rest"
  then show "((rest, n), positions, n) \<in> measure (\<lambda>(positions, n :: int). length positions)" for n
    using length_dropWhile_le [of "\<lambda>c. c \<noteq> CHR '',''" positions] by simp
qed simp

declare parseMemoryControllerList.simps [simp del]

text \<open>\<open>num_memory_controllers\<close> is -1 for the placement at regular distances.\<close>

definition getCoreListWithMemoryControllers :: "emesh_config \<Rightarrow> string \<Rightarrow> int \<Rightarrow> int \<Rightarrow> string \<Rightarrow> int \<Rightarrow> int list option" where
  "getCoreListWithMemoryControllers cfg network num_memory_controllers interleaving positions core_count = do {
     ensure (num_memory_controllers \<le> core_count);
     if num_memory_controllers \<noteq> - 1
     then do {
       l \<leftarrow> (if positions = '''' then Some [] else parseMemoryControllerList positions core_count);
       ensure (l = [] \<or> int (length l) = num_memory_controllers);
       if l \<noteq> [] then Some l
       else computeMemoryControllerPositions cfg (parseNetworkType network) num_memory_controllers core_count
     }
     else if interleaving \<noteq> 0
     then do {
       let n = (core_count + interleaving - 1) div interleaving;
       ensure (list_all (\<lambda>i. i * interleaving < core_count) (below_int n));
       Some (map (\<lambda>i. i * interleaving) (below_int n))
     }
     else Some (below_int core_count)
   }"

text \<open>The tag directories. A loop over all cores with a step of zero or less does not end, which is \<open>None\<close> here.\<close>

definition tag_directory_list :: "string \<Rightarrow> int \<Rightarrow> int \<Rightarrow> int list \<Rightarrow> int \<Rightarrow> int list option" where
  "tag_directory_list locations llc_shared_cores interleaving dram_controllers application_cores = do {
     if locations = ''dram'' then Some dram_controllers
     else do {
       step \<leftarrow> (if locations = ''llc'' then Some llc_shared_cores else if locations = ''interleaved'' then Some interleaving else None);
       if application_cores \<le> 0 then Some []
       else do {
         ensure (0 < step);
         Some (map (\<lambda>i. i * step) (below_int ((application_cores + step - 1) div step)))
       }
     }
   }"

section \<open>The lists are valid\<close>

definition core_list :: "int \<Rightarrow> int list \<Rightarrow> bool" where
  "core_list n l \<longleftrightarrow> l \<noteq> [] \<and> int (length l) \<le> n \<and> (\<forall>c \<in> set l. 0 \<le> c \<and> c < n)"

lemma below_int_simps [simp]: "set (below_int n) = {0..<n}" "length (below_int n) = nat n" "below_int n = [] \<longleftrightarrow> n \<le> 0"
  by (cases "0 \<le> n"; simp add: below_int_def image_int_atLeastLessThan)+

lemma scan_int_nonneg:
  assumes "CHR ''-'' \<notin> set s" and "scan_int s = Some (v, r)"
  shows "0 \<le> v"
proof -
  have "CHR ''-'' \<notin> set (dropWhile is_space s)" using assms(1) by (meson set_dropWhileD)
  then show ?thesis using assms(2) by (auto simp: scan_int_def Let_def split: list.splits if_splits)
qed

lemma parse_list:
  assumes "parseMemoryControllerList s n = Some l" and "CHR ''-'' \<notin> set s"
  shows "l \<noteq> [] \<and> (\<forall>c \<in> set l. 0 \<le> c \<and> c < n)"
  using assms
proof (induction s n arbitrary: l rule: parseMemoryControllerList.induct)
  case (1 s n)
  let ?tok = "takeWhile (\<lambda>c. c \<noteq> CHR '','') s"
  have "CHR ''-'' \<notin> set ?tok" using 1(3) by (meson set_takeWhileD)
  then have t: "0 \<le> atoi ?tok" using scan_int_nonneg by (auto simp: atoi_def split: option.split)
  have p: "parseMemoryControllerList s n = do {
      ensure (atoi ?tok < n);
      case dropWhile (\<lambda>c. c \<noteq> CHR '','') s of [] \<Rightarrow> Some [atoi ?tok]
      | c # rest \<Rightarrow> do { l \<leftarrow> parseMemoryControllerList rest n; Some (atoi ?tok # l) } }"
    unfolding parseMemoryControllerList.simps [of s n] Let_def ..
  show ?case
  proof (cases "dropWhile (\<lambda>c. c \<noteq> CHR '','') s")
    case Nil
    show ?thesis using 1(2) t unfolding p Nil by (auto simp only: ensure_bind_eq_Some list.case list.set option.inject)
  next
    case (Cons c rest)
    then have "set rest \<subseteq> set s" by (metis set_dropWhileD set_subset_Cons subset_iff)
    then have "CHR ''-'' \<notin> set rest" using 1(3) by blast
    moreover obtain l' where "atoi ?tok < n" "parseMemoryControllerList rest n = Some l'" "l = atoi ?tok # l'"
      using 1(2) unfolding p Cons list.case bind_eq_Some_conv option.inject ensure_eq_Some by blast
    ultimately show ?thesis using 1(1) [OF refl _ Cons] t by (auto simp only: list.set ensure_True)
  qed
qed

lemma spaced_list:
  assumes "0 < d" and "0 < n" and "list_all (\<lambda>i. i * d < n) (below_int m)" and "0 < m"
  shows "core_list n (map (\<lambda>i. i * d) (below_int m))"
proof -
  have "(m - 1) * d < n" using assms(3,4) by (simp add: list_all_iff)
  moreover have "m - 1 \<le> (m - 1) * d" using assms(1,4) by (simp add: mult_le_cancel_left1)
  ultimately have "m \<le> n" by linarith
  then show ?thesis using assms by (auto simp: core_list_def list_all_iff)
qed

lemma perimeter_nodes:
  assumes "perimeter dim w h = Some l" and "0 < w" and "0 < h"
  shows "\<forall>c \<in> set l. 0 \<le> c \<and> c < w * h"
proof -
  let ?cell = "\<lambda>c. \<exists>i j. 0 \<le> i \<and> i < h \<and> 0 \<le> j \<and> j < w \<and> c = i * w + j"
  have "set (filter (\<lambda>i. 1 \<le> i) (below_int (h - 1))) = {1..<h - 1}" by auto
  then have "set l \<subseteq> {0..<w} \<union> (\<lambda>i. i * w + w - 1) ` {1..<h - 1} \<union> (\<lambda>i. (h - 1) * w + i) ` {0..<w} \<union> (\<lambda>i. i * w) ` {1..<h - 1}"
    using assms(1) unfolding perimeter_def Let_def
    by (simp only: ensure_bind_eq_Some option.inject split: if_splits)
      ((elim conjE)?, hypsubst, simp only: set_append set_map set_rev below_int_simps, blast)+
  moreover have "?cell i" if "i \<in> {0..<w}" for i using that assms(3) by (intro exI [of _ 0] exI [of _ i]) auto
  moreover have "?cell (i * w + w - 1)" if "i \<in> {1..<h - 1}" for i using that assms(2) by (intro exI [of _ i] exI [of _ "w - 1"]) auto
  moreover have "?cell ((h - 1) * w + i)" if "i \<in> {0..<w}" for i using that assms(3) by (intro exI [of _ "h - 1"] exI [of _ i]) auto
  moreover have "?cell (i * w)" if "i \<in> {1..<h - 1}" for i using that assms(2) by (intro exI [of _ i] exI [of _ 0]) auto
  ultimately have cell: "?cell c" if "c \<in> set l" for c using that by blast
  show ?thesis
  proof
    fix c assume "c \<in> set l"
    then obtain i j where c: "0 \<le> i" "i < h" "0 \<le> j" "j < w" "c = i * w + j" using cell by blast
    have "(i + 1) * w \<le> h * w" using c(2) assms(2) by (intro mult_right_mono) auto
    moreover have "0 \<le> i * w" using c(1) assms(2) by simp
    ultimately show "0 \<le> c \<and> c < w * h" using c(3-5) by (simp add: algebra_simps)
  qed
qed

lemma mesh_positions_list:
  assumes "mesh_positions cfg num = Some l" and "num \<le> n" and "n = ec_application_cores cfg" and "0 < n" and "0 < ec_concentration cfg"
    and width: "\<And>w h. computeMeshDimensions cfg = Some (w, h) \<Longrightarrow> 0 < w"
  shows "core_list n l"
proof -
  obtain w h p where wh: "computeMeshDimensions cfg = Some (w, h)" and p: "perimeter (ec_dimensions cfg) w h = Some p"
    and num: "0 < num" "num \<le> int (length p)"
    and l: "l = map (\<lambda>i. ec_concentration cfg * p ! nat ((i * (int (length p) div num) + w div 2) mod int (length p))) (below_int num)"
    using assms(1) by (auto simp: mesh_positions_def abort_simps Let_def)
  have n: "n = ec_concentration cfg * h * w"
    using wh assms(3) by (auto simp: computeMeshDimensions_def Let_def abort_simps)
  moreover have w: "0 < w" by (rule width [OF wh])
  ultimately have "0 < h" using assms(4,5) by (simp add: zero_less_mult_iff)
  then have in_mesh: "0 \<le> c \<and> c < w * h" if "c \<in> set p" for c using perimeter_nodes [OF p w] that by blast
  have "0 \<le> c \<and> c < n" if c: "c \<in> set l" for c
  proof -
    obtain i where "c = ec_concentration cfg * p ! nat ((i * (int (length p) div num) + w div 2) mod int (length p))"
      using c unfolding l set_map by blast
    then obtain k where k: "c = ec_concentration cfg * p ! nat (k mod int (length p))" ..
    have "0 < int (length p)" using num by linarith
    then have "k mod int (length p) < int (length p)" "0 \<le> k mod int (length p)" by (rule pos_mod_bound, rule pos_mod_sign)
    then have "nat (k mod int (length p)) < length p" by linarith
    then have "p ! nat (k mod int (length p)) \<in> set p" by simp
    from in_mesh [OF this] show ?thesis unfolding k n using assms(5) by (simp add: mult.assoc mult.commute [of h w])
  qed
  moreover have len: "length l = nat num" unfolding l by simp
  then have "l \<noteq> []" using num(1) by auto
  moreover have "int (length l) \<le> n" using len num(1) assms(2) by simp
  ultimately show ?thesis unfolding core_list_def by blast
qed

lemma rounded_up:
  assumes "0 < d" and "0 < (n :: int)"
  shows "0 < (n + d - 1) div d" and "list_all (\<lambda>i. i * d < n) (below_int ((n + d - 1) div d))"
proof -
  show "0 < (n + d - 1) div d" using assms by (simp add: pos_imp_zdiv_pos_iff)
  have "i * d < n" if "i < (n + d - 1) div d" for i
  proof -
    have "(i + 1) * d \<le> (n + d - 1) div d * d" using that assms(1) by (intro mult_right_mono) auto
    also have "\<dots> \<le> n + d - 1"
      using div_mult_mod_eq [of "n + d - 1" d] pos_mod_sign [OF assms(1), of "n + d - 1"] by linarith
    finally show ?thesis by (simp add: algebra_simps)
  qed
  then show "list_all (\<lambda>i. i * d < n) (below_int ((n + d - 1) div d))" by (simp add: list_all_iff)
qed

lemma controllers_list:
  assumes "getCoreListWithMemoryControllers cfg network num interleaving positions n = Some l"
    and "n = ec_application_cores cfg" and "0 < n" and "0 < ec_concentration cfg"
    and "\<And>w h. computeMeshDimensions cfg = Some (w, h) \<Longrightarrow> 0 < w"
    and "- 1 \<le> num" and "0 \<le> interleaving" and "CHR ''-'' \<notin> set positions"
  shows "core_list n l"
proof -
  have num: "num \<le> n" using assms(1) by (auto simp: getCoreListWithMemoryControllers_def)
  consider (given) "parseMemoryControllerList positions n = Some l" "int (length l) = num"
    | (chosen) "computeMemoryControllerPositions cfg (parseNetworkType network) num n = Some l" "num \<noteq> - 1"
    | (interleaved) "0 < interleaving" "l = map (\<lambda>i. i * interleaving) (below_int ((n + interleaving - 1) div interleaving))"
    | (every) "l = below_int n"
    using assms(1,7) by (auto simp: getCoreListWithMemoryControllers_def abort_simps Let_def split: if_splits)
  then show ?thesis
  proof cases
    case given
    then show ?thesis using parse_list [OF given(1) assms(8)] num by (simp add: core_list_def)
  next
    case chosen
    consider (mesh) "mesh_positions cfg num = Some l"
      | (spaced) "num \<noteq> 0" "l = map (\<lambda>i. i * (n div num)) (below_int num)" "list_all (\<lambda>i. i * (n div num) < n) (below_int num)"
      using chosen(1) by (auto simp: computeMemoryControllerPositions_def Let_def abort_simps split: option.splits network_type.splits)
    then show ?thesis
    proof cases
      case mesh
      show ?thesis by (rule mesh_positions_list [OF mesh num assms(2-4)]) (rule assms(5))
    next
      case spaced
      have "0 < num" using assms(6) chosen(2) spaced(1) by linarith
      then have "0 < n div num" using num by (simp add: pos_imp_zdiv_pos_iff)
      then show ?thesis unfolding spaced(2) by (rule spaced_list [OF _ assms(3) spaced(3) \<open>0 < num\<close>])
    qed
  next
    case interleaved
    then show ?thesis using spaced_list [OF interleaved(1) assms(3) rounded_up(2) rounded_up(1)] assms(3) by simp
  next
    case every
    then show ?thesis using assms(3) by (simp add: core_list_def)
  qed
qed

lemma tag_directories_list:
  assumes "tag_directory_list locations shared interleaving l n = Some t" and "core_list n l" and "0 < n"
  shows "core_list n t"
proof -
  consider "t = l" | d where "0 < d" "t = map (\<lambda>i. i * d) (below_int ((n + d - 1) div d))"
    using assms(1,3) by (auto simp: tag_directory_list_def abort_simps Let_def split: if_splits)
  then show ?thesis
    using assms(2,3) spaced_list [OF _ assms(3) rounded_up(2) rounded_up(1)] by cases auto
qed

lemma sint_small:
  assumes "unat x < 2 ^ 31"
  shows "sint (x :: u32) = int (unat x)"
proof -
  have u: "uint x = int (unat x)" by simp
  have "int (unat x) < int (2 ^ 31)" using assms by (simp only: of_nat_less_iff)
  then have "uint x < 2 ^ 31" by simp
  then show ?thesis unfolding sint_uint u [symmetric] by (intro signed_take_bit_int_eq_self) (auto intro: order_trans [of _ 0])
qed

lemma home_in_list:
  assumes "AddressHomeLookup_new p l block_size = Some a" and "core_list n l" and "n < 2 ^ 31"
  shows "\<exists>c. getHome a address = Some c \<and> c \<in> set l"
proof -
  let ?t = "of_nat (length l) :: u32"
  have a: "ahl_core_list a = l" "ahl_total_modules a = ?t" using assms(1) by (auto simp: AddressHomeLookup_new_def)
  have len: "0 < length l" "length l < 2 ^ 31" using assms(2,3) by (auto simp: core_list_def)
  then have t: "unat ?t = length l" by (simp add: unat_of_nat)
  then have t0: "?t \<noteq> 0" using len(1) by auto
  define m where "m = (ucast (drop_bit (ahl_param a) address mod ucast ?t) :: u32)"
  have "m < ?t" unfolding m_def by (rule ucast_mod_range [OF t0])
  then have m: "unat m < length l" using t by (simp add: word_less_nat_alt)
  have "int (unat m) < int (length l)" using m by (simp only: of_nat_less_iff)
  then have "ahl_module a address = Some (int (unat m))"
    using m len t0 sint_small [of m] sint_small [of ?t] t by (simp add: ahl_module_def Let_def a m_def [symmetric])
  then show ?thesis using m by (simp add: getHome_def a)
qed

section \<open>Properties\<close>

text \<open>C14. Every address has a home: for all placements of the DRAM controllers and tag directories that the configuration can ask for, the
  lists that the memory manager makes are not empty, and the DRAM controller and the tag directory of every address are on existing
  cores of those lists. The code does not check what is assumed of the configuration: the number of controllers is not below -1, the
  interleaving and the positions in the configuration file are not negative, and the mesh has a positive width and concentration.\<close>

theorem address_has_home:
  assumes "getCoreListWithMemoryControllers cfg network num interleaving positions n = Some drams"
    and "tag_directory_list locations shared directory_interleaving drams n = Some directories"
    and "n = ec_application_cores cfg" and "0 < n" and "n < 2 ^ 31" and "0 < ec_concentration cfg"
    and "\<And>w h. computeMeshDimensions cfg = Some (w, h) \<Longrightarrow> 0 < w"
    and "- 1 \<le> num" and "0 \<le> interleaving" and "CHR ''-'' \<notin> set positions"
    and "AddressHomeLookup_new p drams block_size = Some a" and "AddressHomeLookup_new p directories block_size = Some b"
  shows "\<exists>c d. getHome a address = Some c \<and> c \<in> set drams \<and> 0 \<le> c \<and> c < n \<and>
    getHome b address = Some d \<and> d \<in> set directories \<and> 0 \<le> d \<and> d < n"
proof -
  have c: "core_list n drams" by (rule controllers_list [OF assms(1,3,4,6) _ assms(8-10)]) (rule assms(7))
  have d: "core_list n directories" by (rule tag_directories_list [OF assms(2) c assms(4)])
  show ?thesis
    using home_in_list [OF assms(11) c assms(5), of address] home_in_list [OF assms(12) d assms(5), of address] c d
    unfolding core_list_def by blast
qed

definition mesh_4x2 :: emesh_config where
  "mesh_4x2 = \<lparr>ec_concentration = 2, ec_dimensions = 2, ec_size = ''4:2'', ec_wrap_around = False, ec_broadcast_tree = False, ec_hop_latency = 2,
     ec_application_cores = 16, ec_total_cores = 16\<rparr>"

theorem address_has_home_witness:
  "\<exists>a b c d. getCoreListWithMemoryControllers mesh_4x2 ''emesh_hop_by_hop'' 3 0 '''' 16 = Some [4, 14, 10] \<and>
     tag_directory_list ''interleaved'' 1 4 [4, 14, 10] 16 = Some [0, 4, 8, 12] \<and>
     AddressHomeLookup_new 6 [4, 14, 10] 64 = Some a \<and> AddressHomeLookup_new 6 [0, 4, 8, 12] 64 = Some b \<and>
     getHome a 0x12345 = Some c \<and> c \<in> set [4, 14, 10] \<and> getHome b 0x12345 = Some d \<and> d \<in> set [0, 4, 8, 12]"
proof -
  have l: "getCoreListWithMemoryControllers mesh_4x2 ''emesh_hop_by_hop'' 3 0 '''' 16 = Some [4, 14, 10]" by code_simp
  have t: "tag_directory_list ''interleaved'' 1 4 [4, 14, 10] 16 = Some [0, 4, 8, 12]" by code_simp
  have w: "0 < w" if "computeMeshDimensions mesh_4x2 = Some (w, h)" for w h
  proof -
    have "computeMeshDimensions mesh_4x2 = Some (4, 2)" by code_simp
    then show ?thesis using that by simp
  qed
  obtain a b where n: "AddressHomeLookup_new 6 [4, 14, 10] 64 = Some a" "AddressHomeLookup_new 6 [0, 4, 8, 12] 64 = Some b"
    by (simp add: AddressHomeLookup_new_def)
  have m: "16 = ec_application_cores mesh_4x2" "0 < ec_concentration mesh_4x2" by (simp_all add: mesh_4x2_def)
  have "\<exists>c d. getHome a 0x12345 = Some c \<and> c \<in> set [4, 14, 10] \<and> 0 \<le> c \<and> c < 16 \<and>
      getHome b 0x12345 = Some d \<and> d \<in> set [0, 4, 8, 12] \<and> 0 \<le> d \<and> d < 16"
    by (rule address_has_home [OF l t m(1) _ _ m(2) _ _ _ _ n]) (simp_all add: w)
  then show ?thesis using l t n by blast
qed

end
