(* ===== verification/Spec2Isabelle.thy ===== *)
theory Spec2Isabelle
  imports ReplacementProps Tlb LlcSw Queues DramDirectoryProps HierarchyProps Placement
begin

text \<open>
  A development of the memory subsystem of the simulator with the dead page predictor dpPred and the dead
  block predictor cbPred. Paths are relative to \<^verbatim>\<open>src/common\<close>; \<^verbatim>\<open>mem\<close> stands for
  \<^verbatim>\<open>core/memory_subsystem\<close>.

  \<^bold>\<open>The program.\<close> A core sends its memory accesses to the memory manager of its tile. The manager looks the page
  up in a hierarchy of TLBs, whose last level runs dpPred, and hands the access to a hierarchy of caches. A
  miss of the last-level cache passes through the software model of that cache, which runs cbPred with the
  queue of page frames that dpPred fills, and becomes a message to the tag directory of the home node of the
  address. The directory keeps the caches coherent with the MSI, MESI or MESIF protocol, fetches data from a
  NUCA cache, from other caches or from the DRAM, and answers with a message.

  \<^bold>\<open>Conventions.\<close> Objects are records, enumerations are datatypes, \<^verbatim>\<open>UInt8\<close> to \<^verbatim>\<open>UInt64\<close> are words of their width.
  Methods take the object and return the new one. An abort of the program (a failed \<^verbatim>\<open>assert\<close> or
  \<^verbatim>\<open>LOG_ASSERT_ERROR\<close>, \<^verbatim>\<open>LOG_PRINT_ERROR\<close>, a division by zero, a null pointer, an access outside an array) is the result
  \<open>None\<close>; a theorem that concludes with \<open>Some\<close> therefore excludes them. Variables that the program reads before it
  writes them are parameters called \<open>garbage\<close> or \<open>uninit\<close>, so that theorems hold for every initial content.
  Simulated time and the statistics that nothing reads are left out; where a latency is modelled it is a
  function of its own.

  \<^bold>\<open>Theories.\<close>

  \<^item> \<open>Prelude\<close>: word types of \<^verbatim>\<open>misc/fixed_types.h\<close>, the abort monad, shared facts and collections.
  \<^item> \<open>Util\<close>: \<^verbatim>\<open>misc/utils.cc\<close> and the random number generators. Bits, logarithms, powers of two.
  \<^item> \<open>CacheBase\<close>: \<^verbatim>\<open>mem/address_home_lookup.cc\<close>, \<^verbatim>\<open>mem/cache/cache_base.cc\<close>, the coherence states. Addresses fall into
    existing sets, tags determine blocks, and home lookup is injective on a node.
  \<^item> \<open>CacheBlock\<close>: \<^verbatim>\<open>mem/cache/cache_block_info.cc\<close> and its subclasses.
  \<^item> \<open>LruBits\<close>, \<open>Replacement\<close>, \<open>ReplacementProps\<close>: the policies of \<^verbatim>\<open>mem/cache/cache_set_*.cc\<close> behind the locale
    \<open>replacement_policy\<close>; the age counters are positions in a recency list.
  \<^item> \<open>CacheSets\<close>, \<open>Caches\<close>, \<open>LruLive\<close>: \<^verbatim>\<open>mem/cache/cache_set.cc\<close> and \<^verbatim>\<open>cache.cc\<close>. A cache refines a partial map from keys to
    lines, and an LRU cache never aborts.
  \<^item> \<open>Tlb\<close>: \<^verbatim>\<open>mem/parametric_dram_directory_msi/tlb.cc\<close> with dpPred and the TLB access of \<^verbatim>\<open>memory_manager.cc\<close>.
  \<^item> \<open>LlcSw\<close>: cbPred, the static part of \<^verbatim>\<open>mem/parametric_dram_directory_msi/cache_cntlr.cc\<close>.
  \<^item> \<open>Queues\<close>: \<^verbatim>\<open>mem/cache/req_queue_list_template.h\<close> and \<^verbatim>\<open>misc/circular_queue.h\<close> behind the locale of a keyed queue.
  \<^item> \<open>Shmem\<close>: \<^verbatim>\<open>shmem_msg.cc\<close>, \<^verbatim>\<open>shmem_req.cc\<close>, \<^verbatim>\<open>shmem_perf.cc\<close> of \<^verbatim>\<open>mem/pr_l1_pr_l2_dram_directory_msi\<close>.
  \<^item> \<open>Directory\<close>: \<^verbatim>\<open>mem/directory_schemes\<close> and \<^verbatim>\<open>dram_directory_cache.cc\<close>; entries live in an explicit heap, because the
    controller keeps pointers to them. \<open>DirectoryInv\<close> and \<open>DirectoryStruct\<close> hold its invariants behind the locale
    \<open>directory_invariant\<close>.
  \<^item> \<open>Nuca\<close>: \<^verbatim>\<open>mem/parametric_dram_directory_msi/nuca_cache.cc\<close>.
  \<^item> \<open>DramDirectory\<close>: \<^verbatim>\<open>dram_directory_cntlr.cc\<close>, every handler of the controller. \<open>DramDirectoryInv\<close> proves what each handler
    keeps, and \<open>DramDirectoryProps\<close> the properties for every sequence of messages from a new controller.
  \<^item> \<open>Dram\<close>: \<^verbatim>\<open>dram_cntlr.cc\<close> with the data of the DRAM, \<^verbatim>\<open>mem/dram/dram_cache.cc\<close> and \<^verbatim>\<open>dram_cntlr_interface.cc\<close>.
  \<^item> \<open>Hierarchy\<close>: the cache controllers of \<^verbatim>\<open>mem/parametric_dram_directory_msi/cache_cntlr.cc\<close>, from the operations of a core to the
    messages of the directory. \<open>MemoryManager\<close>: \<^verbatim>\<open>memory_manager.cc\<close>, which builds the TLBs and the controllers and passes the
    accesses of a core on.
  \<^item> \<open>BlockStore\<close> states what the operations of one cache do to the map from addresses to blocks. On it, \<open>HierarchyInv\<close> describes
    the tree of controllers and the view of all its caches, \<open>HierarchyOps\<close> the updates that flush a subtree, \<open>HierarchyCoh\<close> when the
    copies of a block are coherent and which value they stand for, \<open>HierarchyMem\<close> that evictions and insertions keep it, and
    \<open>HierarchyFlat\<close> that requests and operations of the cores do. \<open>HierarchyProps\<close> concludes that a new hierarchy behaves like a
    flat memory, and shows on a small machine where sharing between cores goes wrong.
  \<^item> \<open>EMesh\<close>: \<^verbatim>\<open>network/network_model_emesh_hop_by_hop.cc\<close>, and \<^verbatim>\<open>netSend\<close> of \<^verbatim>\<open>network/network.cc\<close>. The nodes form a line, a ring, a mesh or a
    torus; every packet for one core arrives, in the time of the distance except in rings of odd size, and a broadcast
    over the tree never ends.
  \<^item> \<open>Placement\<close>: the cores with a DRAM controller and with a tag directory, from \<^verbatim>\<open>mem/memory_manager_base.cc\<close>,
    \<^verbatim>\<open>network/network_model.cc\<close> and the constructor in \<^verbatim>\<open>memory_manager.cc\<close>. Every address has a home on an existing core.

  \<^bold>\<open>Bounds.\<close> The controller handlers call each other through \<^verbatim>\<open>processNextReqFromL2Cache\<close>; the model closes this recursion with a
  depth, and C16 shows that every depth above the number of queued requests gives the same result. The retry
  loops of the round robin and random policies are partial functions, so not returning is \<open>None\<close>; C34 says when round
  robin returns. The recursion over the levels of the hierarchy has the number of controllers as its depth, which C2 shows to be
  enough for a tree of controllers; the loop that wakes up waiting threads is a partial function. The loop that follows a
  packet through the mesh is a partial function too, and C13 shows that it returns. All other loops are structural or end
  with a measure.

  \<^bold>\<open>Not modelled.\<close> The core and its performance models, the network models other than the mesh, the queues of its links, the transport
  that carries its packets, the DRAM timing, the prefetchers and the frontends,
  the scheduler, the statistics and the scripting interface: they produce or time the accesses that the modelled
  part answers for every sequence. The locks and threads of the memory subsystem are not modelled: a handler is
  one step, and a thread that waits for the directory is resumed by the reply. The directory and the hierarchies
  are proved correct separately, for every sequence of messages and of operations. The mesh is modelled up to the core to
  which it hands a packet; the interleaving of the packets on their way between the two is not part of the model.
\<close>

end
